(* ===== verification/Prelude.thy ===== *)
theory Prelude
  imports Main "HOL-Library.Word" "HOL-Library.List_Lexorder" "HOL-Library.Char_ord"
begin

text \<open>
  Shared vocabulary of the development.

  \<^item> Machine integers: \<open>u8\<close>, \<open>u16\<close>, \<open>u32\<close> and \<open>u64\<close> are words of their width. A \<open>usize\<close>
    is a \<^typ>\<open>nat\<close>; where the source checks it for overflow the bound \<open>2 ^ 64\<close> is written out
    (the crates refuse to build for anything but x86-64).
  \<^item> Byte strings are lists of \<open>u8\<close>. A fixed-size array \<open>[u8; N]\<close> is a byte string of length
    \<open>N\<close>; the validity predicate of each record states the length.
  \<^item> \<open>Result<T, E>\<close> is \<open>'e + 'a\<close> with \<open>Inl\<close> the error; \<open>and_then\<close> is the question-mark
    operator and \<open>ok_or\<close> is \<open>Option::ok_or\<close>.
  \<^item> A \<open>BTreeMap\<close> is an association list in ascending key order.
  \<^item> \<open>copy_at\<close> is \<open>bytes[o..o + n].copy_from_slice(src)\<close>. The Rust code panics out of range;
    every use in the modelled code has a constant offset inside the array, and \<open>copy_at\<close>
    leaves the array alone out of range, so it never changes a length.
\<close>

named_theorems layout_simps \<open>reading a field back out of a byte layout\<close>

type_synonym u8 = "8 word"
type_synonym u16 = "16 word"
type_synonym u32 = "32 word"
type_synonym u64 = "64 word"
type_synonym bytes = "8 word list"

section \<open>Results and options\<close>

definition and_then :: "'e + 'a \<Rightarrow> ('a \<Rightarrow> 'e + 'b) \<Rightarrow> 'e + 'b" where
  "and_then r f = (case r of Inl e \<Rightarrow> Inl e | Inr a \<Rightarrow> f a)"

definition ok_or :: "'a option \<Rightarrow> 'e \<Rightarrow> 'e + 'a" where
  "ok_or x e = (case x of None \<Rightarrow> Inl e | Some a \<Rightarrow> Inr a)"

definition map_err :: "('e \<Rightarrow> 'f) \<Rightarrow> 'e + 'a \<Rightarrow> 'f + 'a" where
  "map_err f r = (case r of Inl e \<Rightarrow> Inl (f e) | Inr a \<Rightarrow> Inr a)"

section \<open>Checked machine arithmetic\<close>

definition checked_add :: "'a::len word \<Rightarrow> 'a word \<Rightarrow> 'a word option" where
  "checked_add a b = (if unat a + unat b < 2 ^ LENGTH('a) then Some (a + b) else None)"

definition checked_sub :: "'a::len word \<Rightarrow> 'a word \<Rightarrow> 'a word option" where
  "checked_sub a b = (if b \<le> a then Some (a - b) else None)"

definition saturating_sub :: "'a::len word \<Rightarrow> 'a word \<Rightarrow> 'a word" where
  "saturating_sub a b = (if b \<le> a then a - b else 0)"

definition saturating_add :: "'a::len word \<Rightarrow> 'a word \<Rightarrow> 'a word" where
  "saturating_add a b = (if unat a + unat b < 2 ^ LENGTH('a) then a + b else - 1)"

definition usize_checked_add :: "nat \<Rightarrow> nat \<Rightarrow> nat option" where
  "usize_checked_add a b = (if a + b < 2 ^ 64 then Some (a + b) else None)"

definition u64_try_from :: "nat \<Rightarrow> u64 option" where
  "u64_try_from n = (if n < 2 ^ 64 then Some (of_nat n) else None)"

definition usize_checked_mul :: "nat \<Rightarrow> nat \<Rightarrow> nat option" where
  "usize_checked_mul a b = (if a * b < 2 ^ 64 then Some (a * b) else None)"

section \<open>Byte layouts\<close>

definition slice :: "nat \<Rightarrow> nat \<Rightarrow> 'a list \<Rightarrow> 'a list" where
  "slice off n bs = take n (drop off bs)"

definition copy_at :: "'a list \<Rightarrow> nat \<Rightarrow> 'a list \<Rightarrow> 'a list" where
  "copy_at bs off src =
     (if off + length src \<le> length bs
      then take off bs @ src @ drop (off + length src) bs else bs)"

primrec to_le_bytes :: "nat \<Rightarrow> 'a::len word \<Rightarrow> bytes" where
  "to_le_bytes 0 w = []"
| "to_le_bytes (Suc n) w = ucast w # to_le_bytes n (drop_bit 8 w)"

primrec from_le_bytes :: "bytes \<Rightarrow> 'a::len word" where
  "from_le_bytes [] = 0"
| "from_le_bytes (b # bs) = or (ucast b) (push_bit 8 (from_le_bytes bs))"

definition put_u16 :: "bytes \<Rightarrow> nat \<Rightarrow> u16 \<Rightarrow> bytes" where
  "put_u16 bs off v = copy_at bs off (to_le_bytes 2 v)"

definition put_u32 :: "bytes \<Rightarrow> nat \<Rightarrow> u32 \<Rightarrow> bytes" where
  "put_u32 bs off v = copy_at bs off (to_le_bytes 4 v)"

definition put_u64 :: "bytes \<Rightarrow> nat \<Rightarrow> u64 \<Rightarrow> bytes" where
  "put_u64 bs off v = copy_at bs off (to_le_bytes 8 v)"

definition get_u16 :: "bytes \<Rightarrow> nat \<Rightarrow> u16" where
  "get_u16 bs off = from_le_bytes (slice off 2 bs)"

definition get_u32 :: "bytes \<Rightarrow> nat \<Rightarrow> u32" where
  "get_u32 bs off = from_le_bytes (slice off 4 bs)"

definition get_u64 :: "bytes \<Rightarrow> nat \<Rightarrow> u64" where
  "get_u64 bs off = from_le_bytes (slice off 8 bs)"

definition any_nonzero :: "bytes \<Rightarrow> bool" where
  "any_nonzero bs = list_ex (\<lambda>b. b \<noteq> 0) bs"

definition ascii :: "string \<Rightarrow> bytes" where
  "ascii s = map (\<lambda>c. of_nat (of_char c)) s"

definition zeros :: "nat \<Rightarrow> bytes" where
  "zeros n = replicate n 0"

text \<open>Agreement of two byte strings on consecutive fields of the given widths.\<close>

primrec agree_on :: "nat list \<Rightarrow> nat \<Rightarrow> 'a list \<Rightarrow> 'a list \<Rightarrow> bool" where
  "agree_on [] off a b = True"
| "agree_on (n # ns) off a b = (slice off n a = slice off n b \<and> agree_on ns (off + n) a b)"

section \<open>Ordered maps\<close>

type_synonym ('k, 'v) btree = "('k \<times> 'v) list"

fun bt_insert :: "'k::linorder \<Rightarrow> 'v \<Rightarrow> ('k, 'v) btree \<Rightarrow> ('k, 'v) btree" where
  "bt_insert k v [] = [(k, v)]"
| "bt_insert k v ((k', v') # m) =
     (if k < k' then (k, v) # (k', v') # m
      else if k = k' then (k, v) # m
      else (k', v') # bt_insert k v m)"

definition bt_get :: "('k, 'v) btree \<Rightarrow> 'k \<Rightarrow> 'v option" where
  "bt_get m k = map_of m k"

definition bt_remove :: "'k \<Rightarrow> ('k, 'v) btree \<Rightarrow> ('k, 'v) btree" where
  "bt_remove k m = filter (\<lambda>(k', _). k' \<noteq> k) m"

definition bt_contains :: "('k, 'v) btree \<Rightarrow> 'k \<Rightarrow> bool" where
  "bt_contains m k = list_ex (\<lambda>(k', _). k' = k) m"

definition bt_keys :: "('k, 'v) btree \<Rightarrow> 'k list" where
  "bt_keys m = map fst m"

definition bt_retain :: "('k \<Rightarrow> bool) \<Rightarrow> ('k, 'v) btree \<Rightarrow> ('k, 'v) btree" where
  "bt_retain P m = filter (\<lambda>(k, _). P k) m"

definition bt_map_values :: "('v \<Rightarrow> 'w) \<Rightarrow> ('k, 'v) btree \<Rightarrow> ('k, 'w) btree" where
  "bt_map_values f m = map (\<lambda>(k, v). (k, f v)) m"

definition bt_sorted :: "('k::linorder, 'v) btree \<Rightarrow> bool" where
  "bt_sorted m = sorted_wrt (<) (map fst m)"

section \<open>Lemmas: results\<close>

lemma and_then_simps [simp]:
  "and_then (Inl e) f = Inl e"
  "and_then (Inr a) f = f a"
  by (simp_all add: and_then_def)

lemma and_then_eq_Inr [simp]:
  "and_then r f = Inr y \<longleftrightarrow> (\<exists>a. r = Inr a \<and> f a = Inr y)"
  by (cases r) auto

lemma ok_or_simps [simp]:
  "ok_or None e = Inl e"
  "ok_or (Some a) e = Inr a"
  by (simp_all add: ok_or_def)

lemma ok_or_eq_Inr [simp]: "ok_or x e = Inr a \<longleftrightarrow> x = Some a"
  by (cases x) auto

lemma map_err_simps [simp]:
  "map_err f (Inl e) = Inl (f e)"
  "map_err f (Inr a) = Inr a"
  by (simp_all add: map_err_def)

lemma map_err_eq_Inr [simp]: "map_err f r = Inr a \<longleftrightarrow> r = Inr a"
  by (cases r) auto

section \<open>Lemmas: machine arithmetic\<close>

lemma checked_add_eq_Some:
  "checked_add a b = Some c \<longleftrightarrow> unat a + unat b < 2 ^ LENGTH('a) \<and> c = a + b"
  for a :: "'a::len word"
  by (auto simp: checked_add_def)

lemma checked_add_unat: "checked_add a b = Some c \<Longrightarrow> unat c = unat a + unat b"
  for a :: "'a::len word"
  by (simp add: checked_add_eq_Some unat_word_ariths)

lemma checked_add_eq_None:
  "checked_add a b = None \<longleftrightarrow> 2 ^ LENGTH('a) \<le> unat a + unat b"
  for a :: "'a::len word"
  by (auto simp: checked_add_def)

lemma checked_sub_unat: "checked_sub a b = Some c \<Longrightarrow> unat c = unat a - unat b \<and> b \<le> a"
  for a :: "'a::len word"
  by (auto simp: checked_sub_def unat_sub split: if_splits)

lemma unat_saturating_sub: "unat (saturating_sub a b) = unat a - unat b"
  for a :: "'a::len word"
  by (auto simp: saturating_sub_def unat_sub word_le_nat_alt)

lemma unat_eq_numeralD: "unat w = numeral n \<Longrightarrow> w = numeral n" for w :: "'a::len word"
  by (metis of_nat_numeral of_nat_unat ucast_id)

lemma usize_checked_add_eq_Some [simp]:
  "usize_checked_add a b = Some c \<longleftrightarrow> a + b < 2 ^ 64 \<and> c = a + b"
  by (auto simp: usize_checked_add_def)

lemma usize_checked_mul_eq_Some [simp]:
  "usize_checked_mul a b = Some c \<longleftrightarrow> a * b < 2 ^ 64 \<and> c = a * b"
  by (auto simp: usize_checked_mul_def)

lemma u64_try_from_eq_Some [simp]: "u64_try_from n = Some w \<longleftrightarrow> n < 2 ^ 64 \<and> w = of_nat n"
  by (auto simp: u64_try_from_def)

section \<open>Lemmas: byte layouts\<close>

lemma length_slice [simp]: "length (slice off n bs) = min n (length bs - off)"
  by (simp add: slice_def)

lemma length_copy_at [simp]: "length (copy_at bs off src) = length bs"
  by (simp add: copy_at_def)

lemma length_to_le_bytes [simp]: "length (to_le_bytes n w) = n"
  by (induction n arbitrary: w) simp_all

lemma length_put [simp]:
  "length (put_u16 bs off a) = length bs"
  "length (put_u32 bs off b) = length bs"
  "length (put_u64 bs off c) = length bs"
  by (simp_all add: put_u16_def put_u32_def put_u64_def)

lemma length_ascii [simp]: "length (ascii s) = length s"
  by (simp add: ascii_def)

lemma length_zeros [simp]: "length (zeros n) = n"
  by (simp add: zeros_def)

lemma slice_all [simp]: "slice 0 (length bs) bs = bs"
  by (simp add: slice_def)

lemma slice_copy_at_same:
  "n = length src \<Longrightarrow> off + n \<le> length bs \<Longrightarrow> slice off n (copy_at bs off src) = src"
  by (simp add: slice_def copy_at_def)

lemma slice_copy_at_other:
  assumes "off + n \<le> p \<or> p + length src \<le> off"
  shows "slice off n (copy_at bs p src) = slice off n bs"
proof (cases "p + length src \<le> length bs")
  case True
  show ?thesis
  proof (cases "off + n \<le> p")
    case le: True
    then have "n \<le> p - off" and "n \<le> length bs - off" using True by simp_all
    with True show ?thesis
      by (auto simp: slice_def copy_at_def drop_take min_def)
  next
    case False
    with assms have ge: "p + length src \<le> off" by simp
    have "drop off (take p bs @ src @ drop (p + length src) bs) = drop off bs"
      using ge True by (simp add: algebra_simps)
    with True show ?thesis by (simp add: slice_def copy_at_def)
  qed
next
  case False
  then show ?thesis by (simp add: slice_def copy_at_def)
qed

lemma slice_zeros [simp]: "off + n \<le> m \<Longrightarrow> slice off n (zeros m) = zeros n"
  by (simp add: slice_def zeros_def)

lemma slice_drop: "slice off n (drop k bs) = slice (k + off) n bs"
  by (simp add: slice_def add.commute)

lemma slice_put [layout_simps]:
  "off + n \<le> p \<or> p + 2 \<le> off \<Longrightarrow> slice off n (put_u16 bs p a) = slice off n bs"
  "off + n \<le> p \<or> p + 4 \<le> off \<Longrightarrow> slice off n (put_u32 bs p b) = slice off n bs"
  "off + n \<le> p \<or> p + 8 \<le> off \<Longrightarrow> slice off n (put_u64 bs p c) = slice off n bs"
  by (simp_all add: put_u16_def put_u32_def put_u64_def slice_copy_at_other)

lemma slice_put_same [layout_simps]:
  "p + 2 \<le> length bs \<Longrightarrow> slice p 2 (put_u16 bs p a) = to_le_bytes 2 a"
  "p + 4 \<le> length bs \<Longrightarrow> slice p 4 (put_u32 bs p b) = to_le_bytes 4 b"
  "p + 8 \<le> length bs \<Longrightarrow> slice p 8 (put_u64 bs p c) = to_le_bytes 8 c"
  by (simp_all add: put_u16_def put_u32_def put_u64_def slice_copy_at_same)

lemma copy_at_append:
  "off + length src \<le> length a \<Longrightarrow> copy_at (a @ b) off src = copy_at a off src @ b"
  by (simp add: copy_at_def)

lemma put_append:
  "off + 2 \<le> length a \<Longrightarrow> put_u16 (a @ b) off x = put_u16 a off x @ b"
  "off + 4 \<le> length a \<Longrightarrow> put_u32 (a @ b) off y = put_u32 a off y @ b"
  "off + 8 \<le> length a \<Longrightarrow> put_u64 (a @ b) off z = put_u64 a off z @ b"
  by (simp_all add: put_u16_def put_u32_def put_u64_def copy_at_append)

lemma copy_at_slice: "slice off (length src) bs = src \<Longrightarrow> copy_at bs off src = bs"
  using append_take_drop_id [of "length src" "drop off bs"]
  by (simp add: copy_at_def slice_def add.commute)

lemmas slice_copy_at [layout_simps] = slice_copy_at_same slice_copy_at_other

lemma bit_from_le_bytes:
  "bit (from_le_bytes bs :: 'a::len word) i \<longleftrightarrow>
     i < LENGTH('a) \<and> i div 8 < length bs \<and> bit (bs ! (i div 8)) (i mod 8)"
proof (induction bs arbitrary: i)
  case Nil
  then show ?case by simp
next
  case (Cons b bs)
  show ?case
  proof (cases "i < 8")
    case True
    then show ?thesis
      by (auto simp: bit_simps dest: bit_imp_le_length)
  next
    case False
    then have "i div 8 = Suc ((i - 8) div 8)" and "(i - 8) mod 8 = i mod 8"
      by (simp_all add: div_if mod_if)
    moreover have "\<not> bit b i"
      using False by (auto dest: bit_imp_le_length)
    ultimately show ?thesis
      using False Cons.IH [of "i - 8"] by (auto simp: bit_simps)
  qed
qed

lemma nth_to_le_bytes:
  "k < n \<Longrightarrow> to_le_bytes n w ! k = ucast (drop_bit (8 * k) w)"
proof (induction n arbitrary: w k)
  case 0
  then show ?case by simp
next
  case (Suc n)
  then show ?case by (cases k) (simp_all add: ac_simps)
qed

lemma from_to_le_bytes:
  assumes "8 * n = LENGTH('a)"
  shows "from_le_bytes (to_le_bytes n w) = (w :: 'a::len word)"
proof (rule bit_word_eqI)
  fix i assume i: "i < LENGTH('a)"
  then have "i div 8 < n" using assms by simp
  with i show "bit (from_le_bytes (to_le_bytes n w) :: 'a word) i \<longleftrightarrow> bit w i"
    by (simp add: bit_from_le_bytes nth_to_le_bytes bit_simps)
qed

lemma to_from_le_bytes:
  assumes "length bs = n" and "8 * n = LENGTH('a)"
  shows "to_le_bytes n (from_le_bytes bs :: 'a::len word) = bs"
proof (rule nth_equalityI)
  show "length (to_le_bytes n (from_le_bytes bs :: 'a word)) = length bs"
    using assms by simp
next
  fix k assume "k < length (to_le_bytes n (from_le_bytes bs :: 'a word))"
  then have k: "k < n" by simp
  show "to_le_bytes n (from_le_bytes bs :: 'a word) ! k = bs ! k"
  proof (rule bit_word_eqI)
    fix i assume "i < LENGTH(8)"
    then have i: "i < 8" by simp
    then have "8 * k + i < LENGTH('a)" using k assms(2) by simp
    then show "bit (to_le_bytes n (from_le_bytes bs :: 'a word) ! k) i \<longleftrightarrow> bit (bs ! k) i"
      using i k assms by (simp add: nth_to_le_bytes bit_simps bit_from_le_bytes)
  qed
qed

lemma le_bytes_u16 [layout_simps]: "from_le_bytes (to_le_bytes 2 w) = w" for w :: u16
  by (rule from_to_le_bytes) simp
lemma le_bytes_u32 [layout_simps]: "from_le_bytes (to_le_bytes 4 w) = w" for w :: u32
  by (rule from_to_le_bytes) simp
lemma le_bytes_u64 [layout_simps]: "from_le_bytes (to_le_bytes 8 w) = w" for w :: u64
  by (rule from_to_le_bytes) simp

lemma slice_get_u16: "off + 2 \<le> length bs \<Longrightarrow> slice off 2 bs = to_le_bytes 2 (get_u16 bs off)"
  by (simp add: get_u16_def to_from_le_bytes)
lemma slice_get_u32: "off + 4 \<le> length bs \<Longrightarrow> slice off 4 bs = to_le_bytes 4 (get_u32 bs off)"
  by (simp add: get_u32_def to_from_le_bytes)
lemma slice_get_u64: "off + 8 \<le> length bs \<Longrightarrow> slice off 8 bs = to_le_bytes 8 (get_u64 bs off)"
  by (simp add: get_u64_def to_from_le_bytes)

lemma from_le_bytes_zeros [simp]: "from_le_bytes (zeros n) = 0"
  by (induction n) (simp_all add: zeros_def)

lemma to_le_bytes_0 [simp]: "to_le_bytes n (0 :: 'a::len word) = zeros n"
  by (induction n) (simp_all add: zeros_def)

lemma any_nonzero_iff: "\<not> any_nonzero bs \<longleftrightarrow> bs = zeros (length bs)"
  by (induction bs) (auto simp: any_nonzero_def zeros_def)

lemma any_nonzero_zeros [simp]: "\<not> any_nonzero (zeros n)"
  by (simp add: any_nonzero_iff)

lemma drop_eq_slice: "drop off bs = slice off (length bs - off) bs"
  by (simp add: slice_def)

lemma agree_on_drop:
  assumes "agree_on ns off a b" and "length a = length b" and "off + sum_list ns = length a"
  shows "drop off a = drop off b"
  using assms
proof (induction ns arbitrary: off)
  case Nil
  then show ?case by simp
next
  case (Cons n ns)
  then have "take n (drop off a) = take n (drop off b)" and "drop (off + n) a = drop (off + n) b"
    by (simp_all add: slice_def add.assoc)
  then show ?case
    by (metis add.commute append_take_drop_id drop_drop)
qed

lemma agree_on_eq:
  "length a = length b \<Longrightarrow> sum_list ns = length a \<Longrightarrow> agree_on ns 0 a b \<Longrightarrow> a = b"
  using agree_on_drop [of ns 0 a b] by simp

section \<open>Lemmas: ordered maps\<close>

lemma bt_get_empty [simp]: "bt_get [] k = None"
  by (simp add: bt_get_def)

lemma bt_insert_keys: "fst ` set (bt_insert k v m) = insert k (fst ` set m)"
  by (induction k v m rule: bt_insert.induct) auto

lemma bt_insert_mem: "(k', v') \<in> set (bt_insert k v m) \<Longrightarrow> (k', v') = (k, v) \<or> (k', v') \<in> set m"
  by (induction k v m rule: bt_insert.induct) (auto split: if_splits)

lemma bt_get_insert [simp]:
  "bt_sorted m \<Longrightarrow> bt_get (bt_insert k v m) k' = (if k' = k then Some v else bt_get m k')"
proof (induction k v m rule: bt_insert.induct)
  case (1 k v)
  then show ?case by (simp add: bt_get_def)
next
  case (2 k v k1 v1 m)
  then show ?case
    by (auto simp: bt_get_def bt_sorted_def split: if_splits)
qed

lemma bt_sorted_empty [simp]: "bt_sorted []"
  by (simp add: bt_sorted_def)

lemma bt_sorted_insert [simp]: "bt_sorted m \<Longrightarrow> bt_sorted (bt_insert k v m)"
proof (induction k v m rule: bt_insert.induct)
  case (1 k v)
  then show ?case by (simp add: bt_sorted_def)
next
  case (2 k v k1 v1 m)
  have "fst ` set (bt_insert k v m) = insert k (fst ` set m)" by (rule bt_insert_keys)
  with 2 show ?case
    by (auto simp: bt_sorted_def)
qed

lemma bt_get_remove [simp]: "bt_get (bt_remove k m) k' = (if k' = k then None else bt_get m k')"
  by (induction m) (auto simp: bt_get_def bt_remove_def)

lemma bt_sorted_remove [simp]: "bt_sorted m \<Longrightarrow> bt_sorted (bt_remove k m)"
  by (induction m) (auto simp: bt_sorted_def bt_remove_def)

lemma bt_contains_iff: "bt_contains m k \<longleftrightarrow> bt_get m k \<noteq> None"
  by (induction m) (auto simp: bt_contains_def bt_get_def)

lemma bt_get_retain [simp]: "bt_get (bt_retain P m) k = (if P k then bt_get m k else None)"
  by (induction m) (auto simp: bt_get_def bt_retain_def)

lemma bt_sorted_retain [simp]: "bt_sorted m \<Longrightarrow> bt_sorted (bt_retain P m)"
  by (induction m) (auto simp: bt_sorted_def bt_retain_def)

lemma bt_get_map_values [simp]: "bt_get (bt_map_values f m) k = map_option f (bt_get m k)"
  by (induction m) (auto simp: bt_get_def bt_map_values_def)

lemma bt_sorted_map_values [simp]: "bt_sorted m \<Longrightarrow> bt_sorted (bt_map_values f m)"
  by (induction m) (auto simp: bt_sorted_def bt_map_values_def)

lemma bt_get_mem: "bt_get m k = Some v \<Longrightarrow> v \<in> set (map snd m)"
  by (induction m) (auto simp: bt_get_def split: if_splits)

lemma bt_mem_get: "bt_sorted m \<Longrightarrow> v \<in> set (map snd m) \<Longrightarrow> \<exists>k. bt_get m k = Some v"
proof (induction m)
  case (Cons a m)
  show ?case
  proof (cases "v = snd a")
    case True
    then show ?thesis by (intro exI [of _ "fst a"]) (simp add: bt_get_def)
  next
    case False
    with Cons obtain k where k: "map_of m k = Some v" by (auto simp: bt_sorted_def bt_get_def)
    then have "k \<noteq> fst a"
      using Cons.prems(1) by (fastforce simp: bt_sorted_def dest!: map_of_SomeD)
    with k show ?thesis by (intro exI [of _ k]) (simp add: bt_get_def)
  qed
qed simp

end
