(* ===== verification/Digests.thy ===== *)
theory Digests
  imports Prelude
begin

text \<open>
  The two third-party digests of \<open>fastdup-format\<close> and the checksum helper of
  \<open>crates/fastdup-format/src/lib.rs\<close>.

  The crates \<open>crc32c\<close> and \<open>blake3\<close> are parameters of the model, collected in a record. What the
  code relies on is the contract \<open>digest_laws\<close>: appending to a CRC continues it, and a BLAKE3
  digest has 32 bytes. The CRC law is the documented behaviour of \<open>crc32c_append\<close>. No property of
  the development assumes that digests do not collide.

  \<open>reference_digests\<close> is an instance of the contract used by the witnesses: the CRC-32C of the
  Castagnoli polynomial, computed bit by bit, and a 32-byte digest derived from it.
\<close>

record digest_lib =
  crc32c_append :: "u32 \<Rightarrow> bytes \<Rightarrow> u32"
  blake3 :: "bytes \<Rightarrow> bytes"

definition crc32c :: "digest_lib \<Rightarrow> bytes \<Rightarrow> u32" where
  "crc32c L bs = crc32c_append L 0 bs"

definition crc32c_with_zeroed_u32 :: "digest_lib \<Rightarrow> bytes \<Rightarrow> nat \<Rightarrow> u32" where
  "crc32c_with_zeroed_u32 L bs field_offset =
     (let field_end = field_offset + 4;
          before = crc32c L (take field_offset bs);
          with_zero = crc32c_append L before (zeros 4)
      in crc32c_append L with_zero (drop field_end bs))"

section \<open>A reference instance\<close>

definition crc32c_bit :: "u32 \<Rightarrow> u32" where
  "crc32c_bit c = (if odd c then xor (drop_bit 1 c) 0x82F63B78 else drop_bit 1 c)"

definition crc32c_byte :: "u32 \<Rightarrow> u8 \<Rightarrow> u32" where
  "crc32c_byte c b = (crc32c_bit ^^ 8) (xor c (ucast b))"

definition reference_crc32c_append :: "u32 \<Rightarrow> bytes \<Rightarrow> u32" where
  "reference_crc32c_append c bs = not (foldl crc32c_byte (not c) bs)"

definition reference_digests :: digest_lib where
  "reference_digests =
     \<lparr>crc32c_append = reference_crc32c_append,
      blake3 = (\<lambda>bs. replicate 28 1 @ to_le_bytes 4 (reference_crc32c_append 0 bs))\<rparr>"

section \<open>The contract\<close>

locale digest_laws =
  fixes L :: digest_lib
  assumes crc32c_append_append:
      "crc32c_append L (crc32c_append L c xs) ys = crc32c_append L c (xs @ ys)"
    and length_blake3: "length (blake3 L bs) = 32"
begin

text \<open>The segmented checksum is the checksum of the copy with the field zeroed.\<close>

lemma crc32c_with_zeroed_field:
  assumes "off + 4 \<le> length bs"
  shows "crc32c_with_zeroed_u32 L bs off = crc32c L (copy_at bs off (zeros 4))"
  using assms
  by (simp add: crc32c_with_zeroed_u32_def crc32c_def crc32c_append_append copy_at_def)

text \<open>Sealing a body whose field is still zero gives a record whose checksum verifies.\<close>

lemma sealed_checksum:
  assumes "off + 4 \<le> length bs" and "slice off 4 bs = zeros 4"
  shows "crc32c_with_zeroed_u32 L (put_u32 bs off c) off = crc32c L bs"
proof -
  have "copy_at (put_u32 bs off c) off (zeros 4) = bs"
  proof -
    have "zeros 4 @ drop (off + 4) bs = drop off bs"
      using append_take_drop_id [of 4 "drop off bs"] assms(2)
      by (simp add: slice_def add.commute)
    then show ?thesis using assms(1) by (simp add: copy_at_def put_u32_def)
  qed
  with assms(1) show ?thesis by (simp add: crc32c_with_zeroed_field)
qed

text \<open>A verified record is the sealed form of its body with the field zeroed.\<close>

lemma sealed_canonical:
  assumes "off + 4 \<le> length bs" and body: "copy_at bs off (zeros 4) = body"
    and crc: "crc32c_with_zeroed_u32 L bs off = get_u32 bs off"
  shows "bs = put_u32 body off (crc32c L body)"
proof -
  have "get_u32 bs off = crc32c L body"
    using crc32c_with_zeroed_field [OF assms(1)] crc body by simp
  then have "to_le_bytes 4 (crc32c L body) = slice off 4 bs"
    using slice_get_u32 [OF assms(1)] by simp
  then have "put_u32 body off (crc32c L body) = take off bs @ slice off 4 bs @ drop (off + 4) bs"
    using assms(1) body [symmetric] by (simp add: put_u32_def copy_at_def)
  also have "\<dots> = bs"
    using append_take_drop_id [of 4 "drop off bs"] by (simp add: slice_def add.commute)
  finally show ?thesis by simp
qed

end

interpretation reference: digest_laws reference_digests
  by unfold_locales
    (simp_all add: reference_digests_def reference_crc32c_append_def)

end
