(* ===== verification/Metadata_Object.thy ===== *)
theory Metadata_Object
  imports Digests
begin

text \<open>
  The content-addressed Metadata Object envelope, \<open>crates/fastdup-format/src/metadata.rs\<close>: a
  4096-byte header, the payload, and zero padding to the next 4096-byte boundary. The object's
  identity is the BLAKE3 digest of a domain tag, the kind, the payload length and the payload.
\<close>

abbreviation METADATA_HEADER_BYTES :: nat where "METADATA_HEADER_BYTES \<equiv> 4096"
abbreviation MAX_METADATA_OBJECT_BYTES :: nat where "MAX_METADATA_OBJECT_BYTES \<equiv> 16777216"
abbreviation OBJECT_ALIGNMENT :: nat where "OBJECT_ALIGNMENT \<equiv> 4096"
abbreviation PAYLOAD_CRC_OFFSET :: nat where "PAYLOAD_CRC_OFFSET \<equiv> 80"
abbreviation HEADER_CRC_OFFSET :: nat where "HEADER_CRC_OFFSET \<equiv> 84"

abbreviation MANIFEST_LEAF_KIND :: u16 where "MANIFEST_LEAF_KIND \<equiv> 1"
abbreviation NAMESPACE_ROOT_KIND :: u16 where "NAMESPACE_ROOT_KIND \<equiv> 2"
abbreviation EXACT_INDEX_RUN_SET_KIND :: u16 where "EXACT_INDEX_RUN_SET_KIND \<equiv> 3"
abbreviation MANIFEST_INNER_KIND :: u16 where "MANIFEST_INNER_KIND \<equiv> 4"
abbreviation NAMESPACE_SHARD_KIND :: u16 where "NAMESPACE_SHARD_KIND \<equiv> 5"

definition METADATA_MAGIC :: bytes where
  "METADATA_MAGIC = ascii ''FDMDOBJ1''"

definition OBJECT_ID_DOMAIN :: bytes where
  "OBJECT_ID_DOMAIN = ascii ''fastdup-metadata-object-v1'' @ [0]"

datatype metadata_object_kind =
  ManifestLeaf | NamespaceRoot | ExactIndexRunSet | ManifestInnerNode | NamespaceShard | Unknown u16

datatype metadata_format_error =
    InvalidObjectLength nat
  | InvalidMagic
  | HeaderChecksumMismatch
  | PayloadChecksumMismatch
  | ObjectIdMismatch
  | ZeroObjectId
  | UnsupportedOrReservedField
  | NonZeroPadding
  | InvalidPayload
  | InvalidExtent
  | InvalidPartition
  | ArithmeticOverflow

record metadata_object =
  mo_id :: bytes
  mo_kind :: u16
  mo_payload :: bytes

definition MetadataObjectId_new :: "bytes \<Rightarrow> bytes option" where
  "MetadataObjectId_new bs = (if bs = zeros 32 then None else Some bs)"

definition align_up :: "nat \<Rightarrow> nat \<Rightarrow> metadata_format_error + nat" where
  "align_up value alignment =
     (if alignment < 1 then Inl ArithmeticOverflow
      else let mask = alignment - 1 in
        ok_or (map_option (\<lambda>candidate. unat (and (of_nat candidate) (not (of_nat mask)) :: u64))
                 (usize_checked_add value mask))
          ArithmeticOverflow)"

definition calculate_object_id ::
  "digest_lib \<Rightarrow> u16 \<Rightarrow> u64 \<Rightarrow> bytes \<Rightarrow> metadata_format_error + bytes" where
  "calculate_object_id L kind payload_length payload =
     ok_or (MetadataObjectId_new
        (blake3 L (OBJECT_ID_DOMAIN @ to_le_bytes 2 kind @ to_le_bytes 8 payload_length @ payload)))
       ZeroObjectId"

text \<open>The header fields stored before the header checksum.\<close>

definition put_metadata_header :: "bytes \<Rightarrow> u16 \<Rightarrow> u64 \<Rightarrow> u64 \<Rightarrow> bytes \<Rightarrow> u32 \<Rightarrow> bytes" where
  "put_metadata_header bytes kind payload_length file_length object_id payload_crc =
     (let bytes = copy_at bytes 0 METADATA_MAGIC;
          bytes = put_u16 bytes 8 1;
          bytes = put_u16 bytes 10 4096;
          bytes = put_u16 bytes 12 kind;
          bytes = put_u16 bytes 14 1;
          bytes = put_u64 bytes 32 payload_length;
          bytes = put_u64 bytes 40 file_length;
          bytes = copy_at bytes 48 object_id
      in put_u32 bytes PAYLOAD_CRC_OFFSET payload_crc)"

definition encode_metadata_object ::
  "digest_lib \<Rightarrow> u16 \<Rightarrow> bytes \<Rightarrow> metadata_format_error + bytes" where
  "encode_metadata_object L kind payload =
     and_then (ok_or (u64_try_from (length payload)) ArithmeticOverflow) (\<lambda>payload_length.
     and_then (ok_or (usize_checked_add METADATA_HEADER_BYTES (length payload)) ArithmeticOverflow)
       (\<lambda>unaligned_length.
     and_then (align_up unaligned_length OBJECT_ALIGNMENT) (\<lambda>file_length.
     if file_length > MAX_METADATA_OBJECT_BYTES then Inl (InvalidObjectLength file_length)
     else and_then (calculate_object_id L kind payload_length payload) (\<lambda>object_id.
       and_then (ok_or (u64_try_from file_length) ArithmeticOverflow) (\<lambda>file_length64.
         let bytes = zeros file_length;
             bytes = put_metadata_header bytes kind payload_length file_length64 object_id
                       (crc32c L payload);
             header_checksum =
               crc32c_with_zeroed_u32 L (take METADATA_HEADER_BYTES bytes) HEADER_CRC_OFFSET;
             bytes = put_u32 bytes HEADER_CRC_OFFSET header_checksum
         in Inr (copy_at bytes METADATA_HEADER_BYTES payload))))))"

definition decode_metadata_object ::
  "digest_lib \<Rightarrow> u16 option \<Rightarrow> bytes \<Rightarrow> metadata_format_error + metadata_object" where
  "decode_metadata_object L expected_kind bs =
     (if length bs < METADATA_HEADER_BYTES \<or> length bs > MAX_METADATA_OBJECT_BYTES
         \<or> length bs mod OBJECT_ALIGNMENT \<noteq> 0 then Inl (InvalidObjectLength (length bs))
      else let header = take METADATA_HEADER_BYTES bs in
        if slice 0 8 header \<noteq> METADATA_MAGIC then Inl InvalidMagic
        else if crc32c_with_zeroed_u32 L header HEADER_CRC_OFFSET
                  \<noteq> get_u32 header HEADER_CRC_OFFSET then Inl HeaderChecksumMismatch
        else let object_kind = get_u16 header 12 in
          if get_u16 header 8 \<noteq> 1
             \<or> unat (get_u16 header 10) \<noteq> METADATA_HEADER_BYTES
             \<or> get_u16 header 14 \<noteq> 1
             \<or> get_u64 header 16 \<noteq> 0
             \<or> get_u64 header 24 \<noteq> 0
             \<or> (case expected_kind of None \<Rightarrow> False | Some expected \<Rightarrow> expected \<noteq> object_kind)
             \<or> any_nonzero (drop 88 header) then Inl UnsupportedOrReservedField
          else let payload_length = unat (get_u64 header 32) in
            and_then (ok_or (usize_checked_add METADATA_HEADER_BYTES payload_length)
                        ArithmeticOverflow) (\<lambda>payload_end.
            if payload_end > length bs \<or> unat (get_u64 header 40) \<noteq> length bs
              then Inl (InvalidObjectLength (length bs))
            else and_then (align_up payload_end OBJECT_ALIGNMENT) (\<lambda>aligned.
              if aligned \<noteq> length bs then Inl (InvalidObjectLength (length bs))
              else if any_nonzero (drop payload_end bs) then Inl NonZeroPadding
              else let payload = slice METADATA_HEADER_BYTES (payload_end - METADATA_HEADER_BYTES) bs in
                if crc32c L payload \<noteq> get_u32 header PAYLOAD_CRC_OFFSET
                  then Inl PayloadChecksumMismatch
                else and_then (ok_or (MetadataObjectId_new (slice 48 32 header)) ZeroObjectId)
                  (\<lambda>stored_id.
                and_then (ok_or (u64_try_from (length payload)) ArithmeticOverflow) (\<lambda>plen.
                and_then (calculate_object_id L object_kind plen payload) (\<lambda>computed_id.
                if stored_id \<noteq> computed_id then Inl ObjectIdMismatch
                else Inr \<lparr>mo_id = stored_id, mo_kind = object_kind, mo_payload = payload\<rparr>))))))"

definition MetadataObjectId_from_encoded :: "digest_lib \<Rightarrow> bytes \<Rightarrow> metadata_format_error + bytes" where
  "MetadataObjectId_from_encoded L bs =
     and_then (decode_metadata_object L None bs) (\<lambda>object. Inr (mo_id object))"

definition metadata_object_kind_of ::
  "digest_lib \<Rightarrow> bytes \<Rightarrow> metadata_format_error + metadata_object_kind" where
  "metadata_object_kind_of L bs =
     and_then (decode_metadata_object L None bs) (\<lambda>object.
       Inr (if mo_kind object = MANIFEST_LEAF_KIND then ManifestLeaf
            else if mo_kind object = NAMESPACE_ROOT_KIND then NamespaceRoot
            else if mo_kind object = EXACT_INDEX_RUN_SET_KIND then ExactIndexRunSet
            else if mo_kind object = MANIFEST_INNER_KIND then ManifestInnerNode
            else if mo_kind object = NAMESPACE_SHARD_KIND then NamespaceShard
            else Unknown (mo_kind object)))"

text \<open>The shape of an encoded object: a sealed header, the payload, zero padding.\<close>

definition metadata_file_length :: "nat \<Rightarrow> nat" where
  "metadata_file_length n = (n + 8191) div 4096 * 4096"

definition metadata_header_body :: "digest_lib \<Rightarrow> metadata_object \<Rightarrow> bytes" where
  "metadata_header_body L obj =
     put_metadata_header (zeros 4096) (mo_kind obj) (of_nat (length (mo_payload obj)))
       (of_nat (metadata_file_length (length (mo_payload obj)))) (mo_id obj)
       (crc32c L (mo_payload obj))"

definition metadata_object_bytes :: "digest_lib \<Rightarrow> metadata_object \<Rightarrow> bytes" where
  "metadata_object_bytes L obj =
     put_u32 (metadata_header_body L obj) 84 (crc32c L (metadata_header_body L obj))
     @ mo_payload obj
     @ zeros (metadata_file_length (length (mo_payload obj)) - 4096 - length (mo_payload obj))"

definition valid_metadata_object :: "digest_lib \<Rightarrow> metadata_object \<Rightarrow> bool" where
  "valid_metadata_object L obj \<longleftrightarrow>
     metadata_file_length (length (mo_payload obj)) \<le> MAX_METADATA_OBJECT_BYTES \<and>
     calculate_object_id L (mo_kind obj) (of_nat (length (mo_payload obj))) (mo_payload obj)
       = Inr (mo_id obj)"

definition sample_metadata_object :: metadata_object where
  "sample_metadata_object =
     \<lparr>mo_id = blake3 reference_digests
                (OBJECT_ID_DOMAIN @ to_le_bytes 2 MANIFEST_LEAF_KIND @ to_le_bytes 8 (3 :: u64) @ [7, 8, 9]),
      mo_kind = MANIFEST_LEAF_KIND, mo_payload = [7, 8, 9]\<rparr>"

section \<open>Lemmas: alignment\<close>

lemma unat_and_not_mask:
  "unat (and w (not (mask n)) :: 'a::len word) = unat w div 2 ^ n * 2 ^ n"
proof -
  have "unat w div 2 ^ n * 2 ^ n \<le> unat w" by simp
  then have bound: "unat w div 2 ^ n * 2 ^ n < 2 ^ LENGTH('a)"
    using unsigned_less [of w] by (meson le_less_trans)
  have "and w (not (mask n)) = push_bit n (drop_bit n w)"
    by (rule bit_word_eqI) (auto simp: bit_simps)
  then have "unat (and w (not (mask n))) = take_bit LENGTH('a) (push_bit n (drop_bit n (unat w)))"
    by (simp only: unsigned_push_bit_eq unsigned_drop_bit_eq)
      (simp only: drop_bit_take_bit take_bit_nat_eq_self [OF unsigned_less])
  also have "\<dots> = unat w div 2 ^ n * 2 ^ n"
    using bound by (simp only: push_bit_eq_mult drop_bit_eq_div take_bit_nat_eq_self)
  finally show ?thesis .
qed

lemma align_up_4096:
  "v + 4095 < 2 ^ 64 \<Longrightarrow> align_up v 4096 = Inr ((v + 4095) div 4096 * 4096)"
proof -
  assume bound: "v + 4095 < 2 ^ 64"
  have "(of_nat 4095 :: u64) = mask 12" by (simp add: mask_eq_exp_minus_1)
  then have "unat (and (of_nat (v + 4095)) (not (of_nat 4095)) :: u64)
      = unat (of_nat (v + 4095) :: u64) div 2 ^ 12 * 2 ^ 12"
    by (simp only: unat_and_not_mask)
  also have "unat (of_nat (v + 4095) :: u64) = v + 4095"
    using bound by (simp add: unsigned_of_nat take_bit_nat_eq_self del: of_nat_add)
  finally show ?thesis
    using bound by (simp add: align_up_def Let_def usize_checked_add_def)
qed

lemma align_up_4096_None: "2 ^ 64 \<le> v + 4095 \<Longrightarrow> align_up v 4096 = Inl ArithmeticOverflow"
  by (simp add: align_up_def Let_def usize_checked_add_def)

section \<open>Lemmas: the header\<close>

lemma length_METADATA_MAGIC [simp]: "length METADATA_MAGIC = 8"
  by (simp add: METADATA_MAGIC_def)

lemma length_put_metadata_header [simp]:
  "length (put_metadata_header bs k p f i c) = length bs"
  by (simp add: put_metadata_header_def Let_def)

lemma length_metadata_header_body [simp]: "length (metadata_header_body L obj) = 4096"
  by (simp add: metadata_header_body_def)

lemma length_calculated_object_id:
  "digest_laws L \<Longrightarrow> calculate_object_id L k n p = Inr i \<Longrightarrow> length i = 32 \<and> i \<noteq> zeros 32"
  by (auto simp: calculate_object_id_def MetadataObjectId_new_def digest_laws.length_blake3
      split: if_splits)

lemma metadata_file_length_bounds:
  "4096 + n \<le> metadata_file_length n" "metadata_file_length n < 8192 + n"
  "metadata_file_length n mod 4096 = 0"
  using div_mult_mod_eq [of "n + 8191" 4096] mod_less_divisor [of 4096 "n + 8191"]
  unfolding metadata_file_length_def by (simp, linarith, simp)

lemma align_up_payload:
  "n < 2 ^ 63 \<Longrightarrow> align_up (4096 + n) 4096 = Inr (metadata_file_length n)"
  by (simp add: align_up_4096 metadata_file_length_def add.commute)

lemma metadata_header_fields:
  assumes "length i = 32"
  shows "slice 0 8 (put_metadata_header (zeros 4096) k p f i c) = METADATA_MAGIC"
    and "slice 8 2 (put_metadata_header (zeros 4096) k p f i c) = to_le_bytes 2 (1 :: u16)"
    and "slice 10 2 (put_metadata_header (zeros 4096) k p f i c) = to_le_bytes 2 (4096 :: u16)"
    and "slice 12 2 (put_metadata_header (zeros 4096) k p f i c) = to_le_bytes 2 k"
    and "slice 14 2 (put_metadata_header (zeros 4096) k p f i c) = to_le_bytes 2 (1 :: u16)"
    and "slice 16 8 (put_metadata_header (zeros 4096) k p f i c) = zeros 8"
    and "slice 24 8 (put_metadata_header (zeros 4096) k p f i c) = zeros 8"
    and "slice 32 8 (put_metadata_header (zeros 4096) k p f i c) = to_le_bytes 8 p"
    and "slice 40 8 (put_metadata_header (zeros 4096) k p f i c) = to_le_bytes 8 f"
    and "slice 48 32 (put_metadata_header (zeros 4096) k p f i c) = i"
    and "slice 80 4 (put_metadata_header (zeros 4096) k p f i c) = to_le_bytes 4 c"
    and "slice 84 4 (put_metadata_header (zeros 4096) k p f i c) = zeros 4"
    and "slice 88 4008 (put_metadata_header (zeros 4096) k p f i c) = zeros 4008"
  using assms by (simp_all add: put_metadata_header_def Let_def layout_simps)

lemma put_metadata_header_append:
  assumes "length i = 32" and "length a = 4096"
  shows "put_metadata_header (a @ b) k p f i c = put_metadata_header a k p f i c @ b"
  using assms by (simp add: put_metadata_header_def Let_def copy_at_append put_append)

lemma zeros_split: "m \<le> n \<Longrightarrow> zeros n = zeros m @ zeros (n - m)"
  by (simp add: zeros_def flip: replicate_add)

lemma encode_metadata_object_eq:
  assumes "digest_laws L" and "valid_metadata_object L obj"
  shows "encode_metadata_object L (mo_kind obj) (mo_payload obj)
           = Inr (metadata_object_bytes L obj)"
proof -
  define p where "p = mo_payload obj"
  define f where "f = metadata_file_length (length p)"
  have calc: "calculate_object_id L (mo_kind obj) (of_nat (length p)) p = Inr (mo_id obj)"
    and f: "f \<le> 16777216"
    using assms(2) by (simp_all add: valid_metadata_object_def p_def f_def)
  have id: "length (mo_id obj) = 32"
    using length_calculated_object_id [OF assms(1) calc] by simp
  have bounds: "4096 + length p \<le> f"
    unfolding f_def by (rule metadata_file_length_bounds)
  have small: "length p < 2 ^ 63" using bounds f by simp
  define h where "h = metadata_header_body L obj"
  have "length h = 4096" by (simp add: h_def)
  have h_zero: "slice 84 4 h = zeros 4"
    by (simp add: h_def metadata_header_body_def metadata_header_fields id)
  have pre: "put_metadata_header (zeros f) (mo_kind obj) (of_nat (length p)) (of_nat f) (mo_id obj)
               (crc32c L p) = h @ zeros (f - 4096)"
    using bounds zeros_split [of 4096 f]
    by (simp add: put_metadata_header_append id h_def metadata_header_body_def p_def f_def)
  have crc: "crc32c_with_zeroed_u32 L h 84 = crc32c L h"
    using digest_laws.crc32c_with_zeroed_field [OF assms(1), of 84 h]
      copy_at_slice [of 84 "zeros 4" h] h_zero \<open>length h = 4096\<close> by simp
  have pay: "copy_at (put_u32 h 84 c @ zeros (f - 4096)) 4096 p
      = put_u32 h 84 c @ p @ zeros (f - 4096 - length p)" for c
    using bounds \<open>length h = 4096\<close> by (simp add: copy_at_def zeros_def)
  have "align_up (4096 + length p) 4096 = Inr f"
    unfolding f_def using small by (rule align_up_payload)
  then show ?thesis
    using f small calc \<open>length h = 4096\<close>
    by (simp add: encode_metadata_object_def flip: p_def)
      (simp add: pre crc put_append pay metadata_object_bytes_def Let_def u64_try_from_def
        flip: p_def h_def f_def)
qed

section \<open>Lemmas: decoding\<close>

lemma metadata_sealed_field:
  "off + n \<le> 84 \<or> 88 \<le> off \<Longrightarrow>
     slice off n (put_u32 (metadata_header_body L obj) 84 c) = slice off n (metadata_header_body L obj)"
  by (simp add: layout_simps)

lemma metadata_sealed_header:
  "take 4096 (metadata_object_bytes L obj)
     = put_u32 (metadata_header_body L obj) 84 (crc32c L (metadata_header_body L obj))"
  by (simp add: metadata_object_bytes_def)

lemma decode_encode_metadata_object:
  assumes "digest_laws L" and "valid_metadata_object L obj"
    and "expected_kind = None \<or> expected_kind = Some (mo_kind obj)"
  shows "decode_metadata_object L expected_kind (metadata_object_bytes L obj) = Inr obj"
proof -
  define p where "p = mo_payload obj"
  define f where "f = metadata_file_length (length p)"
  define h where "h = metadata_header_body L obj"
  have calc: "calculate_object_id L (mo_kind obj) (of_nat (length p)) p = Inr (mo_id obj)"
    and f: "f \<le> 16777216"
    using assms(2) by (simp_all add: valid_metadata_object_def p_def f_def)
  have id: "length (mo_id obj) = 32" "mo_id obj \<noteq> zeros 32"
    using length_calculated_object_id [OF assms(1) calc] by simp_all
  have bounds: "4096 + length p \<le> f" "f mod 4096 = 0"
    unfolding f_def by (rule metadata_file_length_bounds)+
  have small: "length p < 2 ^ 63" "f < 2 ^ 64" "4096 + length p < 2 ^ 64"
    using bounds f by simp_all
  have up: "align_up (4096 + length p) 4096 = Inr f"
    unfolding f_def using small(1) by (rule align_up_payload)
  have unat: "unat (of_nat (length p) :: u64) = length p" "unat (of_nat f :: u64) = f"
    using small by (simp_all add: unsigned_of_nat take_bit_nat_eq_self)
  have len: "length (metadata_object_bytes L obj) = f"
    using bounds by (simp add: metadata_object_bytes_def flip: p_def f_def)
  note fields = metadata_header_fields [OF id(1)]
  have h_fields: "h = put_metadata_header (zeros 4096) (mo_kind obj) (of_nat (length p)) (of_nat f)
      (mo_id obj) (crc32c L p)"
    by (simp add: h_def metadata_header_body_def p_def f_def)
  have [simp]: "length h = 4096" by (simp add: h_def)
  define s where "s = put_u32 h 84 (crc32c L h)"
  have seal: "take 4096 (metadata_object_bytes L obj) = s"
    by (simp add: metadata_sealed_header h_def s_def)
  have sf: "off + n \<le> 84 \<or> 88 \<le> off \<Longrightarrow> slice off n s = slice off n h" for off n
    by (simp add: s_def h_def metadata_sealed_field)
  have crc: "crc32c_with_zeroed_u32 L s 84 = crc32c L h" "get_u32 s 84 = crc32c L h"
    unfolding s_def
    by (simp_all add: digest_laws.sealed_checksum [OF assms(1)] h_fields fields layout_simps
        get_u32_def)
  have gets: "get_u16 s 8 = 1" "get_u16 s 10 = 4096" "get_u16 s 12 = mo_kind obj"
    "get_u16 s 14 = 1" "get_u64 s 16 = 0" "get_u64 s 24 = 0"
    "get_u64 s 32 = of_nat (length p)" "get_u64 s 40 = of_nat f" "get_u32 s 80 = crc32c L p"
    "slice 48 32 s = mo_id obj" "slice 0 8 s = METADATA_MAGIC" "drop 88 s = zeros 4008"
    by (simp_all add: get_u16_def get_u32_def get_u64_def sf h_fields fields layout_simps
        drop_eq_slice) (simp add: s_def sf fields flip: h_fields, simp add: layout_simps h_fields fields)
  have tail: "drop (4096 + length p) (metadata_object_bytes L obj) = zeros (f - 4096 - length p)"
    "slice 4096 (length p) (metadata_object_bytes L obj) = p"
    by (simp_all add: metadata_object_bytes_def slice_def flip: p_def f_def)
  have "decode_metadata_object L expected_kind (metadata_object_bytes L obj) =
     Inr \<lparr>mo_id = mo_id obj, mo_kind = mo_kind obj, mo_payload = p\<rparr>"
    using assms(3) f bounds small id(2)
    unfolding decode_metadata_object_def len seal Let_def
    by (auto simp: gets crc unat tail calc MetadataObjectId_new_def u64_try_from_def up
        usize_checked_add_def)
  then show ?thesis by (simp add: p_def)
qed

lemma decode_metadata_object_canonical:
  assumes laws: "digest_laws L" and dec: "decode_metadata_object L expected_kind bs = Inr obj"
  shows "valid_metadata_object L obj" and "bs = metadata_object_bytes L obj"
    and "expected_kind = None \<or> expected_kind = Some (mo_kind obj)"
proof -
  define p where "p = mo_payload obj"
  define f where "f = metadata_file_length (length p)"
  define h where "h = take 4096 bs"
  define n where "n = unat (get_u64 h 32)"
  from dec have len: "4096 \<le> length bs" "length bs \<le> 16777216" and magic: "slice 0 8 h = METADATA_MAGIC"
    and crc: "crc32c_with_zeroed_u32 L h 84 = get_u32 h 84"
    and cs: "get_u16 h 8 = 1" "get_u16 h 10 = 4096" "get_u16 h 14 = 1" "get_u64 h 16 = 0"
      "get_u64 h 24 = 0" "drop 88 h = zeros (length (drop 88 h))"
    and kind: "expected_kind = None \<or> expected_kind = Some (get_u16 h 12)"
    and n: "4096 + n \<le> length bs" "unat (get_u64 h 40) = length bs"
      "align_up (4096 + n) 4096 = Inr (length bs)"
    and pad: "drop (4096 + n) bs = zeros (length bs - (4096 + n))"
    and pcrc: "crc32c L (slice 4096 n bs) = get_u32 h 80"
    and calc: "calculate_object_id L (get_u16 h 12) (of_nat n) (slice 4096 n bs) = Inr (slice 48 32 h)"
    and obj: "mo_id obj = slice 48 32 h" "mo_kind obj = get_u16 h 12" "mo_payload obj = slice 4096 n bs"
    unfolding decode_metadata_object_def Let_def h_def [symmetric] n_def [symmetric]
    by (auto simp: any_nonzero_iff MetadataObjectId_new_def min_absorb1
        dest!: unat_eq_numeralD split: if_splits option.splits)
  have p: "p = slice 4096 n bs" "length p = n" using n(1) obj by (simp_all add: p_def)
  have f: "f = length bs"
    using n(3) align_up_payload [of n] n(1) len p(2) by (simp add: f_def)
  have pl: "get_u64 h 32 = of_nat n" "get_u64 h 40 = of_nat (length bs)"
    using n(2) by (simp_all add: n_def flip: n(2))
  have valid: "valid_metadata_object L obj"
    using calc f len(2) p obj by (simp add: valid_metadata_object_def p_def f_def)
  then show "valid_metadata_object L obj" .
  show "expected_kind = None \<or> expected_kind = Some (mo_kind obj)" using kind obj by simp
  have hl: "length h = 4096" using len by (simp add: h_def)
  have id: "length (mo_id obj) = 32" using obj hl by simp
  have hb: "metadata_header_body L obj = put_metadata_header (zeros 4096) (get_u16 h 12) (of_nat n)
      (of_nat (length bs)) (slice 48 32 h) (get_u32 h 80)"
    using f pcrc p(2)
    by (simp add: metadata_header_body_def obj(1,2) p(1) [symmetric] f_def del: length_slice
        flip: p_def)
  have body: "agree_on [8,2,2,2,2,8,8,8,8,32,4,4,4008] 0
                (copy_at h 84 (zeros 4)) (metadata_header_body L obj)"
    using hl cs unfolding agree_on.simps hb
    by (simp add: metadata_header_fields slice_copy_at magic drop_eq_slice pl
        slice_get_u16 [of 8 h] slice_get_u16 [of 10 h] slice_get_u16 [of 12 h]
        slice_get_u16 [of 14 h] slice_get_u64 [of 16 h] slice_get_u64 [of 24 h]
        slice_get_u64 [of 32 h] slice_get_u64 [of 40 h] slice_get_u32 [of 80 h])
  have "copy_at h 84 (zeros 4) = metadata_header_body L obj"
    by (rule agree_on_eq [OF _ _ body]) (simp_all add: hl)
  then have h: "h = put_u32 (metadata_header_body L obj) 84 (crc32c L (metadata_header_body L obj))"
    by (rule digest_laws.sealed_canonical [OF laws _ _ crc, rotated]) (simp add: hl)
  have "bs = h @ drop 4096 bs" by (simp add: h_def)
  also have "drop 4096 bs = p @ drop (4096 + n) bs"
    using append_take_drop_id [of n "drop 4096 bs"] by (simp add: p slice_def add.commute)
  also have "drop (4096 + n) bs = zeros (f - 4096 - length p)"
    using pad f p(2) by simp
  finally show "bs = metadata_object_bytes L obj"
    by (simp add: metadata_object_bytes_def h flip: p_def f_def)
qed

lemma encode_metadata_object_length_bound:
  assumes "encode_metadata_object L k p = Inr bs"
  shows "metadata_file_length (length p) \<le> 16777216"
proof (cases "4096 + length p + 4095 < 2 ^ 64")
  case True
  then show ?thesis
    using assms align_up_4096 [of "4096 + length p"]
    by (auto simp: encode_metadata_object_def metadata_file_length_def add.commute split: if_splits)
next
  case False
  then show ?thesis
    using assms align_up_4096_None [of "4096 + length p"]
    by (auto simp: encode_metadata_object_def)
qed

lemma valid_sample_metadata_object: "valid_metadata_object reference_digests sample_metadata_object"
proof -
  have "blake3 reference_digests bs \<noteq> zeros 32" for bs
    by (simp add: reference_digests_def zeros_def numeral_eq_Suc)
  then show ?thesis
    by (simp add: valid_metadata_object_def sample_metadata_object_def calculate_object_id_def
        MetadataObjectId_new_def metadata_file_length_def)
qed

lemma encode_metadata_object_reference:
  assumes "metadata_file_length (length payload) \<le> MAX_METADATA_OBJECT_BYTES"
  shows "\<exists>bs. encode_metadata_object reference_digests kind payload = Inr bs"
proof -
  have "blake3 reference_digests bs \<noteq> zeros 32" for bs
    by (simp add: reference_digests_def zeros_def numeral_eq_Suc)
  then obtain i where "calculate_object_id reference_digests kind (of_nat (length payload)) payload = Inr i"
    by (simp add: calculate_object_id_def MetadataObjectId_new_def)
  with assms have "valid_metadata_object reference_digests \<lparr>mo_id = i, mo_kind = kind, mo_payload = payload\<rparr>"
    by (simp add: valid_metadata_object_def)
  from encode_metadata_object_eq [OF reference.digest_laws_axioms this] show ?thesis by auto
qed

lemma decode_metadata_object_iff:
  assumes "digest_laws L"
  shows "decode_metadata_object L expected_kind bs = Inr obj \<longleftrightarrow>
           encode_metadata_object L (mo_kind obj) (mo_payload obj) = Inr bs \<and>
           calculate_object_id L (mo_kind obj) (of_nat (length (mo_payload obj))) (mo_payload obj)
             = Inr (mo_id obj) \<and>
           (expected_kind = None \<or> expected_kind = Some (mo_kind obj))" (is "?D \<longleftrightarrow> ?E")
proof
  assume ?D
  note canon = decode_metadata_object_canonical [OF assms \<open>?D\<close>]
  show ?E
    using canon(3) canon(1) encode_metadata_object_eq [OF assms canon(1)]
    by (simp add: valid_metadata_object_def flip: canon(2))
next
  assume ?E
  then have valid: "valid_metadata_object L obj"
    using encode_metadata_object_length_bound by (auto simp: valid_metadata_object_def)
  then have "bs = metadata_object_bytes L obj"
    using encode_metadata_object_eq [OF assms valid] \<open>?E\<close> by simp
  with \<open>?E\<close> valid decode_encode_metadata_object [OF assms] show ?D by simp
qed

text \<open>A reader that looks only at the kind and the payload.\<close>

lemma decode_metadata_payload:
  assumes "digest_laws L"
  shows "(\<exists>obj. decode_metadata_object L (Some kind) bs = Inr obj \<and> P (mo_payload obj)) \<longleftrightarrow>
    (\<exists>payload. encode_metadata_object L kind payload = Inr bs \<and> P payload)"
proof
  assume "\<exists>obj. decode_metadata_object L (Some kind) bs = Inr obj \<and> P (mo_payload obj)"
  then show "\<exists>payload. encode_metadata_object L kind payload = Inr bs \<and> P payload"
    by (auto simp: decode_metadata_object_iff [OF assms])
next
  assume "\<exists>payload. encode_metadata_object L kind payload = Inr bs \<and> P payload"
  then obtain payload where p: "encode_metadata_object L kind payload = Inr bs" "P payload" by blast
  then obtain i where "calculate_object_id L kind (of_nat (length payload)) payload = Inr i"
    by (auto simp: encode_metadata_object_def split: if_splits)
  with p have "decode_metadata_object L (Some kind) bs = Inr \<lparr>mo_id = i, mo_kind = kind, mo_payload = payload\<rparr>"
    by (simp add: decode_metadata_object_iff [OF assms])
  with p show "\<exists>obj. decode_metadata_object L (Some kind) bs = Inr obj \<and> P (mo_payload obj)" by auto
qed

section \<open>Properties\<close>

text \<open>
  C17: A byte string decodes to a Metadata Object exactly when encoding the object's kind and
  payload gives that byte string, the object's identity is the digest of kind and payload, and
  the kind is the expected one, if one is expected. In particular no two byte strings decode to
  the same kind and payload, and padding or reserved bytes carry no information.
\<close>

theorem metadata_object_decode_iff:
  assumes "digest_laws L"
  shows "decode_metadata_object L expected_kind bs = Inr obj \<longleftrightarrow>
           encode_metadata_object L (mo_kind obj) (mo_payload obj) = Inr bs \<and>
           calculate_object_id L (mo_kind obj) (of_nat (length (mo_payload obj))) (mo_payload obj)
             = Inr (mo_id obj) \<and>
           (expected_kind = None \<or> expected_kind = Some (mo_kind obj))"
  by (rule decode_metadata_object_iff [OF assms])

theorem metadata_object_decode_iff_witness:
  "digest_laws reference_digests \<and>
   decode_metadata_object reference_digests (Some MANIFEST_LEAF_KIND)
     (metadata_object_bytes reference_digests sample_metadata_object) = Inr sample_metadata_object"
proof -
  have kind: "mo_kind sample_metadata_object = MANIFEST_LEAF_KIND"
    by (simp add: sample_metadata_object_def)
  show ?thesis
    using metadata_object_decode_iff [OF reference.digest_laws_axioms, of "Some MANIFEST_LEAF_KIND"
        "metadata_object_bytes reference_digests sample_metadata_object" sample_metadata_object]
      encode_metadata_object_eq [OF reference.digest_laws_axioms valid_sample_metadata_object]
      valid_sample_metadata_object reference.digest_laws_axioms
    by (simp add: valid_metadata_object_def kind)
qed

end
