(* ===== verification/Commit_Record.thy ===== *)
theory Commit_Record
  imports Metadata_Object
begin

text \<open>
  The durable Commit Record, \<open>crates/fastdup-format/src/commit.rs\<close>.

  One record selects a Namespace generation. It is a fixed 4096-byte layout with a CRC-32C over
  the record with the checksum field zeroed. \<open>valid_commit_record\<close> is the invariant of the Rust
  type: its fields are private and every constructor goes through \<open>CommitRecord_new_decoded\<close>,
  and the three identity types are 32-byte arrays, the last two nonzero.
\<close>

abbreviation COMMIT_RECORD_BYTES :: nat where "COMMIT_RECORD_BYTES \<equiv> 4096"
abbreviation EPOCH_FORMAT_VERSION :: u16 where "EPOCH_FORMAT_VERSION \<equiv> 2"
abbreviation CURRENT_REPOSITORY_FORMAT_EPOCH :: u16 where "CURRENT_REPOSITORY_FORMAT_EPOCH \<equiv> 3"
abbreviation RECORD_TYPE_NAMESPACE :: u16 where "RECORD_TYPE_NAMESPACE \<equiv> 1"
abbreviation COMMIT_HEADER_BYTES :: u16 where "COMMIT_HEADER_BYTES \<equiv> 176"
abbreviation BLAKE3_256_ALGORITHM :: u16 where "BLAKE3_256_ALGORITHM \<equiv> 1"
abbreviation CRC32C_ALGORITHM :: u16 where "CRC32C_ALGORITHM \<equiv> 1"
abbreviation COMMIT_CHECKSUM_OFFSET :: nat where "COMMIT_CHECKSUM_OFFSET \<equiv> 168"

definition COMMIT_MAGIC :: bytes where
  "COMMIT_MAGIC = ascii ''FDCMIT01''"

datatype commit_format_error =
    InvalidLength nat
  | InvalidMagic
  | ChecksumMismatch
  | UnsupportedOrReservedField
  | InvalidChainStart
  | InvalidNamespaceRoot
  | InvalidPolicySet
  | InvalidInodeReservation
  | InvalidInodeAllocationCursor

record commit_record =
  cr_generation :: u64
  cr_previous_record_hash :: bytes
  cr_namespace_root :: bytes
  cr_policy_set :: bytes
  cr_namespace_mutation_cutoff :: u64
  cr_inode_reservation_end :: u64
  cr_inode_allocation_cursor :: u64
  cr_format_epoch :: u16

definition CommitRecordHash_ZERO :: bytes where
  "CommitRecordHash_ZERO = zeros 32"

definition CommitRecordHash_of :: "digest_lib \<Rightarrow> bytes \<Rightarrow> bytes" where
  "CommitRecordHash_of L encoded_record = blake3 L encoded_record"

definition PolicySetId_new :: "bytes \<Rightarrow> bytes option" where
  "PolicySetId_new bs = (if bs = zeros 32 then None else Some bs)"

definition CommitRecord_new_decoded ::
  "u64 \<Rightarrow> bytes \<Rightarrow> bytes \<Rightarrow> bytes \<Rightarrow> u64 \<Rightarrow> u64 \<Rightarrow> u64 \<Rightarrow> u16 \<Rightarrow> commit_format_error + commit_record"
where
  "CommitRecord_new_decoded gen prev root policy cutoff reservation_end cursor epoch =
     (if gen = 0 \<or> (gen = 1) \<noteq> (prev = CommitRecordHash_ZERO) then Inl InvalidChainStart
      else if reservation_end < 2 then Inl InvalidInodeReservation
      else if cursor < 2 \<or> cursor > reservation_end then Inl InvalidInodeAllocationCursor
      else Inr \<lparr>cr_generation = gen, cr_previous_record_hash = prev, cr_namespace_root = root,
                cr_policy_set = policy, cr_namespace_mutation_cutoff = cutoff,
                cr_inode_reservation_end = reservation_end,
                cr_inode_allocation_cursor = cursor, cr_format_epoch = epoch\<rparr>)"

definition CommitRecord_new ::
  "u64 \<Rightarrow> bytes \<Rightarrow> bytes \<Rightarrow> bytes \<Rightarrow> u64 \<Rightarrow> u64 \<Rightarrow> u64 \<Rightarrow> commit_format_error + commit_record"
where
  "CommitRecord_new gen prev root policy cutoff reservation_end cursor =
     CommitRecord_new_decoded gen prev root policy cutoff reservation_end cursor
       CURRENT_REPOSITORY_FORMAT_EPOCH"

text \<open>The array just before the checksum is stored.\<close>

definition commit_record_body :: "commit_record \<Rightarrow> bytes" where
  "commit_record_body r =
     (let bytes = zeros COMMIT_RECORD_BYTES;
          bytes = copy_at bytes 0 COMMIT_MAGIC;
          bytes = put_u16 bytes 8 EPOCH_FORMAT_VERSION;
          bytes = put_u16 bytes 10 RECORD_TYPE_NAMESPACE;
          bytes = put_u16 bytes 12 COMMIT_HEADER_BYTES;
          bytes = put_u16 bytes 14 BLAKE3_256_ALGORITHM;
          bytes = put_u32 bytes 16 4096;
          bytes = put_u16 bytes 20 CRC32C_ALGORITHM;
          bytes = put_u16 bytes 22 (cr_format_epoch r);
          bytes = put_u64 bytes 40 (cr_generation r);
          bytes = copy_at bytes 48 (cr_previous_record_hash r);
          bytes = copy_at bytes 80 (cr_namespace_root r);
          bytes = copy_at bytes 112 (cr_policy_set r);
          bytes = put_u64 bytes 144 (cr_namespace_mutation_cutoff r);
          bytes = put_u64 bytes 152 (cr_inode_reservation_end r)
      in put_u64 bytes 160 (cr_inode_allocation_cursor r))"

definition CommitRecord_encode :: "digest_lib \<Rightarrow> commit_record \<Rightarrow> bytes" where
  "CommitRecord_encode L r =
     (let bytes = commit_record_body r;
          checksum = crc32c L bytes
      in put_u32 bytes COMMIT_CHECKSUM_OFFSET checksum)"

definition CommitRecord_decode :: "digest_lib \<Rightarrow> bytes \<Rightarrow> commit_format_error + commit_record" where
  "CommitRecord_decode L bs =
     (if length bs \<noteq> COMMIT_RECORD_BYTES then Inl (InvalidLength (length bs))
      else if slice 0 8 bs \<noteq> COMMIT_MAGIC then Inl InvalidMagic
      else if crc32c_with_zeroed_u32 L bs COMMIT_CHECKSUM_OFFSET
                \<noteq> get_u32 bs COMMIT_CHECKSUM_OFFSET then Inl ChecksumMismatch
      else if get_u16 bs 8 \<noteq> EPOCH_FORMAT_VERSION
           \<or> get_u16 bs 22 \<noteq> CURRENT_REPOSITORY_FORMAT_EPOCH
           \<or> get_u16 bs 10 \<noteq> RECORD_TYPE_NAMESPACE
           \<or> get_u16 bs 12 \<noteq> COMMIT_HEADER_BYTES
           \<or> get_u16 bs 14 \<noteq> BLAKE3_256_ALGORITHM
           \<or> unat (get_u32 bs 16) \<noteq> COMMIT_RECORD_BYTES
           \<or> get_u16 bs 20 \<noteq> CRC32C_ALGORITHM
           \<or> get_u64 bs 24 \<noteq> 0
           \<or> get_u64 bs 32 \<noteq> 0
           \<or> any_nonzero (drop 172 bs) then Inl UnsupportedOrReservedField
      else and_then (ok_or (MetadataObjectId_new (slice 80 32 bs)) InvalidNamespaceRoot) (\<lambda>root.
           and_then (ok_or (PolicySetId_new (slice 112 32 bs)) InvalidPolicySet) (\<lambda>policy.
           CommitRecord_new_decoded (get_u64 bs 40) (slice 48 32 bs) root policy
             (get_u64 bs 144) (get_u64 bs 152) (get_u64 bs 160) (get_u16 bs 22))))"

definition valid_commit_record :: "commit_record \<Rightarrow> bool" where
  "valid_commit_record r \<longleftrightarrow>
     length (cr_previous_record_hash r) = 32 \<and>
     length (cr_namespace_root r) = 32 \<and> cr_namespace_root r \<noteq> zeros 32 \<and>
     length (cr_policy_set r) = 32 \<and> cr_policy_set r \<noteq> zeros 32 \<and>
     cr_generation r \<noteq> 0 \<and>
     (cr_generation r = 1 \<longleftrightarrow> cr_previous_record_hash r = CommitRecordHash_ZERO) \<and>
     2 \<le> cr_inode_allocation_cursor r \<and>
     cr_inode_allocation_cursor r \<le> cr_inode_reservation_end r \<and>
     cr_format_epoch r = CURRENT_REPOSITORY_FORMAT_EPOCH"

text \<open>The first record of a chain, for the witnesses.\<close>

definition sample_commit :: commit_record where
  "sample_commit =
     \<lparr>cr_generation = 1, cr_previous_record_hash = zeros 32, cr_namespace_root = replicate 32 7,
      cr_policy_set = replicate 32 9, cr_namespace_mutation_cutoff = 5,
      cr_inode_reservation_end = 64, cr_inode_allocation_cursor = 2, cr_format_epoch = 3\<rparr>"

section \<open>Lemmas\<close>

lemma length_COMMIT_MAGIC [simp]: "length COMMIT_MAGIC = 8"
  by (simp add: COMMIT_MAGIC_def)

lemma length_commit_record_body [simp]: "length (commit_record_body r) = 4096"
  by (simp add: commit_record_body_def Let_def)

lemma length_CommitRecord_encode [simp]: "length (CommitRecord_encode L r) = 4096"
  by (simp add: CommitRecord_encode_def Let_def)

text \<open>The fields of the body, in the order of the layout.\<close>

lemma commit_body_fields:
  assumes "valid_commit_record r"
  shows "slice 0 8 (commit_record_body r) = COMMIT_MAGIC"
    and "slice 8 2 (commit_record_body r) = to_le_bytes 2 EPOCH_FORMAT_VERSION"
    and "slice 10 2 (commit_record_body r) = to_le_bytes 2 RECORD_TYPE_NAMESPACE"
    and "slice 12 2 (commit_record_body r) = to_le_bytes 2 COMMIT_HEADER_BYTES"
    and "slice 14 2 (commit_record_body r) = to_le_bytes 2 BLAKE3_256_ALGORITHM"
    and "slice 16 4 (commit_record_body r) = to_le_bytes 4 (4096 :: u32)"
    and "slice 20 2 (commit_record_body r) = to_le_bytes 2 CRC32C_ALGORITHM"
    and "slice 22 2 (commit_record_body r) = to_le_bytes 2 (cr_format_epoch r)"
    and "slice 24 8 (commit_record_body r) = zeros 8"
    and "slice 32 8 (commit_record_body r) = zeros 8"
    and "slice 40 8 (commit_record_body r) = to_le_bytes 8 (cr_generation r)"
    and "slice 48 32 (commit_record_body r) = cr_previous_record_hash r"
    and "slice 80 32 (commit_record_body r) = cr_namespace_root r"
    and "slice 112 32 (commit_record_body r) = cr_policy_set r"
    and "slice 144 8 (commit_record_body r) = to_le_bytes 8 (cr_namespace_mutation_cutoff r)"
    and "slice 152 8 (commit_record_body r) = to_le_bytes 8 (cr_inode_reservation_end r)"
    and "slice 160 8 (commit_record_body r) = to_le_bytes 8 (cr_inode_allocation_cursor r)"
    and "slice 168 4 (commit_record_body r) = zeros 4"
    and "slice 172 3924 (commit_record_body r) = zeros 3924"
  using assms
  by (simp_all add: commit_record_body_def Let_def valid_commit_record_def layout_simps)

lemma commit_encode_field:
  "off + n \<le> 168 \<or> 172 \<le> off \<Longrightarrow>
     slice off n (CommitRecord_encode L r) = slice off n (commit_record_body r)"
  by (simp add: CommitRecord_encode_def Let_def layout_simps)

lemma commit_encode_checksum_field:
  "slice 168 4 (CommitRecord_encode L r) = to_le_bytes 4 (crc32c L (commit_record_body r))"
  by (simp add: CommitRecord_encode_def Let_def layout_simps)

lemma commit_encode_checksum:
  assumes "digest_laws L" and "valid_commit_record r"
  shows "crc32c_with_zeroed_u32 L (CommitRecord_encode L r) 168 = crc32c L (commit_record_body r)"
  using digest_laws.sealed_checksum [OF assms(1), of 168 "commit_record_body r"]
  by (simp add: CommitRecord_encode_def Let_def commit_body_fields [OF assms(2)])

lemma commit_decode_encode:
  assumes "digest_laws L" and "valid_commit_record r"
  shows "CommitRecord_decode L (CommitRecord_encode L r) = Inr r"
proof -
  note fields = commit_body_fields [OF assms(2)]
  have tail: "drop 172 (CommitRecord_encode L r) = zeros 3924"
    by (simp add: drop_eq_slice commit_encode_field fields)
  have "CommitRecord_new_decoded (cr_generation r) (cr_previous_record_hash r)
          (cr_namespace_root r) (cr_policy_set r) (cr_namespace_mutation_cutoff r)
          (cr_inode_reservation_end r) (cr_inode_allocation_cursor r) 3 = Inr r"
    using assms(2) by (auto simp: CommitRecord_new_decoded_def valid_commit_record_def)
  then show ?thesis
    using assms(2)
    by (simp add: CommitRecord_decode_def commit_encode_checksum [OF assms] tail fields
        commit_encode_field commit_encode_checksum_field get_u16_def get_u32_def get_u64_def
        layout_simps MetadataObjectId_new_def PolicySetId_new_def valid_commit_record_def)
qed

lemma commit_decode_valid:
  assumes "CommitRecord_decode L bs = Inr r"
  shows "valid_commit_record r"
  using assms
  by (auto simp: CommitRecord_decode_def CommitRecord_new_decoded_def valid_commit_record_def
      MetadataObjectId_new_def PolicySetId_new_def CommitRecordHash_ZERO_def not_less split: if_splits)

lemma commit_decode_canonical:
  assumes "digest_laws L" and dec: "CommitRecord_decode L bs = Inr r"
  shows "bs = CommitRecord_encode L r"
proof -
  note fields = commit_body_fields [OF commit_decode_valid [OF dec]]
  from dec have len: "length bs = 4096" and magic: "slice 0 8 bs = COMMIT_MAGIC"
    and crc: "crc32c_with_zeroed_u32 L bs 168 = get_u32 bs 168"
    and cs: "get_u16 bs 8 = 2" "get_u16 bs 22 = 3" "get_u16 bs 10 = 1" "get_u16 bs 12 = 176"
      "get_u16 bs 14 = 1" "get_u32 bs 16 = 4096" "get_u16 bs 20 = 1" "get_u64 bs 24 = 0"
      "get_u64 bs 32 = 0"
    and tail: "drop 172 bs = zeros 3924"
    and r: "cr_generation r = get_u64 bs 40" "cr_previous_record_hash r = slice 48 32 bs"
      "cr_namespace_root r = slice 80 32 bs" "cr_policy_set r = slice 112 32 bs"
      "cr_namespace_mutation_cutoff r = get_u64 bs 144"
      "cr_inode_reservation_end r = get_u64 bs 152"
      "cr_inode_allocation_cursor r = get_u64 bs 160" "cr_format_epoch r = get_u16 bs 22"
    by (auto simp: CommitRecord_decode_def CommitRecord_new_decoded_def any_nonzero_iff
        MetadataObjectId_new_def PolicySetId_new_def dest!: unat_eq_numeralD split: if_splits)
  have body: "agree_on [8,2,2,2,2,4,2,2,8,8,8,32,32,32,8,8,8,4,3924] 0
                (copy_at bs 168 (zeros 4)) (commit_record_body r)"
    using len cs tail unfolding agree_on.simps
    by (simp add: fields slice_copy_at magic drop_eq_slice r slice_get_u16 [of 8 bs]
        slice_get_u16 [of 10 bs] slice_get_u16 [of 12 bs] slice_get_u16 [of 14 bs]
        slice_get_u32 [of 16 bs] slice_get_u16 [of 20 bs] slice_get_u16 [of 22 bs]
        slice_get_u64 [of 24 bs] slice_get_u64 [of 32 bs] slice_get_u64 [of 40 bs]
        slice_get_u64 [of 144 bs] slice_get_u64 [of 152 bs] slice_get_u64 [of 160 bs])
  have "copy_at bs 168 (zeros 4) = commit_record_body r"
    by (rule agree_on_eq [OF _ _ body]) (simp_all add: len)
  then show ?thesis
    unfolding CommitRecord_encode_def Let_def
    by (rule digest_laws.sealed_canonical [OF assms(1) _ _ crc, rotated]) (simp add: len)
qed

lemma commit_new_valid:
  assumes "CommitRecord_new gen prev root policy cutoff res cur = Inr r"
    and "length prev = 32" and "length root = 32" and "root \<noteq> zeros 32"
    and "length policy = 32" and "policy \<noteq> zeros 32"
  shows "valid_commit_record r"
  using assms
  by (auto simp: CommitRecord_new_def CommitRecord_new_decoded_def valid_commit_record_def
      not_less split: if_splits)

lemma commit_encode_inject:
  assumes "digest_laws L" and "valid_commit_record r" and "valid_commit_record r'"
    and "CommitRecord_encode L r = CommitRecord_encode L r'"
  shows "r = r'"
  by (metis assms commit_decode_encode sum.inject(2))

section \<open>Properties\<close>

lemma valid_sample_commit: "valid_commit_record sample_commit"
  by code_simp

text \<open>
  C18: A byte string decodes to a Commit Record exactly when the record is valid and the byte
  string is that record's encoding. So decoding inverts encoding, and no other byte string (a
  flipped reserved byte, a stale epoch, a second encoding of the same record) is accepted.
\<close>

theorem commit_record_decode_iff:
  assumes "digest_laws L"
  shows "CommitRecord_decode L bs = Inr r \<longleftrightarrow>
           valid_commit_record r \<and> bs = CommitRecord_encode L r"
  using commit_decode_encode [OF assms] commit_decode_valid commit_decode_canonical [OF assms]
  by blast

theorem commit_record_decode_iff_witness:
  "digest_laws reference_digests \<and>
   CommitRecord_decode reference_digests (CommitRecord_encode reference_digests sample_commit)
     = Inr sample_commit"
  using commit_record_decode_iff [OF reference.digest_laws_axioms] valid_sample_commit
    reference.digest_laws_axioms
  by blast

end
