(* ===== verification/High_Water.thy ===== *)
theory High_Water
  imports Digests
begin

text \<open>
  The Container Generation High-Water record,
  \<open>crates/fastdup-format/src/container_generation_high_water.rs\<close>: a 4096-byte record that
  reserves every container generation up to \<open>hw_reserved_through\<close>.
\<close>

abbreviation HW_RECORD_BYTES :: nat where "HW_RECORD_BYTES \<equiv> 4096"

definition HW_MAGIC :: bytes where
  "HW_MAGIC = ascii ''FDCGHW01''"

datatype high_water_format_error =
    InvalidLength nat
  | InvalidMagic
  | ChecksumMismatch
  | UnsupportedOrReservedField
  | InvalidChainStart
  | InvalidHighWater

record high_water_record =
  hw_sequence :: u64
  hw_previous_record_hash :: bytes
  hw_reserved_through :: u64

definition HighWaterHash_ZERO :: bytes where
  "HighWaterHash_ZERO = zeros 32"

definition HighWaterHash_of :: "digest_lib \<Rightarrow> bytes \<Rightarrow> bytes" where
  "HighWaterHash_of L bs = blake3 L bs"

definition HighWaterRecord_new ::
  "u64 \<Rightarrow> bytes \<Rightarrow> u64 \<Rightarrow> high_water_format_error + high_water_record" where
  "HighWaterRecord_new seq prev reserved =
     (if seq = 0 \<or> (seq = 1) \<noteq> (prev = HighWaterHash_ZERO) then Inl InvalidChainStart
      else if reserved = 0 then Inl InvalidHighWater
      else Inr \<lparr>hw_sequence = seq, hw_previous_record_hash = prev, hw_reserved_through = reserved\<rparr>)"

text \<open>The array just before the checksum is stored.\<close>

definition high_water_body :: "high_water_record \<Rightarrow> bytes" where
  "high_water_body r =
     (let bytes = zeros HW_RECORD_BYTES;
          bytes = copy_at bytes 0 HW_MAGIC;
          bytes = put_u16 bytes 8 1;
          bytes = put_u16 bytes 10 128;
          bytes = put_u16 bytes 12 1;
          bytes = put_u16 bytes 14 1;
          bytes = put_u32 bytes 16 4096;
          bytes = put_u16 bytes 20 1;
          bytes = put_u64 bytes 24 (hw_sequence r);
          bytes = copy_at bytes 32 (hw_previous_record_hash r)
      in put_u64 bytes 64 (hw_reserved_through r))"

definition HighWaterRecord_encode :: "digest_lib \<Rightarrow> high_water_record \<Rightarrow> bytes" where
  "HighWaterRecord_encode L r =
     (let bytes = high_water_body r;
          checksum = crc32c L bytes
      in put_u32 bytes 72 checksum)"

definition HighWaterRecord_decode ::
  "digest_lib \<Rightarrow> bytes \<Rightarrow> high_water_format_error + high_water_record" where
  "HighWaterRecord_decode L bs =
     (if length bs \<noteq> HW_RECORD_BYTES then Inl (InvalidLength (length bs))
      else if slice 0 8 bs \<noteq> HW_MAGIC then Inl InvalidMagic
      else if crc32c_with_zeroed_u32 L bs 72 \<noteq> get_u32 bs 72 then Inl ChecksumMismatch
      else if get_u16 bs 8 \<noteq> 1
           \<or> get_u16 bs 10 \<noteq> 128
           \<or> get_u16 bs 12 \<noteq> 1
           \<or> get_u16 bs 14 \<noteq> 1
           \<or> unat (get_u32 bs 16) \<noteq> HW_RECORD_BYTES
           \<or> get_u16 bs 20 \<noteq> 1
           \<or> get_u16 bs 22 \<noteq> 0
           \<or> any_nonzero (drop 76 bs) then Inl UnsupportedOrReservedField
      else HighWaterRecord_new (get_u64 bs 24) (slice 32 32 bs) (get_u64 bs 64))"

definition valid_high_water :: "high_water_record \<Rightarrow> bool" where
  "valid_high_water r \<longleftrightarrow>
     length (hw_previous_record_hash r) = 32 \<and>
     hw_sequence r \<noteq> 0 \<and>
     (hw_sequence r = 1 \<longleftrightarrow> hw_previous_record_hash r = HighWaterHash_ZERO) \<and>
     hw_reserved_through r \<noteq> 0"

definition sample_high_water :: high_water_record where
  "sample_high_water =
     \<lparr>hw_sequence = 1, hw_previous_record_hash = zeros 32, hw_reserved_through = 1024\<rparr>"

section \<open>Lemmas\<close>

lemma length_HW_MAGIC [simp]: "length HW_MAGIC = 8"
  by (simp add: HW_MAGIC_def)

lemma length_high_water_body [simp]: "length (high_water_body r) = 4096"
  by (simp add: high_water_body_def Let_def)

lemma length_HighWaterRecord_encode [simp]: "length (HighWaterRecord_encode L r) = 4096"
  by (simp add: HighWaterRecord_encode_def Let_def)

lemma high_water_body_fields:
  assumes "valid_high_water r"
  shows "slice 0 8 (high_water_body r) = HW_MAGIC"
    and "slice 8 2 (high_water_body r) = to_le_bytes 2 (1 :: u16)"
    and "slice 10 2 (high_water_body r) = to_le_bytes 2 (128 :: u16)"
    and "slice 12 2 (high_water_body r) = to_le_bytes 2 (1 :: u16)"
    and "slice 14 2 (high_water_body r) = to_le_bytes 2 (1 :: u16)"
    and "slice 16 4 (high_water_body r) = to_le_bytes 4 (4096 :: u32)"
    and "slice 20 2 (high_water_body r) = to_le_bytes 2 (1 :: u16)"
    and "slice 22 2 (high_water_body r) = zeros 2"
    and "slice 24 8 (high_water_body r) = to_le_bytes 8 (hw_sequence r)"
    and "slice 32 32 (high_water_body r) = hw_previous_record_hash r"
    and "slice 64 8 (high_water_body r) = to_le_bytes 8 (hw_reserved_through r)"
    and "slice 72 4 (high_water_body r) = zeros 4"
    and "slice 76 4020 (high_water_body r) = zeros 4020"
  using assms
  by (simp_all add: high_water_body_def Let_def valid_high_water_def layout_simps)

lemma high_water_encode_field:
  "off + n \<le> 72 \<or> 76 \<le> off \<Longrightarrow>
     slice off n (HighWaterRecord_encode L r) = slice off n (high_water_body r)"
  by (simp add: HighWaterRecord_encode_def Let_def layout_simps)

lemma high_water_encode_checksum_field:
  "slice 72 4 (HighWaterRecord_encode L r) = to_le_bytes 4 (crc32c L (high_water_body r))"
  by (simp add: HighWaterRecord_encode_def Let_def layout_simps)

lemma high_water_encode_checksum:
  assumes "digest_laws L" and "valid_high_water r"
  shows "crc32c_with_zeroed_u32 L (HighWaterRecord_encode L r) 72 = crc32c L (high_water_body r)"
  using digest_laws.sealed_checksum [OF assms(1), of 72 "high_water_body r"]
  by (simp add: HighWaterRecord_encode_def Let_def high_water_body_fields [OF assms(2)])

lemma high_water_decode_encode:
  assumes "digest_laws L" and "valid_high_water r"
  shows "HighWaterRecord_decode L (HighWaterRecord_encode L r) = Inr r"
proof -
  note fields = high_water_body_fields [OF assms(2)]
  have tail: "drop 76 (HighWaterRecord_encode L r) = zeros 4020"
    by (simp add: drop_eq_slice high_water_encode_field fields)
  have "HighWaterRecord_new (hw_sequence r) (hw_previous_record_hash r) (hw_reserved_through r)
          = Inr r"
    using assms(2) by (auto simp: HighWaterRecord_new_def valid_high_water_def)
  then show ?thesis
    by (simp add: HighWaterRecord_decode_def high_water_encode_checksum [OF assms] tail fields
        high_water_encode_field high_water_encode_checksum_field get_u16_def get_u32_def
        get_u64_def layout_simps)
qed

lemma high_water_decode_valid:
  assumes "HighWaterRecord_decode L bs = Inr r"
  shows "valid_high_water r"
  using assms
  by (auto simp: HighWaterRecord_decode_def HighWaterRecord_new_def valid_high_water_def
      HighWaterHash_ZERO_def split: if_splits)

lemma high_water_decode_canonical:
  assumes "digest_laws L" and dec: "HighWaterRecord_decode L bs = Inr r"
  shows "bs = HighWaterRecord_encode L r"
proof -
  note fields = high_water_body_fields [OF high_water_decode_valid [OF dec]]
  from dec have len: "length bs = 4096" and magic: "slice 0 8 bs = HW_MAGIC"
    and crc: "crc32c_with_zeroed_u32 L bs 72 = get_u32 bs 72"
    and cs: "get_u16 bs 8 = 1" "get_u16 bs 10 = 128" "get_u16 bs 12 = 1" "get_u16 bs 14 = 1"
      "get_u32 bs 16 = 4096" "get_u16 bs 20 = 1" "get_u16 bs 22 = 0"
    and tail: "drop 76 bs = zeros 4020"
    and r: "hw_sequence r = get_u64 bs 24" "hw_previous_record_hash r = slice 32 32 bs"
      "hw_reserved_through r = get_u64 bs 64"
    by (auto simp: HighWaterRecord_decode_def HighWaterRecord_new_def any_nonzero_iff
        dest!: unat_eq_numeralD split: if_splits)
  have body: "agree_on [8,2,2,2,2,4,2,2,8,32,8,4,4020] 0
                (copy_at bs 72 (zeros 4)) (high_water_body r)"
    using len cs tail unfolding agree_on.simps
    by (simp add: fields slice_copy_at magic drop_eq_slice r slice_get_u16 [of 8 bs]
        slice_get_u16 [of 10 bs] slice_get_u16 [of 12 bs] slice_get_u16 [of 14 bs]
        slice_get_u32 [of 16 bs] slice_get_u16 [of 20 bs] slice_get_u16 [of 22 bs]
        slice_get_u64 [of 24 bs] slice_get_u64 [of 64 bs])
  have "copy_at bs 72 (zeros 4) = high_water_body r"
    by (rule agree_on_eq [OF _ _ body]) (simp_all add: len)
  then show ?thesis
    unfolding HighWaterRecord_encode_def Let_def
    by (rule digest_laws.sealed_canonical [OF assms(1) _ _ crc, rotated]) (simp add: len)
qed

lemma valid_sample_high_water: "valid_high_water sample_high_water"
  by code_simp

section \<open>Properties\<close>

text \<open>
  C30: A byte string decodes to a High-Water record exactly when the record is valid and the byte
  string is its encoding.
\<close>

theorem high_water_decode_iff:
  assumes "digest_laws L"
  shows "HighWaterRecord_decode L bs = Inr r \<longleftrightarrow>
           valid_high_water r \<and> bs = HighWaterRecord_encode L r"
  using high_water_decode_encode [OF assms] high_water_decode_valid
    high_water_decode_canonical [OF assms]
  by blast

theorem high_water_decode_iff_witness:
  "digest_laws reference_digests \<and>
   HighWaterRecord_decode reference_digests
     (HighWaterRecord_encode reference_digests sample_high_water) = Inr sample_high_water"
  using high_water_decode_iff [OF reference.digest_laws_axioms] valid_sample_high_water
    reference.digest_laws_axioms
  by blast

end
