(* ===== verification/Pool_Identity.thy ===== *)
theory Pool_Identity
  imports Digests
begin

text \<open>
  The durable identity of a storage pool, \<open>crates/fastdup-format/src/pool_identity.rs\<close>.
\<close>

abbreviation POOL_IDENTITY_RECORD_BYTES :: nat where "POOL_IDENTITY_RECORD_BYTES \<equiv> 4096"

definition POOL_MAGIC :: bytes where
  "POOL_MAGIC = ascii ''FDPOOL01''"

datatype pool_role = Metadata | Data

datatype pool_identity_format_error =
    InvalidLength nat
  | InvalidMagic
  | ChecksumMismatch
  | UnsupportedOrReservedField
  | UnsupportedRole u16
  | ZeroApplianceId
  | ZeroPoolId

record pool_identity =
  pi_appliance_id :: bytes
  pi_pool_id :: bytes
  pi_role :: pool_role

definition ApplianceId_new :: "bytes \<Rightarrow> bytes option" where
  "ApplianceId_new bs = (if bs = zeros 16 then None else Some bs)"

definition PoolId_new :: "bytes \<Rightarrow> bytes option" where
  "PoolId_new bs = (if bs = zeros 16 then None else Some bs)"

fun role_code :: "pool_role \<Rightarrow> u16" where
  "role_code Metadata = 1"
| "role_code Data = 2"

definition PoolRole_decode :: "u16 \<Rightarrow> pool_identity_format_error + pool_role" where
  "PoolRole_decode v =
     (if v = 1 then Inr Metadata else if v = 2 then Inr Data else Inl (UnsupportedRole v))"

definition PoolIdentityRecord_new :: "bytes \<Rightarrow> bytes \<Rightarrow> pool_role \<Rightarrow> pool_identity" where
  "PoolIdentityRecord_new appliance pool role =
     \<lparr>pi_appliance_id = appliance, pi_pool_id = pool, pi_role = role\<rparr>"

text \<open>The array just before the checksum is stored.\<close>

definition pool_identity_body :: "pool_identity \<Rightarrow> bytes" where
  "pool_identity_body r =
     (let bytes = zeros POOL_IDENTITY_RECORD_BYTES;
          bytes = copy_at bytes 0 POOL_MAGIC;
          bytes = put_u16 bytes 8 1;
          bytes = put_u16 bytes 10 64;
          bytes = put_u16 bytes 12 1;
          bytes = put_u16 bytes 14 (role_code (pi_role r));
          bytes = put_u32 bytes 16 4096;
          bytes = put_u16 bytes 20 1;
          bytes = copy_at bytes 24 (pi_appliance_id r)
      in copy_at bytes 40 (pi_pool_id r))"

definition PoolIdentityRecord_encode :: "digest_lib \<Rightarrow> pool_identity \<Rightarrow> bytes" where
  "PoolIdentityRecord_encode L r =
     (let bytes = pool_identity_body r;
          checksum = crc32c L bytes
      in put_u32 bytes 56 checksum)"

definition PoolIdentityRecord_decode ::
  "digest_lib \<Rightarrow> bytes \<Rightarrow> pool_identity_format_error + pool_identity" where
  "PoolIdentityRecord_decode L bs =
     (if length bs \<noteq> POOL_IDENTITY_RECORD_BYTES then Inl (InvalidLength (length bs))
      else if slice 0 8 bs \<noteq> POOL_MAGIC then Inl InvalidMagic
      else if crc32c_with_zeroed_u32 L bs 56 \<noteq> get_u32 bs 56 then Inl ChecksumMismatch
      else if get_u16 bs 8 \<noteq> 1
           \<or> get_u16 bs 10 \<noteq> 64
           \<or> get_u16 bs 12 \<noteq> 1
           \<or> unat (get_u32 bs 16) \<noteq> POOL_IDENTITY_RECORD_BYTES
           \<or> get_u16 bs 20 \<noteq> 1
           \<or> get_u16 bs 22 \<noteq> 0
           \<or> any_nonzero (drop 60 bs) then Inl UnsupportedOrReservedField
      else and_then (PoolRole_decode (get_u16 bs 14)) (\<lambda>role.
           and_then (ok_or (ApplianceId_new (slice 24 16 bs)) ZeroApplianceId) (\<lambda>appliance.
           and_then (ok_or (PoolId_new (slice 40 16 bs)) ZeroPoolId) (\<lambda>pool.
           Inr (PoolIdentityRecord_new appliance pool role)))))"

definition valid_pool_identity :: "pool_identity \<Rightarrow> bool" where
  "valid_pool_identity r \<longleftrightarrow>
     length (pi_appliance_id r) = 16 \<and> pi_appliance_id r \<noteq> zeros 16 \<and>
     length (pi_pool_id r) = 16 \<and> pi_pool_id r \<noteq> zeros 16"

definition sample_pool :: "pool_role \<Rightarrow> u8 \<Rightarrow> pool_identity" where
  "sample_pool role k =
     \<lparr>pi_appliance_id = replicate 16 5, pi_pool_id = replicate 16 k, pi_role = role\<rparr>"

section \<open>Lemmas\<close>

lemma length_POOL_MAGIC [simp]: "length POOL_MAGIC = 8"
  by (simp add: POOL_MAGIC_def)

lemma length_pool_identity_body [simp]: "length (pool_identity_body r) = 4096"
  by (simp add: pool_identity_body_def Let_def)

lemma length_PoolIdentityRecord_encode [simp]: "length (PoolIdentityRecord_encode L r) = 4096"
  by (simp add: PoolIdentityRecord_encode_def Let_def)

lemma PoolRole_decode_iff [simp]: "PoolRole_decode v = Inr role \<longleftrightarrow> v = role_code role"
  by (cases role) (auto simp: PoolRole_decode_def)

lemma pool_body_fields:
  assumes "valid_pool_identity r"
  shows "slice 0 8 (pool_identity_body r) = POOL_MAGIC"
    and "slice 8 2 (pool_identity_body r) = to_le_bytes 2 (1 :: u16)"
    and "slice 10 2 (pool_identity_body r) = to_le_bytes 2 (64 :: u16)"
    and "slice 12 2 (pool_identity_body r) = to_le_bytes 2 (1 :: u16)"
    and "slice 14 2 (pool_identity_body r) = to_le_bytes 2 (role_code (pi_role r))"
    and "slice 16 4 (pool_identity_body r) = to_le_bytes 4 (4096 :: u32)"
    and "slice 20 2 (pool_identity_body r) = to_le_bytes 2 (1 :: u16)"
    and "slice 22 2 (pool_identity_body r) = zeros 2"
    and "slice 24 16 (pool_identity_body r) = pi_appliance_id r"
    and "slice 40 16 (pool_identity_body r) = pi_pool_id r"
    and "slice 56 4 (pool_identity_body r) = zeros 4"
    and "slice 60 4036 (pool_identity_body r) = zeros 4036"
  using assms
  by (simp_all add: pool_identity_body_def Let_def valid_pool_identity_def layout_simps)

lemma pool_encode_field:
  "off + n \<le> 56 \<or> 60 \<le> off \<Longrightarrow>
     slice off n (PoolIdentityRecord_encode L r) = slice off n (pool_identity_body r)"
  by (simp add: PoolIdentityRecord_encode_def Let_def layout_simps)

lemma pool_encode_checksum_field:
  "slice 56 4 (PoolIdentityRecord_encode L r) = to_le_bytes 4 (crc32c L (pool_identity_body r))"
  by (simp add: PoolIdentityRecord_encode_def Let_def layout_simps)

lemma pool_encode_checksum:
  assumes "digest_laws L" and "valid_pool_identity r"
  shows "crc32c_with_zeroed_u32 L (PoolIdentityRecord_encode L r) 56
           = crc32c L (pool_identity_body r)"
  using digest_laws.sealed_checksum [OF assms(1), of 56 "pool_identity_body r"]
  by (simp add: PoolIdentityRecord_encode_def Let_def pool_body_fields [OF assms(2)])

lemma pool_decode_encode:
  assumes "digest_laws L" and "valid_pool_identity r"
  shows "PoolIdentityRecord_decode L (PoolIdentityRecord_encode L r) = Inr r"
proof -
  note fields = pool_body_fields [OF assms(2)]
  have tail: "drop 60 (PoolIdentityRecord_encode L r) = zeros 4036"
    by (simp add: drop_eq_slice pool_encode_field fields)
  have "PoolIdentityRecord_new (pi_appliance_id r) (pi_pool_id r) (pi_role r) = r"
    by (simp add: PoolIdentityRecord_new_def)
  moreover have "PoolRole_decode (role_code (pi_role r)) = Inr (pi_role r)" by simp
  ultimately show ?thesis
    using assms(2)
    by (auto simp: PoolIdentityRecord_decode_def pool_encode_checksum [OF assms] tail fields
        pool_encode_field pool_encode_checksum_field get_u16_def get_u32_def layout_simps
        ApplianceId_new_def PoolId_new_def valid_pool_identity_def)
qed

lemma pool_decode_valid:
  assumes "PoolIdentityRecord_decode L bs = Inr r"
  shows "valid_pool_identity r"
  using assms
  by (auto simp: PoolIdentityRecord_decode_def PoolIdentityRecord_new_def valid_pool_identity_def
      ApplianceId_new_def PoolId_new_def split: if_splits)

lemma pool_decode_canonical:
  assumes "digest_laws L" and dec: "PoolIdentityRecord_decode L bs = Inr r"
  shows "bs = PoolIdentityRecord_encode L r"
proof -
  note fields = pool_body_fields [OF pool_decode_valid [OF dec]]
  from dec have len: "length bs = 4096" and magic: "slice 0 8 bs = POOL_MAGIC"
    and crc: "crc32c_with_zeroed_u32 L bs 56 = get_u32 bs 56"
    and cs: "get_u16 bs 8 = 1" "get_u16 bs 10 = 64" "get_u16 bs 12 = 1"
      "get_u32 bs 16 = 4096" "get_u16 bs 20 = 1" "get_u16 bs 22 = 0"
    and tail: "drop 60 bs = zeros 4036"
    and r: "role_code (pi_role r) = get_u16 bs 14" "pi_appliance_id r = slice 24 16 bs"
      "pi_pool_id r = slice 40 16 bs"
    by (auto simp: PoolIdentityRecord_decode_def PoolIdentityRecord_new_def any_nonzero_iff
        ApplianceId_new_def PoolId_new_def dest!: unat_eq_numeralD split: if_splits)
  have body: "agree_on [8,2,2,2,2,4,2,2,16,16,4,4036] 0
                (copy_at bs 56 (zeros 4)) (pool_identity_body r)"
    using len cs tail unfolding agree_on.simps
    by (simp add: fields slice_copy_at magic drop_eq_slice r slice_get_u16 [of 8 bs]
        slice_get_u16 [of 10 bs] slice_get_u16 [of 12 bs] slice_get_u16 [of 14 bs]
        slice_get_u32 [of 16 bs] slice_get_u16 [of 20 bs] slice_get_u16 [of 22 bs])
  have "copy_at bs 56 (zeros 4) = pool_identity_body r"
    by (rule agree_on_eq [OF _ _ body]) (simp_all add: len)
  then show ?thesis
    unfolding PoolIdentityRecord_encode_def Let_def
    by (rule digest_laws.sealed_canonical [OF assms(1) _ _ crc, rotated]) (simp add: len)
qed

lemma valid_sample_pool: "valid_pool_identity (sample_pool Data 3)"
  by code_simp

section \<open>Properties\<close>

text \<open>
  C31: A byte string decodes to a Pool identity exactly when the identity is valid (nonzero
  Appliance and Pool IDs) and the byte string is its encoding.
\<close>

theorem pool_identity_decode_iff:
  assumes "digest_laws L"
  shows "PoolIdentityRecord_decode L bs = Inr r \<longleftrightarrow>
           valid_pool_identity r \<and> bs = PoolIdentityRecord_encode L r"
  using pool_decode_encode [OF assms] pool_decode_valid pool_decode_canonical [OF assms]
  by blast

theorem pool_identity_decode_iff_witness:
  "digest_laws reference_digests \<and>
   PoolIdentityRecord_decode reference_digests
     (PoolIdentityRecord_encode reference_digests (sample_pool Data 3))
     = Inr (sample_pool Data 3)"
  using pool_identity_decode_iff [OF reference.digest_laws_axioms] valid_sample_pool
    reference.digest_laws_axioms
  by blast

end
