(* ===== verification/Activation_Record.thy ===== *)
theory Activation_Record
  imports Metadata_Object
begin

text \<open>
  The Exact Index activation record, \<open>crates/fastdup-format/src/exact_index_activation.rs\<close>: a
  4096-byte record of a hash chain that selects one Exact Index Run Set.
\<close>

abbreviation ACTIVATION_RECORD_BYTES :: nat where "ACTIVATION_RECORD_BYTES \<equiv> 4096"

definition ACTIVATION_MAGIC :: bytes where
  "ACTIVATION_MAGIC = ascii ''FDXACT01''"

datatype activation_format_error =
    InvalidLength nat
  | InvalidMagic
  | ChecksumMismatch
  | UnsupportedOrReservedField
  | InvalidChainStart
  | InvalidRunSetId
  | InvalidProfile
  | InvalidRunSetGeneration

record activation_record =
  ar_generation :: u64
  ar_previous_record_hash :: bytes
  ar_run_set_id :: bytes
  ar_profile :: bytes
  ar_run_set_generation :: u64

definition ActivationHash_ZERO :: bytes where
  "ActivationHash_ZERO = zeros 32"

definition ActivationHash_of :: "digest_lib \<Rightarrow> bytes \<Rightarrow> bytes" where
  "ActivationHash_of L bs = blake3 L bs"

definition ExactIndexRunSetId_from_bytes :: "bytes \<Rightarrow> bytes option" where
  "ExactIndexRunSetId_from_bytes bs = MetadataObjectId_new bs"

definition ExactIndexProfileId_new :: "bytes \<Rightarrow> bytes option" where
  "ExactIndexProfileId_new bs = (if bs = zeros 32 then None else Some bs)"

definition ActivationRecord_new ::
  "u64 \<Rightarrow> bytes \<Rightarrow> bytes \<Rightarrow> bytes \<Rightarrow> u64 \<Rightarrow> activation_format_error + activation_record" where
  "ActivationRecord_new gen prev run_set profile run_set_gen =
     (if gen = 0 \<or> (gen = 1) \<noteq> (prev = ActivationHash_ZERO) then Inl InvalidChainStart
      else if run_set_gen = 0 then Inl InvalidRunSetGeneration
      else Inr \<lparr>ar_generation = gen, ar_previous_record_hash = prev, ar_run_set_id = run_set,
                ar_profile = profile, ar_run_set_generation = run_set_gen\<rparr>)"

text \<open>The array just before the checksum is stored.\<close>

definition activation_body :: "activation_record \<Rightarrow> bytes" where
  "activation_body r =
     (let bytes = zeros ACTIVATION_RECORD_BYTES;
          bytes = copy_at bytes 0 ACTIVATION_MAGIC;
          bytes = put_u16 bytes 8 1;
          bytes = put_u16 bytes 10 1;
          bytes = put_u16 bytes 12 160;
          bytes = put_u16 bytes 14 1;
          bytes = put_u32 bytes 16 4096;
          bytes = put_u16 bytes 20 1;
          bytes = put_u64 bytes 40 (ar_generation r);
          bytes = copy_at bytes 48 (ar_previous_record_hash r);
          bytes = copy_at bytes 80 (ar_run_set_id r);
          bytes = copy_at bytes 112 (ar_profile r)
      in put_u64 bytes 144 (ar_run_set_generation r))"

definition ActivationRecord_encode :: "digest_lib \<Rightarrow> activation_record \<Rightarrow> bytes" where
  "ActivationRecord_encode L r =
     (let bytes = activation_body r;
          checksum = crc32c L bytes
      in put_u32 bytes 152 checksum)"

definition ActivationRecord_decode ::
  "digest_lib \<Rightarrow> bytes \<Rightarrow> activation_format_error + activation_record" where
  "ActivationRecord_decode L bs =
     (if length bs \<noteq> ACTIVATION_RECORD_BYTES then Inl (InvalidLength (length bs))
      else if slice 0 8 bs \<noteq> ACTIVATION_MAGIC then Inl InvalidMagic
      else if crc32c_with_zeroed_u32 L bs 152 \<noteq> get_u32 bs 152 then Inl ChecksumMismatch
      else if get_u16 bs 8 \<noteq> 1
           \<or> get_u16 bs 10 \<noteq> 1
           \<or> get_u16 bs 12 \<noteq> 160
           \<or> get_u16 bs 14 \<noteq> 1
           \<or> get_u32 bs 16 \<noteq> 4096
           \<or> get_u16 bs 20 \<noteq> 1
           \<or> get_u16 bs 22 \<noteq> 0
           \<or> get_u64 bs 24 \<noteq> 0
           \<or> get_u64 bs 32 \<noteq> 0
           \<or> any_nonzero (drop 156 bs) then Inl UnsupportedOrReservedField
      else and_then (ok_or (ExactIndexRunSetId_from_bytes (slice 80 32 bs)) InvalidRunSetId)
        (\<lambda>run_set_id.
      and_then (ok_or (ExactIndexProfileId_new (slice 112 32 bs)) InvalidProfile) (\<lambda>profile.
        ActivationRecord_new (get_u64 bs 40) (slice 48 32 bs) run_set_id profile (get_u64 bs 144))))"

definition valid_activation :: "activation_record \<Rightarrow> bool" where
  "valid_activation r \<longleftrightarrow>
     length (ar_previous_record_hash r) = 32 \<and>
     length (ar_run_set_id r) = 32 \<and> ar_run_set_id r \<noteq> zeros 32 \<and>
     length (ar_profile r) = 32 \<and> ar_profile r \<noteq> zeros 32 \<and>
     ar_generation r \<noteq> 0 \<and>
     (ar_generation r = 1 \<longleftrightarrow> ar_previous_record_hash r = ActivationHash_ZERO) \<and>
     ar_run_set_generation r \<noteq> 0"

definition sample_activation :: activation_record where
  "sample_activation =
     \<lparr>ar_generation = 1, ar_previous_record_hash = zeros 32, ar_run_set_id = replicate 32 5,
      ar_profile = replicate 32 6, ar_run_set_generation = 9\<rparr>"

section \<open>Lemmas\<close>

lemma length_ACTIVATION_MAGIC [simp]: "length ACTIVATION_MAGIC = 8"
  by (simp add: ACTIVATION_MAGIC_def)

lemma length_activation_body [simp]: "length (activation_body r) = 4096"
  by (simp add: activation_body_def Let_def)

lemma length_ActivationRecord_encode [simp]: "length (ActivationRecord_encode L r) = 4096"
  by (simp add: ActivationRecord_encode_def Let_def)

lemma activation_body_fields:
  assumes "valid_activation r"
  shows "slice 0 8 (activation_body r) = ACTIVATION_MAGIC"
    and "slice 8 2 (activation_body r) = to_le_bytes 2 (1 :: u16)"
    and "slice 10 2 (activation_body r) = to_le_bytes 2 (1 :: u16)"
    and "slice 12 2 (activation_body r) = to_le_bytes 2 (160 :: u16)"
    and "slice 14 2 (activation_body r) = to_le_bytes 2 (1 :: u16)"
    and "slice 16 4 (activation_body r) = to_le_bytes 4 (4096 :: u32)"
    and "slice 20 2 (activation_body r) = to_le_bytes 2 (1 :: u16)"
    and "slice 22 2 (activation_body r) = zeros 2"
    and "slice 24 8 (activation_body r) = zeros 8"
    and "slice 32 8 (activation_body r) = zeros 8"
    and "slice 40 8 (activation_body r) = to_le_bytes 8 (ar_generation r)"
    and "slice 48 32 (activation_body r) = ar_previous_record_hash r"
    and "slice 80 32 (activation_body r) = ar_run_set_id r"
    and "slice 112 32 (activation_body r) = ar_profile r"
    and "slice 144 8 (activation_body r) = to_le_bytes 8 (ar_run_set_generation r)"
    and "slice 152 4 (activation_body r) = zeros 4"
    and "slice 156 3940 (activation_body r) = zeros 3940"
  using assms
  by (simp_all add: activation_body_def Let_def valid_activation_def layout_simps)

lemma activation_encode_field:
  "off + n \<le> 152 \<or> 156 \<le> off \<Longrightarrow>
     slice off n (ActivationRecord_encode L r) = slice off n (activation_body r)"
  by (simp add: ActivationRecord_encode_def Let_def layout_simps)

lemma activation_encode_checksum_field:
  "slice 152 4 (ActivationRecord_encode L r) = to_le_bytes 4 (crc32c L (activation_body r))"
  by (simp add: ActivationRecord_encode_def Let_def layout_simps)

lemma activation_encode_checksum:
  assumes "digest_laws L" and "valid_activation r"
  shows "crc32c_with_zeroed_u32 L (ActivationRecord_encode L r) 152 = crc32c L (activation_body r)"
  using digest_laws.sealed_checksum [OF assms(1), of 152 "activation_body r"]
  by (simp add: ActivationRecord_encode_def Let_def activation_body_fields [OF assms(2)])

lemma activation_decode_encode:
  assumes "digest_laws L" and "valid_activation r"
  shows "ActivationRecord_decode L (ActivationRecord_encode L r) = Inr r"
proof -
  note fields = activation_body_fields [OF assms(2)]
  have tail: "drop 156 (ActivationRecord_encode L r) = zeros 3940"
    by (simp add: drop_eq_slice activation_encode_field fields)
  have "ActivationRecord_new (ar_generation r) (ar_previous_record_hash r) (ar_run_set_id r)
          (ar_profile r) (ar_run_set_generation r) = Inr r"
    using assms(2) by (auto simp: ActivationRecord_new_def valid_activation_def)
  then show ?thesis
    using assms(2)
    by (simp add: ActivationRecord_decode_def activation_encode_checksum [OF assms] tail fields
        activation_encode_field activation_encode_checksum_field get_u16_def get_u32_def
        get_u64_def layout_simps ExactIndexRunSetId_from_bytes_def MetadataObjectId_new_def
        ExactIndexProfileId_new_def valid_activation_def)
qed

lemma activation_decode_valid:
  assumes "ActivationRecord_decode L bs = Inr r"
  shows "valid_activation r"
  using assms
  by (auto simp: ActivationRecord_decode_def ActivationRecord_new_def valid_activation_def
      ExactIndexRunSetId_from_bytes_def MetadataObjectId_new_def ExactIndexProfileId_new_def
      ActivationHash_ZERO_def split: if_splits)

lemma activation_decode_canonical:
  assumes "digest_laws L" and dec: "ActivationRecord_decode L bs = Inr r"
  shows "bs = ActivationRecord_encode L r"
proof -
  note fields = activation_body_fields [OF activation_decode_valid [OF dec]]
  from dec have len: "length bs = 4096" and magic: "slice 0 8 bs = ACTIVATION_MAGIC"
    and crc: "crc32c_with_zeroed_u32 L bs 152 = get_u32 bs 152"
    and cs: "get_u16 bs 8 = 1" "get_u16 bs 10 = 1" "get_u16 bs 12 = 160" "get_u16 bs 14 = 1"
      "get_u32 bs 16 = 4096" "get_u16 bs 20 = 1" "get_u16 bs 22 = 0" "get_u64 bs 24 = 0"
      "get_u64 bs 32 = 0"
    and tail: "drop 156 bs = zeros 3940"
    and r: "ar_generation r = get_u64 bs 40" "ar_previous_record_hash r = slice 48 32 bs"
      "ar_run_set_id r = slice 80 32 bs" "ar_profile r = slice 112 32 bs"
      "ar_run_set_generation r = get_u64 bs 144"
    by (auto simp: ActivationRecord_decode_def ActivationRecord_new_def any_nonzero_iff
        ExactIndexRunSetId_from_bytes_def MetadataObjectId_new_def ExactIndexProfileId_new_def
        split: if_splits)
  have body: "agree_on [8,2,2,2,2,4,2,2,8,8,8,32,32,32,8,4,3940] 0
                (copy_at bs 152 (zeros 4)) (activation_body r)"
    using len cs tail unfolding agree_on.simps
    by (simp add: fields slice_copy_at magic drop_eq_slice r slice_get_u16 [of 8 bs]
        slice_get_u16 [of 10 bs] slice_get_u16 [of 12 bs] slice_get_u16 [of 14 bs]
        slice_get_u32 [of 16 bs] slice_get_u16 [of 20 bs] slice_get_u16 [of 22 bs]
        slice_get_u64 [of 24 bs] slice_get_u64 [of 32 bs] slice_get_u64 [of 40 bs]
        slice_get_u64 [of 144 bs])
  have "copy_at bs 152 (zeros 4) = activation_body r"
    by (rule agree_on_eq [OF _ _ body]) (simp_all add: len)
  then show ?thesis
    unfolding ActivationRecord_encode_def Let_def
    by (rule digest_laws.sealed_canonical [OF assms(1) _ _ crc, rotated]) (simp add: len)
qed

lemma valid_sample_activation: "valid_activation sample_activation"
  by code_simp

section \<open>Properties\<close>

text \<open>
  C32: A byte string decodes to an activation record exactly when the record is valid and the byte
  string is its encoding.
\<close>

theorem activation_decode_iff:
  assumes "digest_laws L"
  shows "ActivationRecord_decode L bs = Inr r \<longleftrightarrow>
           valid_activation r \<and> bs = ActivationRecord_encode L r"
  using activation_decode_encode [OF assms] activation_decode_valid
    activation_decode_canonical [OF assms]
  by blast

theorem activation_decode_iff_witness:
  "digest_laws reference_digests \<and>
   ActivationRecord_decode reference_digests
     (ActivationRecord_encode reference_digests sample_activation) = Inr sample_activation"
  using activation_decode_iff [OF reference.digest_laws_axioms] valid_sample_activation
    reference.digest_laws_axioms
  by blast

end
