(* ===== verification/Storage_Io.thy ===== *)
theory Storage_Io
  imports Prelude
begin

text \<open>
  The storage seam: the trait \<open>StorageIo\<close> of \<open>crates/fastdup-store/src/lib.rs\<close> as a record of
  operations, so that code generic in \<open>I: StorageIo\<close> takes the record as an argument.

  An operation maps a storage state to a result and a new state; the state is kept when the result
  is an error, because a failed operation may still have reached storage. \<open>io_bind\<close> is the
  question-mark operator for such computations.

  The locale \<open>storage_laws\<close> is the contract of an adapter. A file has a live content (what reads
  return) and a synced content (what a restart finds). Until the next \<open>sync_file\<close> the synced
  content may or may not follow a write, so a caller must be safe in both cases. Every operation
  may fail, before or after its effect, unless the storage is healthy. \<open>triple\<close> is a Hoare triple
  with a postcondition for success and one for errors, and the rules of the locale give one triple
  per operation.
\<close>

abbreviation MAX_STORAGE_RANGE_BYTES :: nat where "MAX_STORAGE_RANGE_BYTES \<equiv> 1048576"

datatype io_error = NotFound | AlreadyExists | InvalidInput | UnexpectedEof | Interrupted | OtherIo

type_synonym ('s, 'e, 'a) io = "'s \<Rightarrow> ('e + 'a) \<times> 's"

record 's storage_io =
  create_new :: "string \<Rightarrow> ('s, io_error, unit) io"
  exists_name :: "string \<Rightarrow> ('s, io_error, bool) io"
  write_at :: "string \<Rightarrow> u64 \<Rightarrow> bytes \<Rightarrow> ('s, io_error, unit) io"
  read_object :: "string \<Rightarrow> ('s, io_error, bytes) io"
  object_len :: "string \<Rightarrow> ('s, io_error, u64) io"
  read_exact_at :: "string \<Rightarrow> u64 \<Rightarrow> nat \<Rightarrow> ('s, io_error, bytes) io"
  list_names :: "('s, io_error, string list) io"
  set_len :: "string \<Rightarrow> u64 \<Rightarrow> ('s, io_error, unit) io"
  sync_file :: "string \<Rightarrow> ('s, io_error, unit) io"
  publish_noreplace :: "string \<Rightarrow> string \<Rightarrow> ('s, io_error, unit) io"
  remove_file :: "string \<Rightarrow> ('s, io_error, unit) io"
  sync_root :: "('s, io_error, unit) io"

definition io_return :: "'a \<Rightarrow> ('s, 'e, 'a) io" where
  "io_return a s = (Inr a, s)"

definition io_fail :: "'e \<Rightarrow> ('s, 'e, 'a) io" where
  "io_fail e s = (Inl e, s)"

definition io_result :: "'e + 'a \<Rightarrow> ('s, 'e, 'a) io" where
  "io_result r s = (r, s)"

definition io_bind :: "('s, 'e, 'a) io \<Rightarrow> ('a \<Rightarrow> ('s, 'e, 'b) io) \<Rightarrow> ('s, 'e, 'b) io" where
  "io_bind m f s = (case m s of (Inl e, s') \<Rightarrow> (Inl e, s') | (Inr a, s') \<Rightarrow> f a s')"

text \<open>\<open>io_from g\<close> is the error conversion of the question-mark operator (\<open>From<io::Error>\<close>), and
  \<open>io_try\<close> hands the result to the program as a value, for a \<open>match\<close> on it.\<close>

definition io_from :: "('e \<Rightarrow> 'f) \<Rightarrow> ('s, 'e, 'a) io \<Rightarrow> ('s, 'f, 'a) io" where
  "io_from g m s = (case m s of (r, s') \<Rightarrow> (map_err g r, s'))"

definition io_try :: "('s, 'e, 'a) io \<Rightarrow> ('s, 'f, 'e + 'a) io" where
  "io_try m s = (case m s of (r, s') \<Rightarrow> (Inr r, s'))"

definition resize :: "bytes \<Rightarrow> nat \<Rightarrow> bytes" where
  "resize bs n = take n bs @ zeros (n - length bs)"

definition overwrite :: "bytes \<Rightarrow> nat \<Rightarrow> bytes \<Rightarrow> bytes" where
  "overwrite live offset src =
     (let end = offset + length src;
          live = (if end > length live then resize live end else live)
      in copy_at live offset src)"

section \<open>Triples\<close>

definition triple ::
  "('s \<Rightarrow> bool) \<Rightarrow> ('s, 'e, 'a) io \<Rightarrow> ('a \<Rightarrow> 's \<Rightarrow> bool) \<Rightarrow> ('e \<Rightarrow> 's \<Rightarrow> bool) \<Rightarrow> bool" where
  "triple P m Q E \<longleftrightarrow>
     (\<forall>s. P s \<longrightarrow> (case m s of (Inl e, s') \<Rightarrow> E e s' | (Inr a, s') \<Rightarrow> Q a s'))"

text \<open>What an adapter promises for one file.\<close>

record vfile =
  v_live :: bytes
  v_synced :: bytes
  v_linked :: bool

definition mutated :: "(bytes \<Rightarrow> bytes) \<Rightarrow> vfile \<Rightarrow> vfile \<Rightarrow> bool" where
  "mutated g v v' \<longleftrightarrow>
     v_live v' = g (v_live v) \<and> (v_synced v' = v_synced v \<or> v_synced v' = g (v_live v)) \<and>
     v_linked v' = v_linked v"

definition synced_file :: "bytes \<Rightarrow> vfile" where
  "synced_file bs = \<lparr>v_live = bs, v_synced = bs, v_linked = True\<rparr>"

definition restarted :: "vfile \<Rightarrow> vfile" where
  "restarted v = \<lparr>v_live = v_synced v, v_synced = v_synced v, v_linked = True\<rparr>"

section \<open>Lemmas\<close>

lemma tripleI:
  "(\<And>s e s'. P s \<Longrightarrow> m s = (Inl e, s') \<Longrightarrow> E e s') \<Longrightarrow>
   (\<And>s a s'. P s \<Longrightarrow> m s = (Inr a, s') \<Longrightarrow> Q a s') \<Longrightarrow> triple P m Q E"
  by (auto simp: triple_def split: prod.splits sum.splits)

lemma triple_Inr: "triple P m Q E \<Longrightarrow> P s \<Longrightarrow> m s = (Inr a, s') \<Longrightarrow> Q a s'"
  by (auto simp: triple_def)

lemma triple_Inl: "triple P m Q E \<Longrightarrow> P s \<Longrightarrow> m s = (Inl e, s') \<Longrightarrow> E e s'"
  by (auto simp: triple_def)

lemma triple_success:
  assumes "triple P m Q (\<lambda>e s. \<not> True \<and> E e s)" and "P s"
  obtains a s' where "m s = (Inr a, s')" "Q a s'"
  using assms by (cases "m s"; cases "fst (m s)") (auto simp: triple_def)

lemma triple_bind:
  assumes "triple P m R E" and "\<And>a. triple (R a) (f a) Q E"
  shows "triple P (io_bind m f) Q E"
proof (rule tripleI)
  fix s e s' assume "P s" and run: "io_bind m f s = (Inl e, s')"
  show "E e s'"
  proof (cases "m s")
    case (Pair r s1)
    then show ?thesis
      using run triple_Inl [OF assms(1) \<open>P s\<close>] triple_Inl [OF assms(2) triple_Inr [OF assms(1) \<open>P s\<close>]]
      by (cases r) (simp_all add: io_bind_def)
  qed
next
  fix s a s' assume "P s" and run: "io_bind m f s = (Inr a, s')"
  show "Q a s'"
  proof (cases "m s")
    case (Pair r s1)
    then show ?thesis
      using run triple_Inr [OF assms(2) triple_Inr [OF assms(1) \<open>P s\<close>]]
      by (cases r) (simp_all add: io_bind_def)
  qed
qed

lemma triple_bind_eq:
  assumes "triple P m (\<lambda>a s. a = v \<and> R s) E" and "triple R (f v) Q E"
  shows "triple P (io_bind m f) Q E"
proof (rule triple_bind [OF assms(1)])
  show "triple (\<lambda>s. a = v \<and> R s) (f a) Q E" for a
    using assms(2) by (auto simp: triple_def)
qed

lemma triple_from: "triple P m Q (\<lambda>e. E (g e)) \<Longrightarrow> triple P (io_from g m) Q E"
  by (rule tripleI)
    (auto simp: triple_def io_from_def map_err_def split: prod.split_asm sum.split_asm)

lemma triple_then:
  assumes "triple P m (\<lambda>a s. a = v \<and> R s) (\<lambda>e. X)" and "triple R (f v) Q (\<lambda>e. X)"
  shows "triple P (io_bind (io_from g m) f) Q (\<lambda>e. X)"
proof (rule triple_bind_eq [where v = v and R = R])
  show "triple P (io_from g m) (\<lambda>a s. a = v \<and> R s) (\<lambda>e. X)"
    by (rule triple_from [where E = "\<lambda>e. X", OF assms(1)])
qed (fact assms(2))

lemma triple_return: "(\<And>s. P s \<Longrightarrow> Q a s) \<Longrightarrow> triple P (io_return a) Q E"
  by (simp add: triple_def io_return_def)

lemma triple_fail: "(\<And>s. P s \<Longrightarrow> E e s) \<Longrightarrow> triple P (io_fail e) Q E"
  by (simp add: triple_def io_fail_def)

lemma triple_weaken:
  assumes "triple P' m Q' E'" and "\<And>s. P s \<Longrightarrow> P' s" and "\<And>a s. Q' a s \<Longrightarrow> Q a s"
    and "\<And>e s. E' e s \<Longrightarrow> E e s"
  shows "triple P m Q E"
  unfolding triple_def
proof (intro allI impI)
  fix s assume "P s"
  with assms(1,2) have "case m s of (Inl e, s') \<Rightarrow> E' e s' | (Inr a, s') \<Rightarrow> Q' a s'"
    by (simp add: triple_def)
  with assms(3,4) show "case m s of (Inl e, s') \<Rightarrow> E e s' | (Inr a, s') \<Rightarrow> Q a s'"
    by (auto split: prod.split_asm sum.split_asm)
qed

lemma triple_errors:
  assumes "triple P m Q' E'" and "\<And>a s. Q' a s \<Longrightarrow> Q a s"
    and "\<And>s e s'. m s = (Inl e, s') \<Longrightarrow> E e s'"
  shows "triple P m Q E"
proof (rule tripleI)
  show "Q a s'" if "P s" "m s = (Inr a, s')" for s a s'
    by (rule assms(2)) (rule triple_Inr [OF assms(1) that])
qed (rule assms(3))

lemma triple_try:
  "triple P m (\<lambda>a. Q (Inr a)) (\<lambda>e. Q (Inl e)) \<Longrightarrow> triple P (io_try m) Q E"
proof (rule tripleI)
  fix s a s' assume t: "triple P m (\<lambda>a. Q (Inr a)) (\<lambda>e. Q (Inl e))" and "P s"
    and run: "io_try m s = (Inr a, s')"
  then show "Q a s'"
    using triple_Inl [OF t \<open>P s\<close>] triple_Inr [OF t \<open>P s\<close>]
    by (cases a) (auto simp: io_try_def split: prod.split_asm)
qed (simp add: io_try_def split: prod.split_asm)

lemma triple_if:
  "(c \<Longrightarrow> triple P m Q E) \<Longrightarrow> (\<not> c \<Longrightarrow> triple P m' Q E) \<Longrightarrow> triple P (if c then m else m') Q E"
  by simp

lemma triple_pre: "(\<And>s. P s \<Longrightarrow> c) \<Longrightarrow> (c \<Longrightarrow> triple P m Q E) \<Longrightarrow> triple P m Q E"
  by (auto simp: triple_def)

lemma io_simps [simp]:
  "io_bind (io_return a) f = f a"
  "io_bind (io_fail e) f = io_fail e"
  "io_result (Inr a) = io_return a"
  "io_result (Inl e) = io_fail e"
  by (simp_all add: fun_eq_iff io_bind_def io_return_def io_fail_def io_result_def)

lemma io_bind_assoc [simp]: "io_bind (io_bind m f) g = io_bind m (\<lambda>a. io_bind (f a) g)"
  by (simp add: fun_eq_iff io_bind_def split: prod.split sum.split)

lemma resize_take: "resize (x @ y) (length x) = x"
  by (simp add: resize_def zeros_def)

lemma resize_id [simp]: "resize bs (length bs) = bs"
  by (simp add: resize_def zeros_def)

lemma resize_0 [simp]: "resize bs 0 = []"
  by (simp add: resize_def zeros_def)

lemma length_resize [simp]: "length (resize bs n) = n"
  by (simp add: resize_def)

lemma overwrite_end [simp]: "overwrite bs (length bs) src = bs @ src"
  by (cases "src = []") (simp_all add: overwrite_def Let_def resize_def copy_at_def)

lemma overwrite_Nil [simp]: "overwrite [] 0 src = src"
  using overwrite_end [of "[]" src] by simp

section \<open>The contract of a storage adapter\<close>

locale storage_laws =
  fixes S :: "'s storage_io"
    and inv :: "'s \<Rightarrow> bool"
    and healthy :: "'s \<Rightarrow> bool"
    and view :: "'s \<Rightarrow> string \<Rightarrow> vfile option"
    and restart :: "'s \<Rightarrow> 's"
  assumes write_at_law:
    "inv s \<Longrightarrow> view s n = Some v \<Longrightarrow> write_at S n off bs s = (r, s') \<Longrightarrow>
       inv s' \<and> (healthy s \<longrightarrow> healthy s' \<and> (unat off + length bs < 2 ^ 64 \<longrightarrow> r = Inr ())) \<and>
       ((\<exists>e. r = Inl e) \<and> view s' = view s \<or>
        (\<exists>v'. mutated (\<lambda>b. overwrite b (unat off) bs) v v' \<and> view s' = (view s)(n \<mapsto> v')))"
  and set_len_law:
    "inv s \<Longrightarrow> view s n = Some v \<Longrightarrow> set_len S n len s = (r, s') \<Longrightarrow>
       inv s' \<and> (healthy s \<longrightarrow> healthy s' \<and> r = Inr ()) \<and>
       ((\<exists>e. r = Inl e) \<and> view s' = view s \<or>
        (\<exists>v'. mutated (\<lambda>b. resize b (unat len)) v v' \<and> view s' = (view s)(n \<mapsto> v')))"
  and sync_file_law:
    "inv s \<Longrightarrow> view s n = Some v \<Longrightarrow> sync_file S n s = (r, s') \<Longrightarrow>
       inv s' \<and> (healthy s \<longrightarrow> healthy s' \<and> r = Inr ()) \<and>
       ((\<exists>e. r = Inl e) \<and> view s' = view s \<or>
        view s' = (view s)(n \<mapsto> v\<lparr>v_synced := v_live v\<rparr>))"
  and read_object_law:
    "inv s \<Longrightarrow> view s n = Some v \<Longrightarrow> read_object S n s = (rb, s') \<Longrightarrow>
       inv s' \<and> view s' = view s \<and> (healthy s \<longrightarrow> healthy s' \<and> rb = Inr (v_live v)) \<and>
       (\<forall>x. rb = Inr x \<longrightarrow> x = v_live v)"
  and object_len_law:
    "inv s \<Longrightarrow> view s n = Some v \<Longrightarrow> object_len S n s = (rl, s') \<Longrightarrow>
       inv s' \<and> view s' = view s \<and> rl \<noteq> Inl NotFound \<and>
       (healthy s \<longrightarrow> healthy s' \<and> (length (v_live v) < 2 ^ 64 \<longrightarrow> (\<exists>x. rl = Inr x))) \<and>
       (\<forall>x. rl = Inr x \<longrightarrow> unat x = length (v_live v))"
  and object_len_absent_law:
    "inv s \<Longrightarrow> view s n = None \<Longrightarrow> object_len S n s = (rl, s') \<Longrightarrow>
       inv s' \<and> view s' = view s \<and> (\<exists>e. rl = Inl e) \<and>
       (healthy s \<longrightarrow> healthy s')"
  and read_exact_at_law:
    "inv s \<Longrightarrow> view s n = Some v \<Longrightarrow> read_exact_at S n off count s = (rb, s') \<Longrightarrow>
       inv s' \<and> view s' = view s \<and>
       (healthy s \<longrightarrow> healthy s' \<and>
          (count \<le> MAX_STORAGE_RANGE_BYTES \<and> unat off + count \<le> length (v_live v) \<and>
           length (v_live v) < 2 ^ 64 \<longrightarrow> (\<exists>x. rb = Inr x))) \<and>
       (\<forall>x. rb = Inr x \<longrightarrow> unat off + count \<le> length (v_live v) \<and> x = slice (unat off) count (v_live v))"
  and exists_name_law:
    "inv s \<Longrightarrow> exists_name S n s = (re, s') \<Longrightarrow>
       inv s' \<and> view s' = view s \<and> (healthy s \<longrightarrow> healthy s') \<and>
       (healthy s \<longrightarrow> view s n \<noteq> None \<longrightarrow> re = Inr True) \<and>
       (\<forall>b. re = Inr b \<longrightarrow> b = (view s n \<noteq> None))"
  and create_new_law:
    "inv s \<Longrightarrow> view s n = None \<Longrightarrow> create_new S n s = (r, s') \<Longrightarrow>
       inv s' \<and> (healthy s \<longrightarrow> healthy s') \<and>
       ((\<exists>e. r = Inl e) \<and> view s' = view s \<or>
        (\<exists>v'. v_live v' = [] \<and> v_synced v' = [] \<and> view s' = (view s)(n \<mapsto> v')))"
  and sync_root_law:
    "inv s \<Longrightarrow> sync_root S s = (r, s') \<Longrightarrow>
       inv s' \<and> (healthy s \<longrightarrow> healthy s' \<and> r = Inr ()) \<and>
       ((\<exists>e. r = Inl e) \<and> view s' = view s \<or>
        view s' = (\<lambda>n. map_option (\<lambda>v. v\<lparr>v_linked := True\<rparr>) (view s n)))"
  and list_names_law:
    "inv s \<Longrightarrow> list_names S s = (rn, s') \<Longrightarrow>
       inv s' \<and> view s' = view s \<and> (healthy s \<longrightarrow> healthy s' \<and> (\<exists>x. rn = Inr x))"
  and restart_law:
    "inv s \<Longrightarrow> inv (restart s) \<and> healthy (restart s) \<and>
       (\<forall>n v. view s n = Some v \<and> v_linked v \<longrightarrow> view (restart s) n = Some (restarted v))"
begin

text \<open>
  \<open>stage h n T F x\<close>: the linked file \<open>n\<close> has the live content \<open>x\<close>, its synced content is one of
  \<open>T\<close>, and the other files are as in \<open>F\<close>. With \<open>h\<close> the storage is healthy. \<open>within\<close> only says
  that both contents are in \<open>T\<close>: it is what is known after a fault.
\<close>

definition stage :: "bool \<Rightarrow> string \<Rightarrow> bytes set \<Rightarrow> (string \<Rightarrow> vfile option) \<Rightarrow> bytes \<Rightarrow> 's \<Rightarrow> bool" where
  "stage h n T F x s \<longleftrightarrow>
     inv s \<and> (h \<longrightarrow> healthy s) \<and>
     (\<exists>v. view s n = Some v \<and> v_linked v \<and> v_live v = x \<and> v_synced v \<in> T) \<and>
     (\<forall>m. m \<noteq> n \<longrightarrow> view s m = F m)"

definition within :: "string \<Rightarrow> bytes set \<Rightarrow> (string \<Rightarrow> vfile option) \<Rightarrow> 's \<Rightarrow> bool" where
  "within n T F s \<longleftrightarrow> (\<exists>x \<in> T. stage False n T F x s)"

lemma stage_within: "stage h n T F x s \<Longrightarrow> x \<in> T \<Longrightarrow> within n T F s"
  by (auto simp: stage_def within_def)

lemma stage_mono: "stage h n T F x s \<Longrightarrow> T \<subseteq> T' \<Longrightarrow> stage h n T' F x s"
  by (auto simp: stage_def)

lemma mutation_stage:
  assumes law: "\<And>s v r s'. inv s \<Longrightarrow> view s n = Some v \<Longrightarrow> m s = (r, s') \<Longrightarrow>
      inv s' \<and> (healthy s \<longrightarrow> healthy s' \<and> r = Inr ()) \<and>
      ((\<exists>e. r = Inl e) \<and> view s' = view s \<or> (\<exists>v'. upd v v' \<and> view s' = (view s)(n \<mapsto> v')))"
    and upd: "\<And>v v'. v_linked v \<Longrightarrow> v_live v = x \<Longrightarrow> v_synced v \<in> T \<Longrightarrow> upd v v' \<Longrightarrow>
      v_linked v' \<and> v_live v' = y \<and> v_synced v' \<in> T'"
    and T: "x \<in> T" "y \<in> T" "T' \<subseteq> T"
  shows "triple (stage h n T F x) m (\<lambda>_. stage h n T' F y) (\<lambda>e s. \<not> h \<and> within n T F s)"
proof -
  have step: "case m s of (Inl e, s') \<Rightarrow> \<not> h \<and> within n T F s' | (Inr a, s') \<Rightarrow> stage h n T' F y s'"
    if pre: "stage h n T F x s" for s
  proof -
    obtain v where v: "inv s" "view s n = Some v" "v_live v = x" "v_synced v \<in> T" "v_linked v"
      "\<forall>k. k \<noteq> n \<longrightarrow> view s k = F k" "h \<longrightarrow> healthy s"
      using pre by (auto simp: stage_def)
    obtain r s' where run: "m s = (r, s')" by (cases "m s")
    from law [OF v(1,2) run] show ?thesis
    proof (elim conjE disjE exE, goal_cases)
      case 1
      with v T(1) run show ?case by (auto simp: stage_def within_def)
    next
      case (2 v')
      with v have "stage h n T' F y s'"
        using upd [OF v(5,3,4) 2(3)] by (auto simp: stage_def)
      moreover from this have "within n T F s'"
        using T by (auto simp: stage_def within_def)
      ultimately show ?case using 2 v(7) run by (cases r) auto
    qed
  qed
  then show ?thesis by (simp add: triple_def)
qed

lemma write_at_stage:
  assumes "x \<in> T" and "overwrite x (unat off) bs \<in> T" and "unat off + length bs < 2 ^ 64"
  shows "triple (stage h n T F x) (write_at S n off bs)
           (\<lambda>_. stage h n T F (overwrite x (unat off) bs)) (\<lambda>e s. \<not> h \<and> within n T F s)"
proof (rule mutation_stage [where upd = "mutated (\<lambda>b. overwrite b (unat off) bs)"], goal_cases)
  case (1 s v r s')
  then show ?case using write_at_law [OF 1] assms(3) by simp
qed (use assms in \<open>auto simp: mutated_def\<close>)

lemma set_len_stage:
  assumes "x \<in> T" and "resize x (unat len) \<in> T"
  shows "triple (stage h n T F x) (set_len S n len)
           (\<lambda>_. stage h n T F (resize x (unat len))) (\<lambda>e s. \<not> h \<and> within n T F s)"
proof (rule mutation_stage [where upd = "mutated (\<lambda>b. resize b (unat len))"], goal_cases)
  case (1 s v r s')
  then show ?case using set_len_law [OF 1] by simp
qed (use assms in \<open>auto simp: mutated_def\<close>)

lemma sync_file_stage:
  assumes "x \<in> T"
  shows "triple (stage h n T F x) (sync_file S n)
           (\<lambda>_. stage h n {x} F x) (\<lambda>e s. \<not> h \<and> within n T F s)"
proof (rule mutation_stage [where upd = "\<lambda>v v'. v' = v\<lparr>v_synced := v_live v\<rparr>"], goal_cases)
  case (1 s v r s')
  then show ?case using sync_file_law [OF 1] by simp
qed (use assms in \<open>auto simp: mutated_def\<close>)

text \<open>\<open>holds h V\<close>: the files are exactly \<open>V\<close>. Reads keep it.\<close>

definition holds :: "bool \<Rightarrow> (string \<Rightarrow> vfile option) \<Rightarrow> 's \<Rightarrow> bool" where
  "holds h V s \<longleftrightarrow> inv s \<and> (h \<longrightarrow> healthy s) \<and> view s = V"

lemma read_object_holds:
  assumes "V n = Some v"
  shows "triple (holds h V) (read_object S n) (\<lambda>bs s. bs = v_live v \<and> holds h V s)
           (\<lambda>e s. \<not> h \<and> holds False V s)"
proof (rule tripleI)
  fix s e s' assume "holds h V s" and run: "read_object S n s = (Inl e, s')"
  then show "\<not> h \<and> holds False V s'"
    using read_object_law [of s n v, OF _ _ run] assms by (simp add: holds_def)
next
  fix s a s' assume "holds h V s" and run: "read_object S n s = (Inr a, s')"
  then show "a = v_live v \<and> holds h V s'"
    using read_object_law [of s n v, OF _ _ run] assms by (simp add: holds_def)
qed

lemma object_len_holds:
  assumes "V n = Some v" and "length (v_live v) < 2 ^ 64"
  shows "triple (holds h V) (object_len S n) (\<lambda>l s. unat l = length (v_live v) \<and> holds h V s)
           (\<lambda>e s. \<not> h \<and> e \<noteq> NotFound \<and> holds False V s)"
proof (rule tripleI)
  fix s e s' assume "holds h V s" and run: "object_len S n s = (Inl e, s')"
  then show "\<not> h \<and> e \<noteq> NotFound \<and> holds False V s'"
    using object_len_law [of s n v, OF _ _ run] assms by (simp add: holds_def)
next
  fix s a s' assume "holds h V s" and run: "object_len S n s = (Inr a, s')"
  then show "unat a = length (v_live v) \<and> holds h V s'"
    using object_len_law [of s n v, OF _ _ run] assms by (simp add: holds_def)
qed

lemma read_exact_at_holds:
  assumes "V n = Some v" and "unat off + k \<le> length (v_live v)" and "k \<le> MAX_STORAGE_RANGE_BYTES"
    and "length (v_live v) < 2 ^ 64"
  shows "triple (holds h V) (read_exact_at S n off k)
           (\<lambda>bs s. bs = slice (unat off) k (v_live v) \<and> holds h V s)
           (\<lambda>e s. \<not> h \<and> holds False V s)"
proof (rule tripleI)
  fix s e s' assume "holds h V s" and run: "read_exact_at S n off k s = (Inl e, s')"
  then show "\<not> h \<and> holds False V s'"
    using read_exact_at_law [of s n v, OF _ _ run] assms by (simp add: holds_def)
next
  fix s a s' assume "holds h V s" and run: "read_exact_at S n off k s = (Inr a, s')"
  then show "a = slice (unat off) k (v_live v) \<and> holds h V s'"
    using read_exact_at_law [of s n v, OF _ _ run] assms by (simp add: holds_def)
qed

lemma exists_name_holds:
  assumes "V n = Some v"
  shows "triple (holds h V) (exists_name S n) (\<lambda>b s. b = True \<and> holds h V s)
           (\<lambda>e s. \<not> h \<and> holds False V s)"
proof (rule tripleI)
  fix s e s' assume "holds h V s" and run: "exists_name S n s = (Inl e, s')"
  then show "\<not> h \<and> holds False V s'"
    using exists_name_law [OF _ run] assms by (simp add: holds_def)
next
  fix s b s' assume "holds h V s" and run: "exists_name S n s = (Inr b, s')"
  then show "b = True \<and> holds h V s'"
    using exists_name_law [OF _ run] assms by (simp add: holds_def)
qed

lemma exists_name_known:
  "triple (holds h V) (exists_name S n) (\<lambda>b s. b = (V n \<noteq> None) \<and> holds h V s) (\<lambda>e s. holds False V s)"
proof (rule tripleI)
  fix s e s' assume "holds h V s" and run: "exists_name S n s = (Inl e, s')"
  then show "holds False V s'"
    using exists_name_law [OF _ run] by (simp add: holds_def)
next
  fix s b s' assume "holds h V s" and run: "exists_name S n s = (Inr b, s')"
  then show "b = (V n \<noteq> None) \<and> holds h V s'"
    using exists_name_law [OF _ run] by (simp add: holds_def)
qed

lemma list_names_holds:
  "triple (holds h V) (list_names S) (\<lambda>_. holds h V) (\<lambda>e s. \<not> h \<and> holds False V s)"
proof (rule tripleI)
  fix s e s' assume "holds h V s" and run: "list_names S s = (Inl e, s')"
  then show "\<not> h \<and> holds False V s'"
    using list_names_law [OF _ run] by (auto simp: holds_def)
next
  fix s ns s' assume "holds h V s" and run: "list_names S s = (Inr ns, s')"
  then show "holds h V s'"
    using list_names_law [OF _ run] by (auto simp: holds_def)
qed

lemma sync_root_holds:
  "triple (holds h V) (sync_root S) (\<lambda>_. holds h (\<lambda>n. map_option (\<lambda>v. v\<lparr>v_linked := True\<rparr>) (V n)))
     (\<lambda>e s. \<not> h \<and> (holds False V s \<or> holds False (\<lambda>n. map_option (\<lambda>v. v\<lparr>v_linked := True\<rparr>) (V n)) s))"
proof (rule tripleI)
  fix s e s' assume "holds h V s" and run: "sync_root S s = (Inl e, s')"
  then show "\<not> h \<and> (holds False V s' \<or> holds False (\<lambda>n. map_option (\<lambda>v. v\<lparr>v_linked := True\<rparr>) (V n)) s')"
    using sync_root_law [OF _ run] by (auto simp: holds_def)
next
  fix s a s' assume "holds h V s" and run: "sync_root S s = (Inr a, s')"
  then show "holds h (\<lambda>n. map_option (\<lambda>v. v\<lparr>v_linked := True\<rparr>) (V n)) s'"
    using sync_root_law [OF _ run] by (auto simp: holds_def)
qed

lemma stage_from_holds:
  assumes "\<And>V v. V n = Some v \<Longrightarrow> v_live v = x \<Longrightarrow> (\<And>k. k \<noteq> n \<Longrightarrow> V k = F k) \<Longrightarrow>
      triple (holds h V) m (\<lambda>a s. Q a \<and> holds h V s) (\<lambda>e s. \<not> h \<and> holds False V s)"
    and "x \<in> T"
  shows "triple (stage h n T F x) m (\<lambda>a s. Q a \<and> stage h n T F x s) (\<lambda>e s. \<not> h \<and> within n T F s)"
proof (rule tripleI)
  fix s e s' assume pre: "stage h n T F x s" and run: "m s = (Inl e, s')"
  then obtain v where v: "view s n = Some v" "v_live v = x" "holds h (view s) s"
    by (auto simp: stage_def holds_def)
  with run have "\<not> h \<and> holds False (view s) s'"
    by (intro triple_Inl [OF assms(1) [of "view s" v, OF v(1,2)]]) (use pre in \<open>auto simp: stage_def\<close>)
  with pre assms(2) show "\<not> h \<and> within n T F s'"
    by (auto simp: stage_def holds_def within_def)
next
  fix s a s' assume pre: "stage h n T F x s" and run: "m s = (Inr a, s')"
  then obtain v where v: "view s n = Some v" "v_live v = x" "holds h (view s) s"
    by (auto simp: stage_def holds_def)
  with run have "Q a \<and> holds h (view s) s'"
    by (intro triple_Inr [OF assms(1) [of "view s" v, OF v(1,2)]]) (use pre in \<open>auto simp: stage_def\<close>)
  with pre show "Q a \<and> stage h n T F x s'"
    by (auto simp: stage_def holds_def)
qed

lemma read_exact_at_stage:
  assumes "unat off + k \<le> length x" and "k \<le> MAX_STORAGE_RANGE_BYTES" and "length x < 2 ^ 64"
    and "x \<in> T"
  shows "triple (stage h n T F x) (read_exact_at S n off k)
           (\<lambda>bs s. bs = slice (unat off) k x \<and> stage h n T F x s) (\<lambda>e s. \<not> h \<and> within n T F s)"
proof (rule stage_from_holds [OF _ assms(4)])
  fix V and v :: vfile assume "V n = Some v" and x: "v_live v = x"
  from read_exact_at_holds [of V n v off k h, OF this(1)] assms(1-3)
  show "triple (holds h V) (read_exact_at S n off k)
      (\<lambda>bs s. bs = slice (unat off) k x \<and> holds h V s) (\<lambda>e s. \<not> h \<and> holds False V s)"
    by (simp add: x)
qed

lemma read_object_stage:
  assumes "x \<in> T"
  shows "triple (stage h n T F x) (read_object S n)
           (\<lambda>bs s. bs = x \<and> stage h n T F x s) (\<lambda>e s. \<not> h \<and> within n T F s)"
proof (rule stage_from_holds [OF _ assms])
  fix V and v :: vfile assume "V n = Some v" and x: "v_live v = x"
  from read_object_holds [of V n v h, OF this(1)]
  show "triple (holds h V) (read_object S n)
      (\<lambda>bs s. bs = x \<and> holds h V s) (\<lambda>e s. \<not> h \<and> holds False V s)"
    by (simp add: x)
qed

text \<open>The same rules for an operation followed by the rest of the program.\<close>

lemma write_at_then:
  assumes "overwrite x (unat off) bs = y" and "x \<in> T" and "y \<in> T" and "unat off + length bs < 2 ^ 64"
    and "triple (stage h n T F y) (f ()) Q (\<lambda>e s. \<not> h \<and> within n T F s)"
  shows "triple (stage h n T F x) (io_bind (io_from g (write_at S n off bs)) f) Q
           (\<lambda>e s. \<not> h \<and> within n T F s)"
proof (rule triple_then [where f = f and v = "()" and R = "stage h n T F y", OF _ assms(5)])
  show "triple (stage h n T F x) (write_at S n off bs) (\<lambda>a s. a = () \<and> stage h n T F y s)
      (\<lambda>e s. \<not> h \<and> within n T F s)"
    using write_at_stage [of x T off bs h n F] assms by simp
qed

lemma set_len_then:
  assumes "resize x (unat len) = y" and "x \<in> T" and "y \<in> T"
    and "triple (stage h n T F y) (f ()) Q (\<lambda>e s. \<not> h \<and> within n T F s)"
  shows "triple (stage h n T F x) (io_bind (io_from g (set_len S n len)) f) Q
           (\<lambda>e s. \<not> h \<and> within n T F s)"
proof (rule triple_then [where f = f and v = "()" and R = "stage h n T F y", OF _ assms(4)])
  show "triple (stage h n T F x) (set_len S n len) (\<lambda>a s. a = () \<and> stage h n T F y s)
      (\<lambda>e s. \<not> h \<and> within n T F s)"
    using set_len_stage [of x T len h n F] assms by simp
qed

lemma read_exact_at_then:
  assumes "slice (unat off) k x = bs" and "unat off + k \<le> length x" and "k \<le> MAX_STORAGE_RANGE_BYTES"
    and "length x < 2 ^ 64" and "x \<in> T"
    and "triple (stage h n T F x) (f bs) Q (\<lambda>e s. \<not> h \<and> within n T F s)"
  shows "triple (stage h n T F x) (io_bind (io_from g (read_exact_at S n off k)) f) Q
           (\<lambda>e s. \<not> h \<and> within n T F s)"
proof (rule triple_then [where f = f and v = "bs" and R = "stage h n T F x", OF _ assms(6)])
  show "triple (stage h n T F x) (read_exact_at S n off k) (\<lambda>a s. a = bs \<and> stage h n T F x s)
      (\<lambda>e s. \<not> h \<and> within n T F s)"
    using read_exact_at_stage [of off k x T h n F] assms by simp
qed

lemma read_object_then:
  assumes "x \<in> T" and "triple (stage h n T F x) (f x) Q (\<lambda>e s. \<not> h \<and> within n T F s)"
  shows "triple (stage h n T F x) (io_bind (io_from g (read_object S n)) f) Q
           (\<lambda>e s. \<not> h \<and> within n T F s)"
  by (rule triple_then [where f = f and v = x and R = "stage h n T F x", OF _ assms(2)])
    (rule read_object_stage [OF assms(1)])

lemma sync_file_last:
  assumes "x \<in> T"
  shows "triple (stage h n T F x) (io_bind (io_from g (sync_file S n)) (\<lambda>_. io_return v))
           (\<lambda>r s. r = v \<and> stage h n {x} F x s) (\<lambda>e s. \<not> h \<and> within n T F s)"
proof (rule triple_then [where v = "()" and R = "stage h n {x} F x"])
  show "triple (stage h n T F x) (sync_file S n) (\<lambda>a s. a = () \<and> stage h n {x} F x s)
      (\<lambda>e s. \<not> h \<and> within n T F s)"
    using sync_file_stage [OF assms, of h n F] by simp
  show "triple (stage h n {x} F x) (io_return v) (\<lambda>r s. r = v \<and> stage h n {x} F x s)
      (\<lambda>e s. \<not> h \<and> within n T F s)"
    by (intro triple_return) simp
qed

lemma restart_synced:
  "inv s \<Longrightarrow> view s n = Some v \<Longrightarrow> v_linked v \<Longrightarrow> view (restart s) n = Some (synced_file (v_synced v))"
  using restart_law [of s] by (simp add: restarted_def synced_file_def)

lemma restart_synced_file:
  "inv s \<Longrightarrow> view s n = Some (synced_file x) \<Longrightarrow> view (restart s) n = Some (synced_file x)"
  using restart_synced [of s n "synced_file x"] by (simp add: synced_file_def)

lemma stage_synced_file: "stage h n {x} F x s \<Longrightarrow> view s n = Some (synced_file x)"
  by (auto simp: stage_def synced_file_def)

lemma within_restart:
  assumes "within n T F s" and "m \<noteq> n" and "F m = Some (synced_file y)"
  obtains x where "x \<in> T" and "view (restart s) n = Some (synced_file x)"
    and "view (restart s) m = Some (synced_file y)"
proof -
  obtain v where v: "inv s" "view s n = Some v" "v_linked v" "v_synced v \<in> T" "view s m = Some (synced_file y)"
    using assms by (auto simp: within_def stage_def)
  show thesis
    by (rule that [OF v(4) restart_synced [OF v(1-3)]])
      (use restart_synced [OF v(1,5)] in \<open>simp add: synced_file_def\<close>)
qed

lemma stage_start:
  "inv s \<Longrightarrow> (h \<longrightarrow> healthy s) \<Longrightarrow> view s n = Some (synced_file x) \<Longrightarrow> x \<in> T \<Longrightarrow> stage h n T (view s) x s"
  by (simp add: stage_def synced_file_def)

end

end
