(* ===== verification/Memory_Storage.thy ===== *)
theory Memory_Storage
  imports Storage_Io
begin

text \<open>
  The in-memory storage adapter with a live and a durable state,
  \<open>MemoryStorageIo\<close> in \<open>crates/fastdup-testkit/src/lib.rs\<close>: the reference semantics of the storage
  seam. An operation can be made to fail before or after its effect, and \<open>crash\<close> discards
  everything that was not made durable.

  The adapter is shown to keep its invariant and to satisfy the contract \<open>storage_laws\<close> in two
  ways: for a power loss (a restart finds the durable contents) and for a killed process (a restart
  finds the live contents).
\<close>

datatype storage_operation =
  CreateNew | Exists | WriteAt | SetLen | Read | ObjectLen | ReadExactAt | ListNames | SyncFile
  | PublishNoreplace | RemoveFile | SyncRoot

record memory_file =
  mf_live :: bytes
  mf_durable :: bytes

record storage_state =
  next_file_id :: u64
  live_directory :: "(string, u64) btree"
  durable_directory :: "(string, u64) btree"
  files :: "(u64, memory_file) btree"
  operations :: "storage_operation list"
  fail_before :: "nat option"
  fail_after :: "nat option"
  read_substitution :: "bytes option"

type_synonym 'a mem_io = "(storage_state, io_error, 'a) io"

definition mem_configured :: "nat option \<Rightarrow> nat option \<Rightarrow> bytes option \<Rightarrow> storage_state" where
  "mem_configured before after substitution =
     \<lparr>next_file_id = 0, live_directory = [], durable_directory = [], files = [], operations = [],
      fail_before = before, fail_after = after, read_substitution = substitution\<rparr>"

definition mem_new :: storage_state where
  "mem_new = mem_configured None None None"

definition mem_crash :: "storage_state \<Rightarrow> storage_state" where
  "mem_crash s =
     (let s = s\<lparr>live_directory := durable_directory s\<rparr>;
          durable_files = map snd (durable_directory s);
          s = s\<lparr>files := bt_retain (\<lambda>i. i \<in> set durable_files) (files s)\<rparr>
      in s\<lparr>files := bt_map_values (\<lambda>f. f\<lparr>mf_live := mf_durable f\<rparr>) (files s)\<rparr>)"

definition mem_clear_faults :: "storage_state \<Rightarrow> storage_state" where
  "mem_clear_faults s = s\<lparr>fail_before := None, fail_after := None\<rparr>"

definition mem_arm_failpoint :: "bool \<Rightarrow> nat \<Rightarrow> storage_state \<Rightarrow> storage_state" where
  "mem_arm_failpoint after position s =
     s\<lparr>fail_before := (if \<not> after then Some position else None),
       fail_after := (if after then Some position else None)\<rparr>"

definition mem_begin :: "storage_operation \<Rightarrow> nat mem_io" where
  "mem_begin operation s =
     (let position = length (operations s);
          s = s\<lparr>operations := operations s @ [operation]\<rparr>
      in if fail_before s = Some position then (Inl Interrupted, s) else (Inr position, s))"

definition mem_finish :: "nat \<Rightarrow> unit mem_io" where
  "mem_finish position s =
     (if fail_after s = Some position then (Inl Interrupted, s) else (Inr (), s))"

definition mem_allocate_file_id :: "u64 mem_io" where
  "mem_allocate_file_id s =
     (case checked_add (next_file_id s) 1 of
        None \<Rightarrow> (Inl OtherIo, s)
      | Some i \<Rightarrow> (Inr i, s\<lparr>next_file_id := i\<rparr>))"

definition mem_file_id :: "string \<Rightarrow> u64 mem_io" where
  "mem_file_id name s = (ok_or (bt_get (live_directory s) name) NotFound, s)"

definition valid_name :: "string \<Rightarrow> bool" where
  "valid_name name \<longleftrightarrow> \<not> (name = [] \<or> CHR ''/'' \<in> set name \<or> name = ''.'' \<or> name = ''..'')"

definition validate_name :: "string \<Rightarrow> io_error + unit" where
  "validate_name name = (if \<not> valid_name name then Inl InvalidInput else Inr ())"

definition mem_get_file :: "u64 \<Rightarrow> memory_file mem_io" where
  "mem_get_file i s = (ok_or (bt_get (files s) i) NotFound, s)"

definition mem_put_file :: "u64 \<Rightarrow> memory_file \<Rightarrow> unit mem_io" where
  "mem_put_file i f s = (Inr (), s\<lparr>files := bt_insert i f (files s)\<rparr>)"

definition mem_create_new :: "string \<Rightarrow> unit mem_io" where
  "mem_create_new name =
     io_bind (mem_begin CreateNew) (\<lambda>position.
     io_bind (io_result (validate_name name)) (\<lambda>_ s.
     if bt_contains (live_directory s) name then (Inl AlreadyExists, s)
     else io_bind mem_allocate_file_id (\<lambda>file_id s.
       let s = s\<lparr>files := bt_insert file_id \<lparr>mf_live = [], mf_durable = []\<rparr> (files s)\<rparr>;
           s = s\<lparr>live_directory := bt_insert name file_id (live_directory s)\<rparr>
       in mem_finish position s) s))"

definition mem_exists :: "string \<Rightarrow> bool mem_io" where
  "mem_exists name =
     io_bind (mem_begin Exists) (\<lambda>position.
     io_bind (io_result (validate_name name)) (\<lambda>_ s.
     let present = bt_contains (live_directory s) name
     in io_bind (mem_finish position) (\<lambda>_. io_return present) s))"

definition mem_write_at :: "string \<Rightarrow> u64 \<Rightarrow> bytes \<Rightarrow> unit mem_io" where
  "mem_write_at name offset bytes =
     io_bind (mem_begin WriteAt) (\<lambda>position.
     io_bind (io_result (validate_name name)) (\<lambda>_.
     io_bind (io_result (ok_or (usize_checked_add (unat offset) (length bytes)) InvalidInput)) (\<lambda>_.
     io_bind (mem_file_id name) (\<lambda>file_id.
     io_bind (mem_get_file file_id) (\<lambda>file.
     io_bind (mem_put_file file_id (file\<lparr>mf_live := overwrite (mf_live file) (unat offset) bytes\<rparr>))
       (\<lambda>_. mem_finish position))))))"

definition mem_read :: "string \<Rightarrow> bytes mem_io" where
  "mem_read name =
     io_bind (mem_begin Read) (\<lambda>position.
     io_bind (io_result (validate_name name)) (\<lambda>_.
     io_bind (mem_file_id name) (\<lambda>file_id.
     io_bind (\<lambda>s. case read_substitution s of
                 Some substitution \<Rightarrow> (Inr substitution, s)
               | None \<Rightarrow> io_bind (mem_get_file file_id) (\<lambda>file. io_return (mf_live file)) s) (\<lambda>bytes.
     io_bind (mem_finish position) (\<lambda>_. io_return bytes)))))"

definition mem_object_len :: "string \<Rightarrow> u64 mem_io" where
  "mem_object_len name =
     io_bind (mem_begin ObjectLen) (\<lambda>position.
     io_bind (io_result (validate_name name)) (\<lambda>_.
     io_bind (mem_file_id name) (\<lambda>file_id.
     io_bind (mem_get_file file_id) (\<lambda>file.
     io_bind (mem_finish position) (\<lambda>_.
     io_result (ok_or (u64_try_from (length (mf_live file))) OtherIo))))))"

definition mem_read_exact_at :: "string \<Rightarrow> u64 \<Rightarrow> nat \<Rightarrow> bytes mem_io" where
  "mem_read_exact_at name offset len =
     io_bind (mem_begin ReadExactAt) (\<lambda>position.
     io_bind (io_result (validate_name name)) (\<lambda>_.
     if len > MAX_STORAGE_RANGE_BYTES then io_fail InvalidInput
     else io_bind (io_result (ok_or (usize_checked_add (unat offset) len) InvalidInput)) (\<lambda>end_offset.
     io_bind (mem_file_id name) (\<lambda>file_id.
     io_bind (\<lambda>s. case read_substitution s of
                 Some substitution \<Rightarrow> (Inr substitution, s)
               | None \<Rightarrow> io_bind (mem_get_file file_id) (\<lambda>file. io_return (mf_live file)) s) (\<lambda>source.
     if end_offset > length source then io_fail UnexpectedEof
     else io_bind (mem_finish position) (\<lambda>_. io_return (slice (unat offset) len source)))))))"

definition mem_list_names :: "string list mem_io" where
  "mem_list_names =
     io_bind (mem_begin ListNames) (\<lambda>position s.
     let names = bt_keys (live_directory s)
     in io_bind (mem_finish position) (\<lambda>_. io_return names) s)"

definition mem_set_len :: "string \<Rightarrow> u64 \<Rightarrow> unit mem_io" where
  "mem_set_len name len =
     io_bind (mem_begin SetLen) (\<lambda>position.
     io_bind (io_result (validate_name name)) (\<lambda>_.
     io_bind (mem_file_id name) (\<lambda>file_id.
     io_bind (mem_get_file file_id) (\<lambda>file.
     io_bind (mem_put_file file_id (file\<lparr>mf_live := resize (mf_live file) (unat len)\<rparr>))
       (\<lambda>_. mem_finish position)))))"

definition mem_sync_file :: "string \<Rightarrow> unit mem_io" where
  "mem_sync_file name =
     io_bind (mem_begin SyncFile) (\<lambda>position.
     io_bind (io_result (validate_name name)) (\<lambda>_.
     io_bind (mem_file_id name) (\<lambda>file_id.
     io_bind (mem_get_file file_id) (\<lambda>file.
     io_bind (mem_put_file file_id (file\<lparr>mf_durable := mf_live file\<rparr>))
       (\<lambda>_. mem_finish position)))))"

definition mem_publish_noreplace :: "string \<Rightarrow> string \<Rightarrow> unit mem_io" where
  "mem_publish_noreplace temporary_name published_name =
     io_bind (mem_begin PublishNoreplace) (\<lambda>position.
     io_bind (io_result (validate_name temporary_name)) (\<lambda>_.
     io_bind (io_result (validate_name published_name)) (\<lambda>_ s.
     if bt_contains (live_directory s) published_name then (Inl AlreadyExists, s)
     else io_bind (mem_file_id temporary_name) (\<lambda>file_id s.
       let s = s\<lparr>live_directory := bt_remove temporary_name (live_directory s)\<rparr>;
           s = s\<lparr>live_directory := bt_insert published_name file_id (live_directory s)\<rparr>
       in mem_finish position s) s)))"

definition mem_remove_file :: "string \<Rightarrow> unit mem_io" where
  "mem_remove_file name =
     io_bind (mem_begin RemoveFile) (\<lambda>position.
     io_bind (io_result (validate_name name)) (\<lambda>_ s.
     if \<not> bt_contains (live_directory s) name then (Inl NotFound, s)
     else mem_finish position (s\<lparr>live_directory := bt_remove name (live_directory s)\<rparr>)))"

definition mem_sync_root :: "unit mem_io" where
  "mem_sync_root =
     io_bind (mem_begin SyncRoot) (\<lambda>position s.
       mem_finish position (s\<lparr>durable_directory := live_directory s\<rparr>))"

definition mem_inject_durable_torn_write :: "string \<Rightarrow> nat \<Rightarrow> unit mem_io" where
  "mem_inject_durable_torn_write name retained =
     io_bind (io_result (validate_name name)) (\<lambda>_.
     io_bind (\<lambda>s. (ok_or (bt_get (durable_directory s) name) NotFound, s)) (\<lambda>file_id.
     io_bind (mem_get_file file_id) (\<lambda>file.
     if retained \<ge> length (mf_durable file) then io_fail InvalidInput
     else mem_put_file file_id (file\<lparr>mf_durable := take retained (mf_durable file)\<rparr>))))"

definition memory_storage :: "storage_state storage_io" where
  "memory_storage =
     \<lparr>create_new = mem_create_new, exists_name = mem_exists, write_at = mem_write_at,
      read_object = mem_read, object_len = mem_object_len, read_exact_at = mem_read_exact_at,
      list_names = mem_list_names, set_len = mem_set_len, sync_file = mem_sync_file,
      publish_noreplace = mem_publish_noreplace, remove_file = mem_remove_file,
      sync_root = mem_sync_root\<rparr>"

section \<open>The invariant and the two views\<close>

definition directory_ok :: "(string, u64) btree \<Rightarrow> (u64, memory_file) btree \<Rightarrow> bool" where
  "directory_ok d fs \<longleftrightarrow>
     bt_sorted d \<and>
     (\<forall>n i. bt_get d n = Some i \<longrightarrow> valid_name n \<and> bt_get fs i \<noteq> None) \<and>
     (\<forall>n m i. bt_get d n = Some i \<longrightarrow> bt_get d m = Some i \<longrightarrow> n = m)"

definition mem_inv :: "storage_state \<Rightarrow> bool" where
  "mem_inv s \<longleftrightarrow>
     directory_ok (live_directory s) (files s) \<and> directory_ok (durable_directory s) (files s) \<and>
     bt_sorted (files s) \<and> (\<forall>i. bt_get (files s) i \<noteq> None \<longrightarrow> i \<le> next_file_id s)"

definition mem_honest :: "storage_state \<Rightarrow> bool" where
  "mem_honest s \<longleftrightarrow> mem_inv s \<and> read_substitution s = None"

definition mem_healthy :: "storage_state \<Rightarrow> bool" where
  "mem_healthy s \<longleftrightarrow> fail_before s = None \<and> fail_after s = None"

definition mem_file :: "storage_state \<Rightarrow> string \<Rightarrow> memory_file option" where
  "mem_file s n =
     (case bt_get (live_directory s) n of None \<Rightarrow> None | Some i \<Rightarrow> bt_get (files s) i)"

definition mem_view :: "storage_state \<Rightarrow> string \<Rightarrow> vfile option" where
  "mem_view s n =
     map_option (\<lambda>f. \<lparr>v_live = mf_live f, v_synced = mf_durable f,
        v_linked = (bt_get (durable_directory s) n = bt_get (live_directory s) n)\<rparr>) (mem_file s n)"

definition mem_kill_view :: "storage_state \<Rightarrow> string \<Rightarrow> vfile option" where
  "mem_kill_view s n =
     map_option (\<lambda>f. \<lparr>v_live = mf_live f, v_synced = mf_live f, v_linked = True\<rparr>) (mem_file s n)"

definition mem_power_cycle :: "storage_state \<Rightarrow> storage_state" where
  "mem_power_cycle s = mem_clear_faults (mem_crash s)"

text \<open>What an operation that writes one file does, and what a read does.\<close>

definition mem_updates :: "(memory_file \<Rightarrow> memory_file) \<Rightarrow> string \<Rightarrow> memory_file \<Rightarrow> bool \<Rightarrow>
    storage_state \<Rightarrow> io_error + unit \<Rightarrow> storage_state \<Rightarrow> bool" where
  "mem_updates g n f ok s r s' \<longleftrightarrow>
     mem_honest s' \<and> durable_directory s' = durable_directory s \<and>
     live_directory s' = live_directory s \<and>
     (mem_healthy s \<longrightarrow> mem_healthy s' \<and> (ok \<longrightarrow> r = Inr ())) \<and>
     ((\<exists>e. r = Inl e) \<and> mem_file s' = mem_file s \<or> mem_file s' = (mem_file s)(n \<mapsto> g f))"

definition mem_same :: "storage_state \<Rightarrow> storage_state \<Rightarrow> bool" where
  "mem_same s s' \<longleftrightarrow> (\<exists>ops. s' = s\<lparr>operations := ops\<rparr>)"

section \<open>Lemmas: single operations\<close>

lemmas mem_steps = io_bind_def io_result_def io_return_def io_fail_def mem_begin_def mem_finish_def
  mem_file_id_def mem_get_file_def mem_put_file_def validate_name_def Let_def

lemma mem_file_Some:
  "mem_file s n = Some f \<longleftrightarrow>
     (\<exists>i. bt_get (live_directory s) n = Some i \<and> bt_get (files s) i = Some f)"
  by (auto simp: mem_file_def split: option.splits)

lemma directory_okD:
  "directory_ok d fs \<Longrightarrow> bt_get d n = Some i \<Longrightarrow> valid_name n \<and> bt_get fs i \<noteq> None"
  by (simp add: directory_ok_def)

lemma directory_ok_inj:
  "directory_ok d fs \<Longrightarrow> bt_get d n = Some i \<Longrightarrow> bt_get d m = Some i \<Longrightarrow> n = m"
  unfolding directory_ok_def by blast

lemma directory_ok_mono:
  assumes "directory_ok d fs" and "\<And>n i. bt_get d n = Some i \<Longrightarrow> bt_get fs i \<noteq> None \<Longrightarrow> bt_get fs' i \<noteq> None"
  shows "directory_ok d fs'"
  using assms unfolding directory_ok_def by blast

lemma mem_inv_cong:
  "mem_inv s \<Longrightarrow> live_directory s' = live_directory s \<Longrightarrow> durable_directory s' = durable_directory s \<Longrightarrow>
   files s' = files s \<Longrightarrow> next_file_id s' = next_file_id s \<Longrightarrow> mem_inv s'"
  by (simp add: mem_inv_def)

text \<open>Replacing the contents of one existing file.\<close>

lemma mem_inv_put:
  assumes "mem_inv s" and "bt_get (files s) i = Some f0"
  shows "mem_inv (s\<lparr>files := bt_insert i f (files s)\<rparr>)"
proof -
  have sorted: "bt_sorted (files s)" using assms(1) by (simp add: mem_inv_def)
  then have "directory_ok d (files s) \<Longrightarrow> directory_ok d (bt_insert i f (files s))" for d
    using directory_ok_mono [of d "files s" "bt_insert i f (files s)"] by simp
  with sorted show ?thesis using assms by (simp add: mem_inv_def)
qed

lemma mem_file_put:
  assumes "mem_inv s" and "bt_get (live_directory s) n = Some i"
  shows "mem_file (s\<lparr>files := bt_insert i f (files s)\<rparr>) = (mem_file s)(n \<mapsto> f)"
proof
  fix m
  have "bt_sorted (files s)" and "directory_ok (live_directory s) (files s)"
    using assms(1) by (simp_all add: mem_inv_def)
  moreover from this(2) have "m \<noteq> n \<Longrightarrow> bt_get (live_directory s) m \<noteq> Some i"
    using directory_ok_inj [OF _ _ assms(2)] by blast
  ultimately show "mem_file (s\<lparr>files := bt_insert i f (files s)\<rparr>) m = ((mem_file s)(n \<mapsto> f)) m"
    using assms(2) by (cases "m = n") (simp_all add: mem_file_def split: option.split)
qed

lemma mem_update_cases:
  assumes inv: "mem_honest s" and f: "mem_file s n = Some f"
    and run: "io_bind (mem_begin op) (\<lambda>position.
       io_bind (io_result (validate_name n)) (\<lambda>_.
       io_bind (mem_file_id n) (\<lambda>i. io_bind (mem_get_file i) (\<lambda>f.
       io_bind (mem_put_file i (g f)) (\<lambda>_. mem_finish position))))) s = (r, s')"
  shows "mem_honest s' \<and> durable_directory s' = durable_directory s \<and>
     live_directory s' = live_directory s \<and>
     (mem_healthy s \<longrightarrow> mem_healthy s' \<and> r = Inr ()) \<and>
     ((\<exists>e. r = Inl e) \<and> mem_file s' = mem_file s \<or> mem_file s' = (mem_file s)(n \<mapsto> g f))"
proof -
  let ?s = "s\<lparr>operations := operations s @ [op]\<rparr>"
  obtain i where i: "bt_get (live_directory s) n = Some i" "bt_get (files s) i = Some f"
    using f by (auto simp: mem_file_Some)
  have h: "mem_inv ?s" "read_substitution s = None"
    using inv mem_inv_cong [of s ?s] by (auto simp: mem_honest_def)
  have name: "valid_name n" using directory_okD [of "live_directory s" "files s" n i] inv i
    by (simp add: mem_honest_def mem_inv_def)
  have put: "mem_inv (?s\<lparr>files := bt_insert i (g f) (files ?s)\<rparr>)"
    "mem_file (?s\<lparr>files := bt_insert i (g f) (files ?s)\<rparr>) = (mem_file ?s)(n \<mapsto> g f)"
    by (rule mem_inv_put [OF h(1)], simp add: i) (rule mem_file_put [OF h(1)], simp add: i)
  have same: "mem_file ?s = mem_file s" by (simp add: mem_file_def fun_eq_iff split: option.split)
  from run i name have "s' = ?s \<and> (\<exists>e. r = Inl e) \<and> \<not> mem_healthy s \<or>
      s' = ?s\<lparr>files := bt_insert i (g f) (files ?s)\<rparr> \<and> (mem_healthy s \<longrightarrow> r = Inr ())"
    by (auto simp: mem_steps mem_healthy_def split: if_splits)
  then show ?thesis
  proof (elim disjE conjE)
    assume "s' = ?s" "\<exists>e. r = Inl e" "\<not> mem_healthy s"
    then show ?thesis using h same by (simp add: mem_honest_def)
  next
    assume "s' = ?s\<lparr>files := bt_insert i (g f) (files ?s)\<rparr>" "mem_healthy s \<longrightarrow> r = Inr ()"
    then show ?thesis using h put unfolding same by (simp add: mem_honest_def mem_healthy_def)
  qed
qed

lemma mem_sameD:
  assumes "mem_same s s'"
  shows "mem_file s' = mem_file s" and "durable_directory s' = durable_directory s"
    and "live_directory s' = live_directory s" and "mem_honest s' = mem_honest s"
    and "mem_healthy s' = mem_healthy s"
  using assms
  by (auto simp: mem_same_def mem_file_def fun_eq_iff mem_honest_def mem_healthy_def mem_inv_def
      split: option.split)

lemma mem_set_len_updates:
  assumes "mem_honest s" and "mem_file s n = Some f" and "mem_set_len n len s = (r, s')"
  shows "mem_updates (\<lambda>f. f\<lparr>mf_live := resize (mf_live f) (unat len)\<rparr>) n f True s r s'"
  using mem_update_cases [OF assms(1,2) assms(3) [unfolded mem_set_len_def]]
  by (simp add: mem_updates_def)

lemma mem_sync_file_updates:
  assumes "mem_honest s" and "mem_file s n = Some f" and "mem_sync_file n s = (r, s')"
  shows "mem_updates (\<lambda>f. f\<lparr>mf_durable := mf_live f\<rparr>) n f True s r s'"
  using mem_update_cases [OF assms(1,2) assms(3) [unfolded mem_sync_file_def]]
  by (simp add: mem_updates_def)

lemma mem_write_at_updates:
  assumes "mem_honest s" and "mem_file s n = Some f" and run: "mem_write_at n off bs s = (r, s')"
  shows "mem_updates (\<lambda>f. f\<lparr>mf_live := overwrite (mf_live f) (unat off) bs\<rparr>) n f
           (unat off + length bs < 2 ^ 64) s r s'"
proof (cases "unat off + length bs < 2 ^ 64")
  case True
  then have end_ok: "usize_checked_add (unat off) (length bs) = Some (unat off + length bs)"
    by (simp add: usize_checked_add_def)
  then have "io_bind (mem_begin WriteAt) (\<lambda>position.
       io_bind (io_result (validate_name n)) (\<lambda>_.
       io_bind (mem_file_id n) (\<lambda>i. io_bind (mem_get_file i) (\<lambda>f.
       io_bind (mem_put_file i (f\<lparr>mf_live := overwrite (mf_live f) (unat off) bs\<rparr>))
         (\<lambda>_. mem_finish position))))) s = (r, s')"
    using run unfolding mem_write_at_def end_ok by simp
  from mem_update_cases [OF assms(1,2) this] True
  show ?thesis by (simp add: mem_updates_def)
next
  case False
  then have "usize_checked_add (unat off) (length bs) = None" by (simp add: usize_checked_add_def)
  then have "mem_same s s' \<and> (\<exists>e. r = Inl e)"
    using run by (auto simp: mem_write_at_def mem_steps mem_same_def split: if_splits)
  with False assms(1) show ?thesis by (auto simp: mem_updates_def mem_sameD)
qed

lemma mem_known_name: "mem_honest s \<Longrightarrow> mem_file s n = Some f \<Longrightarrow> valid_name n"
  by (auto simp: mem_file_Some mem_honest_def mem_inv_def dest: directory_okD)

lemma mem_absent: "mem_honest s \<Longrightarrow> mem_file s n = None \<longleftrightarrow> bt_get (live_directory s) n = None"
  by (auto simp: mem_file_def mem_honest_def mem_inv_def dest: directory_okD split: option.splits)

lemma mem_read_effect:
  assumes "mem_honest s" and "mem_file s n = Some f" and run: "mem_read n s = (r, s')"
  shows "mem_same s s' \<and> (mem_healthy s \<longrightarrow> r = Inr (mf_live f)) \<and> (\<forall>x. r = Inr x \<longrightarrow> x = mf_live f)"
  using assms mem_known_name [OF assms(1,2)]
  by (auto simp: mem_read_def mem_steps mem_same_def mem_file_Some mem_healthy_def mem_honest_def
      split: if_splits)

lemma mem_object_len_effect:
  assumes "mem_honest s" and "mem_file s n = Some f" and run: "mem_object_len n s = (r, s')"
  shows "mem_same s s' \<and> r \<noteq> Inl NotFound \<and>
     (mem_healthy s \<and> length (mf_live f) < 2 ^ 64 \<longrightarrow> (\<exists>x. r = Inr x)) \<and>
     (\<forall>x. r = Inr x \<longrightarrow> unat x = length (mf_live f))"
  using assms mem_known_name [OF assms(1,2)]
  by (auto simp: mem_object_len_def mem_steps mem_same_def mem_file_Some mem_healthy_def
      u64_try_from_def ok_or_def unsigned_of_nat take_bit_nat_eq_self split: if_splits)

lemma mem_object_len_absent:
  assumes "mem_honest s" and "mem_file s n = None" and run: "mem_object_len n s = (r, s')"
  shows "mem_same s s' \<and> (\<exists>e. r = Inl e)"
  using assms mem_absent [OF assms(1), of n]
  by (auto simp: mem_object_len_def mem_steps mem_same_def split: if_splits)

lemma mem_read_exact_at_effect:
  assumes "mem_honest s" and "mem_file s n = Some f" and run: "mem_read_exact_at n off k s = (r, s')"
  shows "mem_same s s' \<and>
     (mem_healthy s \<and> k \<le> MAX_STORAGE_RANGE_BYTES \<and> unat off + k \<le> length (mf_live f) \<and>
      length (mf_live f) < 2 ^ 64 \<longrightarrow> (\<exists>x. r = Inr x)) \<and>
     (\<forall>x. r = Inr x \<longrightarrow> unat off + k \<le> length (mf_live f) \<and> x = slice (unat off) k (mf_live f))"
  using assms mem_known_name [OF assms(1,2)]
  by (auto simp: mem_read_exact_at_def mem_steps mem_same_def mem_file_Some mem_healthy_def
      mem_honest_def usize_checked_add_def split: if_splits)

lemma mem_exists_effect:
  assumes "mem_honest s" and run: "mem_exists n s = (r, s')"
  shows "mem_same s s' \<and> (mem_healthy s \<longrightarrow> mem_file s n \<noteq> None \<longrightarrow> r = Inr True) \<and>
     (\<forall>b. r = Inr b \<longrightarrow> b = (mem_file s n \<noteq> None))"
  using run mem_absent [OF assms(1), of n] mem_known_name [OF assms(1), of n]
  by (auto simp: mem_exists_def mem_steps mem_same_def mem_healthy_def bt_contains_iff
      split: if_splits)

lemma mem_list_names_effect:
  assumes "mem_honest s" and run: "mem_list_names s = (r, s')"
  shows "mem_same s s' \<and> (mem_healthy s \<longrightarrow> (\<exists>x. r = Inr x))"
  using run by (auto simp: mem_list_names_def mem_steps mem_same_def mem_healthy_def split: if_splits)

section \<open>Lemmas: directory operations and crashes\<close>

lemma checked_add_1_less: "checked_add a 1 = Some b \<Longrightarrow> a < b" for a :: u64
  using checked_add_unat [of a 1 b] by (simp add: word_less_nat_alt)

lemma directory_ok_insert:
  assumes "directory_ok d fs" and "valid_name n" and "bt_get fs' i \<noteq> None"
    and "\<And>m. bt_get d m = Some i \<Longrightarrow> m = n"
    and "\<And>j. bt_get fs j \<noteq> None \<Longrightarrow> bt_get fs' j \<noteq> None"
  shows "directory_ok (bt_insert n i d) fs'"
  using assms unfolding directory_ok_def by (auto split: if_splits)

lemma directory_ok_remove: "directory_ok d fs \<Longrightarrow> directory_ok (bt_remove n d) fs"
  unfolding directory_ok_def by (auto split: if_splits)

lemma mem_inv_create:
  assumes inv: "mem_inv s" and "bt_get (live_directory s) n = None" and "valid_name n"
    and i: "checked_add (next_file_id s) 1 = Some i"
  shows "mem_inv (s\<lparr>next_file_id := i, files := bt_insert i f (files s),
            live_directory := bt_insert n i (live_directory s)\<rparr>)"
    and "mem_file (s\<lparr>next_file_id := i, files := bt_insert i f (files s),
            live_directory := bt_insert n i (live_directory s)\<rparr>) = (mem_file s)(n \<mapsto> f)"
proof -
  let ?s = "s\<lparr>next_file_id := i, files := bt_insert i f (files s),
            live_directory := bt_insert n i (live_directory s)\<rparr>"
  have lt: "next_file_id s < i" by (rule checked_add_1_less [OF i])
  have old: "bt_get (files s) j \<noteq> None \<Longrightarrow> j \<le> next_file_id s" for j
    using inv by (simp add: mem_inv_def)
  then have fresh: "bt_get (files s) i = None" using lt by (meson leD option.distinct(1))
  have dirs: "directory_ok (live_directory s) (files s)" "directory_ok (durable_directory s) (files s)"
    and sorted: "bt_sorted (files s)" "bt_sorted (live_directory s)"
    using inv by (auto simp: mem_inv_def directory_ok_def)
  have unused: "bt_get (live_directory s) m \<noteq> Some i" for m
    using directory_okD [OF dirs(1), of m i] fresh by auto
  have "directory_ok (durable_directory s) (bt_insert i f (files s))"
    by (rule directory_ok_mono [OF dirs(2)]) (simp add: sorted)
  moreover have "directory_ok (bt_insert n i (live_directory s)) (bt_insert i f (files s))"
    by (rule directory_ok_insert [OF dirs(1) assms(3)]) (simp_all add: sorted unused)
  ultimately show "mem_inv ?s"
    using old lt sorted by (auto simp: mem_inv_def intro: less_imp_le order.trans)
  show "mem_file ?s = (mem_file s)(n \<mapsto> f)"
    using sorted unused by (auto simp: mem_file_def fun_eq_iff split: option.split)
qed

lemma mem_create_new_effect:
  assumes "mem_honest s" and "mem_file s n = None" and run: "mem_create_new n s = (r, s')"
  shows "mem_honest s' \<and> durable_directory s' = durable_directory s \<and>
     (mem_healthy s \<longrightarrow> mem_healthy s') \<and>
     ((\<exists>e. r = Inl e) \<and> live_directory s' = live_directory s \<and> mem_file s' = mem_file s \<or>
      (\<exists>i. live_directory s' = bt_insert n i (live_directory s)) \<and>
      mem_file s' = (mem_file s)(n \<mapsto> \<lparr>mf_live = [], mf_durable = []\<rparr>))"
proof -
  let ?s = "s\<lparr>operations := operations s @ [CreateNew]\<rparr>"
  have absent: "bt_get (live_directory s) n = None" using assms(1,2) mem_absent by blast
  have same: "mem_same s ?s" by (auto simp: mem_same_def)
  then have inv: "mem_inv ?s" and honest: "mem_honest ?s"
    using assms(1) by (simp_all add: mem_sameD mem_honest_def) (simp_all add: mem_inv_def)
  from run absent consider
      (fail) "s' = ?s" "\<exists>e. r = Inl e"
    | (ok) i where "checked_add (next_file_id ?s) 1 = Some i" "valid_name n"
        "s' = ?s\<lparr>next_file_id := i, files := bt_insert i \<lparr>mf_live = [], mf_durable = []\<rparr> (files ?s),
            live_directory := bt_insert n i (live_directory ?s)\<rparr>"
    by (auto simp: mem_create_new_def mem_steps mem_allocate_file_id_def bt_contains_iff
        split: if_splits option.splits)
  then show ?thesis
  proof cases
    case fail
    then show ?thesis using honest mem_sameD [OF same] by simp
  next
    case (ok i)
    have "mem_inv s'" "mem_file s' = (mem_file ?s)(n \<mapsto> \<lparr>mf_live = [], mf_durable = []\<rparr>)"
      unfolding ok(3) by (rule mem_inv_create [OF inv _ ok(2,1)], simp add: absent)+
    then show ?thesis
      using ok(3) honest mem_sameD [OF same] by (auto simp: mem_honest_def mem_healthy_def)
  qed
qed

lemma mem_sync_root_effect:
  assumes "mem_honest s" and run: "mem_sync_root s = (r, s')"
  shows "mem_honest s' \<and> (mem_healthy s \<longrightarrow> mem_healthy s' \<and> r = Inr ()) \<and>
     live_directory s' = live_directory s \<and> mem_file s' = mem_file s \<and>
     ((\<exists>e. r = Inl e) \<and> durable_directory s' = durable_directory s \<or>
      durable_directory s' = live_directory s)"
  using assms
  by (auto simp: mem_sync_root_def mem_steps mem_honest_def mem_inv_def mem_healthy_def mem_file_def
      fun_eq_iff split: if_splits option.splits)

text \<open>The publishing operations keep the invariant as well.\<close>

lemma mem_inv_publish:
  assumes inv: "mem_inv s" and "bt_get (live_directory s) old = Some i" and "valid_name new"
  shows "mem_inv (s\<lparr>live_directory := bt_insert new i (bt_remove old (live_directory s))\<rparr>)"
proof -
  have dir: "directory_ok (live_directory s) (files s)" using inv by (simp add: mem_inv_def)
  have "directory_ok (bt_insert new i (bt_remove old (live_directory s))) (files s)"
  proof (rule directory_ok_insert [OF directory_ok_remove [OF dir] assms(3)])
    show "bt_get (files s) i \<noteq> None" using directory_okD [OF dir assms(2)] by simp
    show "m = new" if "bt_get (bt_remove old (live_directory s)) m = Some i" for m
      using that directory_ok_inj [OF dir assms(2), of m] by (auto split: if_splits)
  qed simp
  then show ?thesis using inv by (simp add: mem_inv_def)
qed

lemma mem_inv_remove:
  "mem_inv s \<Longrightarrow> mem_inv (s\<lparr>live_directory := bt_remove n (live_directory s)\<rparr>)"
  by (simp add: mem_inv_def directory_ok_remove)

lemma mem_crash_fields:
  "live_directory (mem_crash s) = durable_directory s"
  "durable_directory (mem_crash s) = durable_directory s"
  "next_file_id (mem_crash s) = next_file_id s"
  "bt_get (files (mem_crash s)) i =
     (if i \<in> set (map snd (durable_directory s))
      then map_option (\<lambda>f. f\<lparr>mf_live := mf_durable f\<rparr>) (bt_get (files s) i) else None)"
  "bt_sorted (files s) \<Longrightarrow> bt_sorted (files (mem_crash s))"
  "read_substitution (mem_crash s) = read_substitution s"
  by (simp_all add: mem_crash_def Let_def)

lemma mem_inv_crash:
  assumes "mem_inv s"
  shows "mem_inv (mem_crash s)"
proof -
  have dir: "directory_ok (durable_directory s) (files s)" using assms by (simp add: mem_inv_def)
  have "directory_ok (durable_directory s) (files (mem_crash s))"
    by (rule directory_ok_mono [OF dir]) (use bt_get_mem in \<open>fastforce simp: mem_crash_fields\<close>)
  with assms show ?thesis
    by (auto simp: mem_inv_def mem_crash_fields split: if_splits)
qed

lemma mem_file_crash:
  "mem_file (mem_crash s) n =
     (case bt_get (durable_directory s) n of
        None \<Rightarrow> None
      | Some i \<Rightarrow> map_option (\<lambda>f. f\<lparr>mf_live := mf_durable f\<rparr>) (bt_get (files s) i))"
  using bt_get_mem [of "durable_directory s" n]
  by (auto simp: mem_file_def mem_crash_fields split: option.split)

section \<open>The contract, for power loss and for a killed process\<close>

lemma mem_view_Some:
  "mem_view s n = Some v \<longleftrightarrow>
     (\<exists>f. mem_file s n = Some f \<and> v = \<lparr>v_live = mf_live f, v_synced = mf_durable f,
        v_linked = (bt_get (durable_directory s) n = bt_get (live_directory s) n)\<rparr>)"
  by (auto simp: mem_view_def)

lemma mem_kill_view_Some:
  "mem_kill_view s n = Some v \<longleftrightarrow>
     (\<exists>f. mem_file s n = Some f \<and> v = \<lparr>v_live = mf_live f, v_synced = mf_live f, v_linked = True\<rparr>)"
  by (auto simp: mem_kill_view_def)

lemma mem_view_None [simp]:
  "mem_view s n = None \<longleftrightarrow> mem_file s n = None" "mem_kill_view s n = None \<longleftrightarrow> mem_file s n = None"
  by (simp_all add: mem_view_def mem_kill_view_def)

lemma mem_views_update:
  assumes "mem_file s' = (mem_file s)(n \<mapsto> f)" and "durable_directory s' = durable_directory s"
    and "live_directory s' = live_directory s"
  shows "mem_view s' = (mem_view s)(n \<mapsto> \<lparr>v_live = mf_live f, v_synced = mf_durable f,
           v_linked = (bt_get (durable_directory s) n = bt_get (live_directory s) n)\<rparr>)"
    and "mem_kill_view s' = (mem_kill_view s)(n \<mapsto>
           \<lparr>v_live = mf_live f, v_synced = mf_live f, v_linked = True\<rparr>)"
  using assms by (auto simp: mem_view_def mem_kill_view_def fun_eq_iff)

lemma mem_views_cong:
  assumes "mem_file s' = mem_file s" and "durable_directory s' = durable_directory s"
    and "live_directory s' = live_directory s"
  shows "mem_view s' = mem_view s" and "mem_kill_view s' = mem_kill_view s"
  using assms by (auto simp: mem_view_def mem_kill_view_def fun_eq_iff)

lemma mem_same_views:
  "mem_same s s' \<Longrightarrow> mem_view s' = mem_view s" "mem_same s s' \<Longrightarrow> mem_kill_view s' = mem_kill_view s"
  by (rule mem_views_cong; simp add: mem_sameD)+

lemma mem_updates_laws:
  assumes upd: "mem_updates g n f ok s r s'" and f: "mem_file s n = Some f"
  shows "mem_view s n = Some v \<Longrightarrow> P (v\<lparr>v_live := mf_live (g f), v_synced := mf_durable (g f)\<rparr>) \<Longrightarrow>
      mem_honest s' \<and> (mem_healthy s \<longrightarrow> mem_healthy s' \<and> (ok \<longrightarrow> r = Inr ())) \<and>
      ((\<exists>e. r = Inl e) \<and> mem_view s' = mem_view s \<or>
       (\<exists>v'. P v' \<and> mem_view s' = (mem_view s)(n \<mapsto> v')))" (is "_ \<Longrightarrow> _ \<Longrightarrow> ?power")
    and "mem_kill_view s n = Some v \<Longrightarrow> P (v\<lparr>v_live := mf_live (g f), v_synced := mf_live (g f)\<rparr>) \<Longrightarrow>
      mem_honest s' \<and> (mem_healthy s \<longrightarrow> mem_healthy s' \<and> (ok \<longrightarrow> r = Inr ())) \<and>
      ((\<exists>e. r = Inl e) \<and> mem_kill_view s' = mem_kill_view s \<or>
       (\<exists>v'. P v' \<and> mem_kill_view s' = (mem_kill_view s)(n \<mapsto> v')))" (is "_ \<Longrightarrow> _ \<Longrightarrow> ?kill")
proof -
  have dirs: "durable_directory s' = durable_directory s" "live_directory s' = live_directory s"
    and base: "mem_honest s' \<and> (mem_healthy s \<longrightarrow> mem_healthy s' \<and> (ok \<longrightarrow> r = Inr ()))"
    and files: "(\<exists>e. r = Inl e) \<and> mem_file s' = mem_file s \<or> mem_file s' = (mem_file s)(n \<mapsto> g f)"
    using upd by (simp_all add: mem_updates_def)
  show ?power if v: "mem_view s n = Some v"
    and P: "P (v\<lparr>v_live := mf_live (g f), v_synced := mf_durable (g f)\<rparr>)"
  proof -
    have "v\<lparr>v_live := mf_live (g f), v_synced := mf_durable (g f)\<rparr> =
        \<lparr>v_live = mf_live (g f), v_synced = mf_durable (g f),
         v_linked = (bt_get (durable_directory s) n = bt_get (live_directory s) n)\<rparr>"
      using v f by (auto simp: mem_view_Some)
    then show ?thesis
      using files base P mem_views_update(1) [OF _ dirs] mem_views_cong(1) [OF _ dirs] by metis
  qed
  show ?kill if v: "mem_kill_view s n = Some v"
    and P: "P (v\<lparr>v_live := mf_live (g f), v_synced := mf_live (g f)\<rparr>)"
  proof -
    have "v\<lparr>v_live := mf_live (g f), v_synced := mf_live (g f)\<rparr> =
        \<lparr>v_live = mf_live (g f), v_synced = mf_live (g f), v_linked = True\<rparr>"
      using v f by (auto simp: mem_kill_view_Some)
    then show ?thesis
      using files base P mem_views_update(2) [OF _ dirs] mem_views_cong(2) [OF _ dirs] by metis
  qed
qed

lemma mem_views_sync_root:
  assumes "mem_file s' = mem_file s" and "live_directory s' = live_directory s"
    and "durable_directory s' = live_directory s"
  shows "mem_view s' = (\<lambda>n. map_option (\<lambda>v. v\<lparr>v_linked := True\<rparr>) (mem_view s n))"
  using assms by (simp add: mem_view_def fun_eq_iff option.map_comp comp_def)

lemma mem_kill_view_linked:
  "(\<lambda>n. map_option (\<lambda>v. v\<lparr>v_linked := True\<rparr>) (mem_kill_view s n)) = mem_kill_view s"
  by (simp add: mem_kill_view_def fun_eq_iff option.map_comp comp_def)

lemma mem_views_create:
  assumes "mem_honest s" and "mem_file s' = (mem_file s)(n \<mapsto> \<lparr>mf_live = [], mf_durable = []\<rparr>)"
    and "durable_directory s' = durable_directory s"
    and "live_directory s' = bt_insert n i (live_directory s)"
  shows "\<exists>v'. v_live v' = [] \<and> v_synced v' = [] \<and> mem_view s' = (mem_view s)(n \<mapsto> v')"
    and "\<exists>v'. v_live v' = [] \<and> v_synced v' = [] \<and> mem_kill_view s' = (mem_kill_view s)(n \<mapsto> v')"
proof -
  have "bt_sorted (live_directory s)"
    using assms(1) by (simp add: mem_honest_def mem_inv_def directory_ok_def)
  with assms show "\<exists>v'. v_live v' = [] \<and> v_synced v' = [] \<and> mem_view s' = (mem_view s)(n \<mapsto> v')"
    by (intro exI [of _ "\<lparr>v_live = [], v_synced = [],
          v_linked = (bt_get (durable_directory s) n = Some i)\<rparr>"])
      (auto simp: mem_view_def fun_eq_iff)
  from assms show "\<exists>v'. v_live v' = [] \<and> v_synced v' = [] \<and> mem_kill_view s' = (mem_kill_view s)(n \<mapsto> v')"
    by (intro exI [of _ "\<lparr>v_live = [], v_synced = [], v_linked = True\<rparr>"])
      (auto simp: mem_kill_view_def fun_eq_iff)
qed

lemma mem_power_cycle_restart:
  assumes "mem_honest s"
  shows "mem_honest (mem_power_cycle s)" and "mem_healthy (mem_power_cycle s)"
    and "mem_view s n = Some v \<Longrightarrow> v_linked v \<Longrightarrow> mem_view (mem_power_cycle s) n = Some (restarted v)"
proof -
  have crash: "mem_inv (mem_crash s)" using assms mem_inv_crash by (simp add: mem_honest_def)
  have unchanged: "mem_file (mem_power_cycle s) = mem_file (mem_crash s)"
    by (simp add: mem_power_cycle_def mem_clear_faults_def mem_file_def fun_eq_iff split: option.split)
  show "mem_honest (mem_power_cycle s)" "mem_healthy (mem_power_cycle s)"
    using crash assms
    by (simp_all add: mem_power_cycle_def mem_clear_faults_def mem_honest_def mem_inv_def
        mem_crash_fields mem_healthy_def)
  have dirs: "durable_directory (mem_power_cycle s) = durable_directory s"
    "live_directory (mem_power_cycle s) = durable_directory s"
    by (simp_all add: mem_power_cycle_def mem_clear_faults_def mem_crash_fields)
  assume v: "mem_view s n = Some v" "v_linked v"
  then obtain f i where f: "bt_get (live_directory s) n = Some i" "bt_get (files s) i = Some f"
    "bt_get (durable_directory s) n = Some i" "v_synced v = mf_durable f"
    by (auto simp: mem_view_Some mem_file_Some)
  then have "mem_file (mem_power_cycle s) n = Some (f\<lparr>mf_live := mf_durable f\<rparr>)"
    by (simp add: unchanged mem_file_crash)
  with f(4) show "mem_view (mem_power_cycle s) n = Some (restarted v)"
    by (simp add: mem_view_def dirs restarted_def)
qed

lemma mem_kill_restart:
  assumes "mem_honest s"
  shows "mem_honest (mem_clear_faults s)" and "mem_healthy (mem_clear_faults s)"
    and "mem_kill_view s n = Some v \<Longrightarrow> mem_kill_view (mem_clear_faults s) n = Some (restarted v)"
proof -
  show "mem_honest (mem_clear_faults s)" "mem_healthy (mem_clear_faults s)"
    using assms by (simp_all add: mem_clear_faults_def mem_honest_def mem_inv_def mem_healthy_def)
  have "mem_file (mem_clear_faults s) n = mem_file s n"
    by (simp add: mem_clear_faults_def mem_file_def split: option.split)
  then show "mem_kill_view s n = Some v \<Longrightarrow> mem_kill_view (mem_clear_faults s) n = Some (restarted v)"
    by (auto simp: mem_kill_view_def restarted_def)
qed

interpretation power: storage_laws memory_storage mem_honest mem_healthy mem_view mem_power_cycle
proof (unfold_locales, goal_cases)
  case (1 s n v off bs r s')
  then obtain f where f: "mem_file s n = Some f" "v_live v = mf_live f" "v_synced v = mf_durable f"
    by (auto simp: mem_view_Some)
  have run: "mem_write_at n off bs s = (r, s')" using 1 by (simp add: memory_storage_def)
  show ?case
    using mem_updates_laws(1) [OF mem_write_at_updates [OF 1(1) f(1) run] f(1) 1(2),
        where P = "mutated (\<lambda>b. overwrite b (unat off) bs) v"] f
    by (simp add: mutated_def)
next
  case (2 s n v len r s')
  then obtain f where f: "mem_file s n = Some f" "v_live v = mf_live f" "v_synced v = mf_durable f"
    by (auto simp: mem_view_Some)
  have run: "mem_set_len n len s = (r, s')" using 2 by (simp add: memory_storage_def)
  show ?case
    using mem_updates_laws(1) [OF mem_set_len_updates [OF 2(1) f(1) run] f(1) 2(2),
        where P = "mutated (\<lambda>b. resize b (unat len)) v"] f
    by (simp add: mutated_def)
next
  case (3 s n v r s')
  then obtain f where f: "mem_file s n = Some f" "v_live v = mf_live f" "v_synced v = mf_durable f"
    by (auto simp: mem_view_Some)
  have run: "mem_sync_file n s = (r, s')" using 3 by (simp add: memory_storage_def)
  show ?case
    using mem_updates_laws(1) [OF mem_sync_file_updates [OF 3(1) f(1) run] f(1) 3(2),
        where P = "\<lambda>v'. v' = v\<lparr>v_synced := v_live v\<rparr>"] f
    by (simp)
next
  case (4 s n v rb s')
  then obtain f where f: "mem_file s n = Some f" and v: "v_live v = mf_live f"
    by (auto simp: mem_view_Some)
  have run: "mem_read n s = (rb, s')" using 4 by (simp add: memory_storage_def)
  note effect = mem_read_effect [OF 4(1) f run]
  then have same: "mem_same s s'" by blast
  show ?case
    unfolding v mem_same_views(1) [OF same] mem_sameD(4,5) [OF same]
    using effect 4(1) by blast
next
  case (5 s n v rl s')
  then obtain f where f: "mem_file s n = Some f" and v: "v_live v = mf_live f"
    by (auto simp: mem_view_Some)
  have run: "mem_object_len n s = (rl, s')" using 5 by (simp add: memory_storage_def)
  note effect = mem_object_len_effect [OF 5(1) f run]
  then have same: "mem_same s s'" by blast
  show ?case
    unfolding v mem_same_views(1) [OF same] mem_sameD(4,5) [OF same]
    using effect 5(1) by blast
next
  case (6 s n rl s')
  then show ?case
    using mem_object_len_absent [of s n rl s'] by (simp add: memory_storage_def mem_same_views [of s s'] mem_sameD [of s s'])
next
  case (7 s n v off count rb s')
  then obtain f where f: "mem_file s n = Some f" and v: "v_live v = mf_live f"
    by (auto simp: mem_view_Some)
  have run: "mem_read_exact_at n off count s = (rb, s')" using 7 by (simp add: memory_storage_def)
  note effect = mem_read_exact_at_effect [OF 7(1) f run]
  then have same: "mem_same s s'" by blast
  show ?case
    unfolding v mem_same_views(1) [OF same] mem_sameD(4,5) [OF same]
    using effect 7(1) by blast
next
  case (8 s n re s')
  then show ?case
    using mem_exists_effect [of s n re s'] by (simp add: memory_storage_def mem_same_views [of s s'] mem_sameD [of s s'])
next
  case (9 s n r s')
  then have none: "mem_file s n = None" and run: "mem_create_new n s = (r, s')"
    by (simp_all add: memory_storage_def)
  from mem_create_new_effect [OF 9(1) none run] show ?case
    using mem_views_create(1) [OF 9(1)] mem_views_cong(1) [of s' s] by blast
next
  case (10 s r s')
  then have "mem_sync_root s = (r, s')" by (simp add: memory_storage_def)
  from mem_sync_root_effect [OF 10(1) this] show ?case
    using mem_views_sync_root [of s' s] mem_views_cong(1) [of s' s] by blast
next
  case (11 s rn s')
  then show ?case
    using mem_list_names_effect [of s rn s'] by (simp add: memory_storage_def mem_same_views [of s s'] mem_sameD [of s s'])
next
  case (12 s)
  then show ?case using mem_power_cycle_restart by blast
qed

interpretation killed: storage_laws memory_storage mem_honest mem_healthy mem_kill_view mem_clear_faults
proof (unfold_locales, goal_cases)
  case (1 s n v off bs r s')
  then obtain f where f: "mem_file s n = Some f" "v_live v = mf_live f" "v_synced v = mf_live f"
    by (auto simp: mem_kill_view_Some)
  have run: "mem_write_at n off bs s = (r, s')" using 1 by (simp add: memory_storage_def)
  show ?case
    using mem_updates_laws(2) [OF mem_write_at_updates [OF 1(1) f(1) run] f(1) 1(2),
        where P = "mutated (\<lambda>b. overwrite b (unat off) bs) v"] f
    by (simp add: mutated_def)
next
  case (2 s n v len r s')
  then obtain f where f: "mem_file s n = Some f" "v_live v = mf_live f" "v_synced v = mf_live f"
    by (auto simp: mem_kill_view_Some)
  have run: "mem_set_len n len s = (r, s')" using 2 by (simp add: memory_storage_def)
  show ?case
    using mem_updates_laws(2) [OF mem_set_len_updates [OF 2(1) f(1) run] f(1) 2(2),
        where P = "mutated (\<lambda>b. resize b (unat len)) v"] f
    by (simp add: mutated_def)
next
  case (3 s n v r s')
  then obtain f where f: "mem_file s n = Some f" "v_live v = mf_live f" "v_synced v = mf_live f"
    by (auto simp: mem_kill_view_Some)
  have run: "mem_sync_file n s = (r, s')" using 3 by (simp add: memory_storage_def)
  show ?case
    using mem_updates_laws(2) [OF mem_sync_file_updates [OF 3(1) f(1) run] f(1) 3(2),
        where P = "\<lambda>v'. v' = v\<lparr>v_synced := v_live v\<rparr>"] f
    by (simp)
next
  case (4 s n v rb s')
  then obtain f where f: "mem_file s n = Some f" and v: "v_live v = mf_live f"
    by (auto simp: mem_kill_view_Some)
  have run: "mem_read n s = (rb, s')" using 4 by (simp add: memory_storage_def)
  note effect = mem_read_effect [OF 4(1) f run]
  then have same: "mem_same s s'" by blast
  show ?case
    unfolding v mem_same_views(2) [OF same] mem_sameD(4,5) [OF same]
    using effect 4(1) by blast
next
  case (5 s n v rl s')
  then obtain f where f: "mem_file s n = Some f" and v: "v_live v = mf_live f"
    by (auto simp: mem_kill_view_Some)
  have run: "mem_object_len n s = (rl, s')" using 5 by (simp add: memory_storage_def)
  note effect = mem_object_len_effect [OF 5(1) f run]
  then have same: "mem_same s s'" by blast
  show ?case
    unfolding v mem_same_views(2) [OF same] mem_sameD(4,5) [OF same]
    using effect 5(1) by blast
next
  case (6 s n rl s')
  then show ?case
    using mem_object_len_absent [of s n rl s'] by (simp add: memory_storage_def mem_same_views [of s s'] mem_sameD [of s s'])
next
  case (7 s n v off count rb s')
  then obtain f where f: "mem_file s n = Some f" and v: "v_live v = mf_live f"
    by (auto simp: mem_kill_view_Some)
  have run: "mem_read_exact_at n off count s = (rb, s')" using 7 by (simp add: memory_storage_def)
  note effect = mem_read_exact_at_effect [OF 7(1) f run]
  then have same: "mem_same s s'" by blast
  show ?case
    unfolding v mem_same_views(2) [OF same] mem_sameD(4,5) [OF same]
    using effect 7(1) by blast
next
  case (8 s n re s')
  then show ?case
    using mem_exists_effect [of s n re s'] by (simp add: memory_storage_def mem_same_views [of s s'] mem_sameD [of s s'])
next
  case (9 s n r s')
  then have none: "mem_file s n = None" and run: "mem_create_new n s = (r, s')"
    by (simp_all add: memory_storage_def)
  from mem_create_new_effect [OF 9(1) none run] show ?case
    using mem_views_create(2) [OF 9(1)] mem_views_cong(2) [of s' s] by blast
next
  case (10 s r s')
  then have "mem_sync_root s = (r, s')" by (simp add: memory_storage_def)
  from mem_sync_root_effect [OF 10(1) this] show ?case
    unfolding mem_kill_view_linked by (auto simp: mem_kill_view_def)
next
  case (11 s rn s')
  then show ?case
    using mem_list_names_effect [of s rn s'] by (simp add: memory_storage_def mem_same_views [of s s'] mem_sameD [of s s'])
next
  case (12 s)
  then show ?case using mem_kill_restart by blast
qed

text \<open>Both views ignore the fault plan and start empty, so histories on the in-memory storage can be
  analysed for both kinds of restart at once.\<close>

lemma mem_honest_faults [simp]: "mem_honest (s\<lparr>fail_before := fb, fail_after := fa\<rparr>) = mem_honest s"
  by (simp add: mem_honest_def mem_inv_def)

lemma mem_honest_new [simp]: "mem_honest mem_new"
  by (simp add: mem_honest_def mem_inv_def directory_ok_def mem_new_def mem_configured_def)

lemma mem_file_faults [simp]: "mem_file (s\<lparr>fail_before := fb, fail_after := fa\<rparr>) = mem_file s"
  by (simp add: mem_file_def fun_eq_iff split: option.split)

lemma mem_file_new [simp]: "mem_file mem_new = (\<lambda>_. None)"
  by (simp add: mem_file_def mem_new_def mem_configured_def fun_eq_iff)

text \<open>The operations as equations, to run them on a concrete storage.\<close>

lemmas mem_eval = memory_storage_def mem_create_new_def mem_exists_def mem_set_len_def mem_sync_file_def
  mem_sync_root_def mem_list_names_def mem_begin_def mem_finish_def mem_allocate_file_id_def mem_file_id_def mem_get_file_def
  mem_put_file_def validate_name_def valid_name_def io_bind_def io_from_def map_err_def io_result_def
  io_return_def io_fail_def ok_or_def mem_new_def mem_configured_def checked_add_def
  bt_contains_def bt_get_def less_list_code less_char_def mem_healthy_def Let_def

locale memory_laws = storage_laws memory_storage mem_honest mem_healthy view restart
  for view and restart +
  assumes view_faults: "view (s\<lparr>fail_before := fb, fail_after := fa\<rparr>) = view s"
    and view_new: "view mem_new = (\<lambda>_. None)"

interpretation power_run: memory_laws mem_view mem_power_cycle
  by unfold_locales (simp_all add: mem_view_def fun_eq_iff)

interpretation kill_run: memory_laws mem_kill_view mem_clear_faults
  by unfold_locales (simp_all add: mem_kill_view_def fun_eq_iff)

end
