(* ===== verification/Memory_Run.thy ===== *)
theory Memory_Run
  imports Memory_Storage
begin

text \<open>
  Every state of \<open>MemoryStorageIo\<close> (\<open>crates/fastdup-testkit/src/lib.rs\<close>) that any sequence of its
  operations reaches, with faults, torn writes and crashes at any point, satisfies the invariant
  \<open>mem_inv\<close> that the contracts of \<open>Memory_Storage\<close> start from.
\<close>

inductive mem_reachable :: "storage_state \<Rightarrow> bool" where
  "mem_reachable (mem_configured before after substitution)"
| "mem_reachable s \<Longrightarrow> mem_reachable (snd (mem_create_new n s))"
| "mem_reachable s \<Longrightarrow> mem_reachable (snd (mem_exists n s))"
| "mem_reachable s \<Longrightarrow> mem_reachable (snd (mem_write_at n off bs s))"
| "mem_reachable s \<Longrightarrow> mem_reachable (snd (mem_read n s))"
| "mem_reachable s \<Longrightarrow> mem_reachable (snd (mem_object_len n s))"
| "mem_reachable s \<Longrightarrow> mem_reachable (snd (mem_read_exact_at n off count s))"
| "mem_reachable s \<Longrightarrow> mem_reachable (snd (mem_list_names s))"
| "mem_reachable s \<Longrightarrow> mem_reachable (snd (mem_set_len n len s))"
| "mem_reachable s \<Longrightarrow> mem_reachable (snd (mem_sync_file n s))"
| "mem_reachable s \<Longrightarrow> mem_reachable (snd (mem_publish_noreplace n m s))"
| "mem_reachable s \<Longrightarrow> mem_reachable (snd (mem_remove_file n s))"
| "mem_reachable s \<Longrightarrow> mem_reachable (snd (mem_sync_root s))"
| "mem_reachable s \<Longrightarrow> mem_reachable (snd (mem_inject_durable_torn_write n retained s))"
| "mem_reachable s \<Longrightarrow> mem_reachable (mem_crash s)"
| "mem_reachable s \<Longrightarrow> mem_reachable (mem_clear_faults s)"
| "mem_reachable s \<Longrightarrow> mem_reachable (mem_arm_failpoint late position s)"

section \<open>Lemmas\<close>

lemma mem_inv_fields [simp]:
  "mem_inv (s\<lparr>operations := ops\<rparr>) = mem_inv s"
  "mem_inv (s\<lparr>fail_before := fb\<rparr>) = mem_inv s"
  "mem_inv (s\<lparr>fail_after := fa\<rparr>) = mem_inv s"
  by (simp_all add: mem_inv_def)

lemma mem_inv_sync_root:
  "mem_inv s \<Longrightarrow> mem_inv (s\<lparr>operations := ops, durable_directory := live_directory s\<rparr>)"
  by (simp add: mem_inv_def)

lemma mem_inv_put_logged:
  "mem_inv s \<Longrightarrow> bt_get (files s) i = Some f0 \<Longrightarrow>
   mem_inv (s\<lparr>operations := ops, files := bt_insert i f (files s)\<rparr>)"
  using mem_inv_put [of s i f0 f] by (simp add: mem_inv_def)

lemma mem_inv_create_logged:
  "mem_inv s \<Longrightarrow> bt_get (live_directory s) n = None \<Longrightarrow> valid_name n \<Longrightarrow>
   checked_add (next_file_id s) 1 = Some i \<Longrightarrow>
   mem_inv (s\<lparr>operations := ops, next_file_id := i, files := bt_insert i f (files s),
     live_directory := bt_insert n i (live_directory s)\<rparr>)"
  using mem_inv_create(1) [of s n i f] by (simp add: mem_inv_def)

lemma mem_inv_publish_logged:
  "mem_inv s \<Longrightarrow> bt_get (live_directory s) old = Some i \<Longrightarrow> valid_name new \<Longrightarrow>
   mem_inv (s\<lparr>operations := ops, live_directory := bt_insert new i (bt_remove old (live_directory s))\<rparr>)"
  using mem_inv_publish [of s old i new] by (simp add: mem_inv_def)

lemma mem_inv_remove_logged:
  "mem_inv s \<Longrightarrow> mem_inv (s\<lparr>operations := ops, live_directory := bt_remove n (live_directory s)\<rparr>)"
  using mem_inv_remove [of s n] by (simp add: mem_inv_def)

lemmas mem_inv_updates = mem_inv_put mem_inv_put_logged mem_inv_create_logged mem_inv_publish_logged
  mem_inv_remove_logged mem_inv_sync_root

lemma mem_writes_inv:
  assumes "mem_inv s"
  shows "mem_inv (snd (mem_write_at n off bs s))" "mem_inv (snd (mem_set_len n len s))"
    "mem_inv (snd (mem_sync_file n s))"
  using assms
  by (auto simp: mem_write_at_def mem_set_len_def mem_sync_file_def mem_steps ok_or_def
      intro: mem_inv_updates split: option.split)

lemma mem_reads_inv:
  assumes "mem_inv s"
  shows "mem_inv (snd (mem_exists n s))" "mem_inv (snd (mem_read n s))" "mem_inv (snd (mem_object_len n s))"
    "mem_inv (snd (mem_read_exact_at n off count s))" "mem_inv (snd (mem_list_names s))"
  using assms
  by (auto simp: mem_exists_def mem_read_def mem_object_len_def mem_read_exact_at_def mem_list_names_def
      mem_steps ok_or_def split: option.split if_splits)

lemma mem_names_inv:
  assumes "mem_inv s"
  shows "mem_inv (snd (mem_create_new n s))" "mem_inv (snd (mem_publish_noreplace n m s))"
    "mem_inv (snd (mem_remove_file n s))" "mem_inv (snd (mem_sync_root s))"
  using assms
  by (auto simp: mem_create_new_def mem_publish_noreplace_def mem_remove_file_def mem_sync_root_def
      mem_allocate_file_id_def bt_contains_iff mem_steps ok_or_def
      intro: mem_inv_updates split: option.split if_splits)

lemma mem_faults_inv:
  assumes "mem_inv s"
  shows "mem_inv (mem_clear_faults s)" "mem_inv (mem_arm_failpoint late position s)"
    "mem_inv (snd (mem_inject_durable_torn_write n retained s))"
  using assms
  by (auto simp: mem_clear_faults_def mem_arm_failpoint_def mem_inject_durable_torn_write_def mem_steps
      ok_or_def intro: mem_inv_updates split: option.split)

section \<open>Properties\<close>

text \<open>
  C25: In every state that any sequence of storage operations, injected faults, torn writes and
  crashes reaches, both directories are sorted and map distinct valid names to distinct existing
  files, and no file identity is used that was not handed out. A crash leaves exactly the names of
  the durable directory, each with its last synced content.
\<close>

theorem mem_reachable_invariant:
  assumes "mem_reachable s"
  shows "mem_inv s \<and>
    (\<forall>n. mem_file (mem_crash s) n =
       (case bt_get (durable_directory s) n of
          None \<Rightarrow> None
        | Some i \<Rightarrow> map_option (\<lambda>f. \<lparr>mf_live = mf_durable f, mf_durable = mf_durable f\<rparr>) (bt_get (files s) i)))"
proof -
  have "mem_inv s"
    using assms
    by (induction rule: mem_reachable.induct)
      (simp_all add: mem_writes_inv mem_reads_inv mem_names_inv mem_faults_inv mem_inv_crash,
       simp add: mem_inv_def directory_ok_def mem_configured_def)
  then show ?thesis
    by (auto simp: mem_file_crash map_option_case split: option.split)
qed

theorem mem_reachable_invariant_witness:
  "mem_inv (snd (mem_create_new ''a'' mem_new))"
  using mem_reachable_invariant [of "snd (mem_create_new ''a'' mem_new)"]
    mem_reachable.intros(1,2) unfolding mem_new_def
  by blast

end
