(* ===== verification/Record_Chain.thy ===== *)
theory Record_Chain
  imports Storage_Io
begin

text \<open>
  What the two paired-slot logs of \<open>crates/fastdup-store/src\<close> share: \<open>generation_log.rs\<close> (the
  Namespace Commit Log) and \<open>exact_activation_log.rs\<close> (the Exact Index activations). Both keep a
  hash chain of 4096-byte records in two files. The active slot is extended record by record; when
  it is full, the other slot is rewritten with the last record (the bridge) and its successor.

  Here are the snapshot of one slot, the selection of the current slot, the loop that reads both
  slots, and the loop that creates them, with the error values as arguments. The locale
  \<open>record_chain\<close> is what the selection relies on: records have a fixed encoded length
  and a successor has the next generation. \<open>paired_slots\<close> is the relation between the
  two slots that the appends maintain.
\<close>

abbreviation RECORD_BYTES :: nat where "RECORD_BYTES \<equiv> 4096"
abbreviation MAX_RECORDS :: nat where "MAX_RECORDS \<equiv> 64"
abbreviation MAX_SLOT_BYTES :: nat where "MAX_SLOT_BYTES \<equiv> 262144"

record ('r, 't) log_snapshot =
  ls_active_slot :: nat
  ls_bytes :: bytes
  ls_records :: "'r list"
  ls_tail :: 't

definition snapshot_last_record :: "('r, 't) log_snapshot \<Rightarrow> 'r option" where
  "snapshot_last_record s = (if ls_records s = [] then None else Some (last (ls_records s)))"

definition snapshot_first_encoded :: "('r, 't) log_snapshot \<Rightarrow> bytes option" where
  "snapshot_first_encoded s = (if ls_records s = [] then None else Some (take RECORD_BYTES (ls_bytes s)))"

definition snapshot_last_encoded :: "('r, 't) log_snapshot \<Rightarrow> bytes option" where
  "snapshot_last_encoded s =
     (if ls_records s = [] then None
      else Some (drop (length (ls_bytes s) - RECORD_BYTES) (ls_bytes s)))"

definition record_count :: "('r, 't) log_snapshot \<Rightarrow> nat" where
  "record_count s = length (ls_records s)"

text \<open>The choice between two nonempty segments. Only two slot names exist, so the last equation
  of \<open>select_slots\<close>, which the code marks unreachable, is never used.\<close>

definition select_pair ::
  "('r \<Rightarrow> u64) \<Rightarrow> 't \<Rightarrow> 'e \<Rightarrow> ('r, 't) log_snapshot \<Rightarrow> ('r, 't) log_snapshot \<Rightarrow>
   'e + ('r, 't) log_snapshot option" where
  "select_pair gen clean divergent left right =
     (let left_last = last (ls_records left);
          right_last = last (ls_records right)
      in if gen left_last = gen right_last then
           if snapshot_last_encoded left \<noteq> snapshot_last_encoded right then Inl divergent
           else if record_count left \<noteq> record_count right then
             if record_count left > record_count right then Inr (Some left) else Inr (Some right)
           else if ls_bytes left \<noteq> ls_bytes right then Inl divergent
           else if ls_tail left = clean then Inr (Some left) else Inr (Some right)
         else
           let (older, newer) = (if gen left_last < gen right_last then (left, right) else (right, left))
           in if snapshot_first_encoded newer \<noteq> snapshot_last_encoded older then Inl divergent
              else Inr (Some newer))"

definition select_slots ::
  "('r \<Rightarrow> u64) \<Rightarrow> 't \<Rightarrow> 'e \<Rightarrow> 'e \<Rightarrow> ('r, 't) log_snapshot list \<Rightarrow> 'e + ('r, 't) log_snapshot option" where
  "select_slots gen clean broken divergent segments =
     (if list_ex (\<lambda>seg. ls_records seg = [] \<and> ls_tail seg \<noteq> clean) segments then Inl broken
      else case filter (\<lambda>seg. ls_records seg \<noteq> []) segments of
             [] \<Rightarrow> Inr None
           | [seg] \<Rightarrow> Inr (Some seg)
           | [left, right] \<Rightarrow> select_pair gen clean divergent left right
           | _ \<Rightarrow> Inl divergent)"

fun load_slots ::
  "'s storage_io \<Rightarrow> (nat \<Rightarrow> bytes \<Rightarrow> 'e + 'seg) \<Rightarrow> (io_error \<Rightarrow> 'e) \<Rightarrow> 'e \<Rightarrow> 'e \<Rightarrow>
   (nat \<times> string) list \<Rightarrow> ('s, 'e, 'seg list) io" where
  "load_slots S decode io too_large mismatch [] = io_return []"
| "load_slots S decode io too_large mismatch ((slot, name) # names) =
     io_bind (io_try (object_len S name)) (\<lambda>outcome.
       case outcome of
         Inl e \<Rightarrow> if e = NotFound then load_slots S decode io too_large mismatch names
                  else io_fail (io e)
       | Inr len \<Rightarrow>
           if unat len > MAX_SLOT_BYTES then io_fail too_large
           else io_bind (io_from io (read_object S name)) (\<lambda>bytes.
             if u64_try_from (length bytes) \<noteq> Some len then io_fail mismatch
             else io_bind (io_result (decode slot bytes)) (\<lambda>segment.
               io_bind (load_slots S decode io too_large mismatch names) (\<lambda>segments.
                 io_return (segment # segments)))))"

fun create_slots ::
  "'s storage_io \<Rightarrow> (io_error \<Rightarrow> 'e) \<Rightarrow> 'e \<Rightarrow> string list \<Rightarrow> ('s, 'e, unit) io" where
  "create_slots S io too_large [] = io_from io (sync_root S)"
| "create_slots S io too_large (name # names) =
     io_bind (io_from io (exists_name S name)) (\<lambda>present.
       if present then
         io_bind (io_from io (object_len S name)) (\<lambda>len.
           if unat len > MAX_SLOT_BYTES then io_fail too_large
           else create_slots S io too_large names)
       else
         io_bind (io_from io (create_new S name)) (\<lambda>_.
         io_bind (io_from io (set_len S name 0)) (\<lambda>_.
         io_bind (io_from io (sync_file S name)) (\<lambda>_.
           create_slots S io too_large names))))"

text \<open>The relation between the records of the active slot and those of the other slot.\<close>

definition paired_slots :: "'r list \<Rightarrow> 'r list \<Rightarrow> bool" where
  "paired_slots rs os \<longleftrightarrow>
     length rs \<le> MAX_RECORDS \<and> length os \<le> MAX_RECORDS \<and>
     (os = [] \<or>
      (2 \<le> length rs \<and> last os = hd rs) \<or>
      (os = [last rs] \<and> length rs = MAX_RECORDS))"

definition slot_bytes :: "('r \<Rightarrow> bytes) \<Rightarrow> 'r list \<Rightarrow> bytes" where
  "slot_bytes enc rs = concat (map enc rs)"

definition slot_snapshot :: "('r \<Rightarrow> bytes) \<Rightarrow> nat \<Rightarrow> 'r list \<Rightarrow> 't \<Rightarrow> ('r, 't) log_snapshot" where
  "slot_snapshot enc slot rs tail =
     \<lparr>ls_active_slot = slot, ls_bytes = slot_bytes enc rs, ls_records = rs, ls_tail = tail\<rparr>"

text \<open>The files after the slots were created: missing slots are empty and synced.\<close>

definition created_slots :: "string list \<Rightarrow> (string \<Rightarrow> vfile option) \<Rightarrow> string \<Rightarrow> vfile option" where
  "created_slots names V =
     (\<lambda>n. if V n = None \<and> n \<in> set names then Some (synced_file [])
          else map_option (\<lambda>v. v\<lparr>v_linked := True\<rparr>) (V n))"

section \<open>The contract of a record chain\<close>

locale record_chain =
  fixes enc :: "'r \<Rightarrow> bytes"
    and valid :: "'r \<Rightarrow> bool"
    and gen :: "'r \<Rightarrow> u64"
    and succeeds :: "'r \<Rightarrow> 'r \<Rightarrow> bool"
  assumes length_enc: "length (enc r) = RECORD_BYTES"
    and succeeds_gen: "succeeds p r \<Longrightarrow> unat (gen r) = unat (gen p) + 1"
begin

definition chain :: "'r list \<Rightarrow> bool" where
  "chain rs \<longleftrightarrow> list_all valid rs \<and> successively succeeds rs"

lemma chain_Nil [simp]: "chain []"
  by (simp add: chain_def)

lemma chain_single [simp]: "chain [r] \<longleftrightarrow> valid r"
  by (simp add: chain_def)

lemma chain_snoc:
  "chain (rs @ [r]) \<longleftrightarrow> chain rs \<and> valid r \<and> (rs \<noteq> [] \<longrightarrow> succeeds (last rs) r)"
  by (auto simp: chain_def successively_append_iff)

lemma chain_appendD: "chain (xs @ ys) \<Longrightarrow> chain xs \<and> chain ys"
  by (auto simp: chain_def successively_append_iff)

lemma chain_bridge: "chain (rs @ [r]) \<Longrightarrow> rs \<noteq> [] \<Longrightarrow> chain [last rs] \<and> chain [last rs, r]"
  by (auto simp: chain_def successively_append_iff list_all_iff)

lemma length_slot_bytes [simp]: "length (slot_bytes enc rs) = RECORD_BYTES * length rs"
  by (induction rs) (simp_all add: slot_bytes_def length_enc)

lemma slot_bytes_append: "slot_bytes enc (xs @ ys) = slot_bytes enc xs @ slot_bytes enc ys"
  by (simp add: slot_bytes_def)

lemma slot_bytes_simps [simp]:
  "slot_bytes enc [] = []" "slot_bytes enc (r # rs) = enc r @ slot_bytes enc rs"
  by (simp_all add: slot_bytes_def)

lemma chain_gen_last:
  "chain rs \<Longrightarrow> rs \<noteq> [] \<Longrightarrow> unat (gen (last rs)) + 1 = unat (gen (hd rs)) + length rs"
proof (induction rs rule: rev_induct)
  case (snoc r rs)
  show ?case
  proof (cases "rs = []")
    case False
    with snoc have "unat (gen (last rs)) + 1 = unat (gen (hd rs)) + length rs"
      by (simp add: chain_snoc)
    moreover have "unat (gen r) = unat (gen (last rs)) + 1"
      using snoc.prems False succeeds_gen [of "last rs" r] by (simp add: chain_snoc)
    ultimately show ?thesis using False by simp
  qed simp
qed simp

lemma first_encoded_slot:
  "rs \<noteq> [] \<Longrightarrow> snapshot_first_encoded (slot_snapshot enc slot rs t) = Some (enc (hd rs))"
  by (cases rs) (simp_all add: snapshot_first_encoded_def slot_snapshot_def length_enc)

lemma last_encoded_slot:
  assumes "rs \<noteq> []"
  shows "snapshot_last_encoded (slot_snapshot enc slot rs t) = Some (enc (last rs))"
proof -
  obtain ys where "rs = ys @ [last rs]"
    using assms by (metis append_butlast_last_id)
  then have "slot_bytes enc rs = slot_bytes enc ys @ enc (last rs)"
    by (metis slot_bytes_append slot_bytes_simps append_Nil2)
  then show ?thesis
    using assms by (simp add: snapshot_last_encoded_def slot_snapshot_def length_enc)
qed

text \<open>The active slot wins against the other slot, whichever comes first.\<close>

lemma select_pair_active:
  assumes rs: "chain rs" "rs \<noteq> []" and os: "chain os" "os \<noteq> []" and pair: "paired_slots rs os"
  shows "select_pair gen clean divergent (slot_snapshot enc a rs t) (slot_snapshot enc b os u)
           = Inr (Some (slot_snapshot enc a rs t))"
    and "select_pair gen clean divergent (slot_snapshot enc b os u) (slot_snapshot enc a rs t)
           = Inr (Some (slot_snapshot enc a rs t))"
proof -
  have recs: "ls_records (slot_snapshot enc c ys v) = ys" for c ys and v :: 'v
    by (simp add: slot_snapshot_def)
  note enc = first_encoded_slot last_encoded_slot rs(2) os(2)
  have gens: "unat (gen (last rs)) + 1 = unat (gen (hd rs)) + length rs"
    using chain_gen_last rs by blast
  consider (older) "2 \<le> length rs" "last os = hd rs"
    | (bridge) "os = [last rs]" "length rs = 64"
    using pair os(2) by (auto simp: paired_slots_def)
  then have "select_pair gen clean divergent (slot_snapshot enc a rs t) (slot_snapshot enc b os u)
      = Inr (Some (slot_snapshot enc a rs t)) \<and>
    select_pair gen clean divergent (slot_snapshot enc b os u) (slot_snapshot enc a rs t)
      = Inr (Some (slot_snapshot enc a rs t))"
  proof cases
    case older
    then have "gen (hd rs) < gen (last rs)"
      using gens by (simp add: word_less_nat_alt)
    then have lt: "gen (hd rs) < gen (last rs)" "gen (last rs) \<noteq> gen (hd rs)"
      "gen (hd rs) \<noteq> gen (last rs)" "\<not> gen (last rs) < gen (hd rs)" by auto
    show ?thesis
      by (simp add: select_pair_def Let_def recs enc older(2) lt)
  next
    case bridge
    then have "last os = last rs" by simp
    then show ?thesis
      using bridge by (simp add: select_pair_def Let_def recs enc record_count_def)
  qed
  then show "select_pair gen clean divergent (slot_snapshot enc a rs t) (slot_snapshot enc b os u)
      = Inr (Some (slot_snapshot enc a rs t))"
    "select_pair gen clean divergent (slot_snapshot enc b os u) (slot_snapshot enc a rs t)
      = Inr (Some (slot_snapshot enc a rs t))"
    by simp_all
qed

lemma select_slots_active:
  assumes rs: "chain rs" and os: "chain os" and pair: "paired_slots rs os"
    and rs_Nil: "rs = [] \<Longrightarrow> os = [] \<and> t = clean" and os_Nil: "os = [] \<Longrightarrow> u = clean"
  shows "select_slots gen clean broken divergent
           (if a = 0 then [slot_snapshot enc 0 rs t, slot_snapshot enc 1 os u]
            else [slot_snapshot enc 0 os u, slot_snapshot enc a rs t])
         = Inr (if rs = [] then None else Some (slot_snapshot enc a rs t))"
proof -
  have recs: "ls_records (slot_snapshot enc c ys v) = ys" "ls_tail (slot_snapshot enc c ys v) = v"
    for c ys and v :: 't
    by (simp_all add: slot_snapshot_def)
  show ?thesis
  proof (cases "rs = [] \<or> os = []")
    case True
    then show ?thesis using rs_Nil os_Nil by (auto simp: select_slots_def recs)
  next
    case False
    then show ?thesis
      by (simp add: select_slots_def recs select_pair_active [OF rs _ os _ pair])
  qed
qed

end

section \<open>Reading and creating the slots\<close>

context storage_laws
begin

lemma load_slots_holds:
  assumes "list_all2 (\<lambda>(slot, name) seg. \<exists>v. V name = Some v \<and> length (v_live v) \<le> MAX_SLOT_BYTES \<and>
      decode slot (v_live v) = Inr seg) names segs"
  shows "triple (holds h V) (load_slots S decode io too_large mismatch names)
           (\<lambda>r s. r = segs \<and> holds h V s) (\<lambda>e s. \<not> h \<and> holds False V s)"
  using assms
proof (induction names arbitrary: segs)
  case Nil
  then show ?case by (auto intro: triple_return)
next
  case (Cons p names)
  obtain slot name where p: "p = (slot, name)" by (cases p)
  from Cons.prems obtain seg segs' v where segs: "segs = seg # segs'" and v: "V name = Some v"
    "length (v_live v) \<le> MAX_SLOT_BYTES" "decode slot (v_live v) = Inr seg"
    and rest: "list_all2 (\<lambda>(slot, name) seg. \<exists>v. V name = Some v \<and> length (v_live v) \<le> MAX_SLOT_BYTES \<and>
      decode slot (v_live v) = Inr seg) names segs'"
    by (auto simp: list_all2_Cons1 p)
  note steps = io_bind_def io_try_def io_from_def io_fail_def io_return_def io_result_def
  show ?case
    unfolding triple_def
  proof (intro allI impI)
    fix s assume s: "holds h V s"
    obtain r1 s1 where run1: "object_len S name s = (r1, s1)" by (cases "object_len S name s")
    obtain r2 s2 where run2: "read_object S name s1 = (r2, s2)" by (cases "read_object S name s1")
    obtain r3 s3 where run3: "load_slots S decode io too_large mismatch names s2 = (r3, s3)"
      by (cases "load_slots S decode io too_large mismatch names s2")
    have small: "length (v_live v) < 2 ^ 64" using v(2) by simp
    note one = triple_Inl [OF object_len_holds [of V name v h, OF v(1) small] s]
      triple_Inr [OF object_len_holds [of V name v h, OF v(1) small] s]
    show "case load_slots S decode io too_large mismatch (p # names) s of
        (Inl e, s') \<Rightarrow> \<not> h \<and> holds False V s' | (Inr r, s') \<Rightarrow> r = segs \<and> holds h V s'"
    proof (cases r1)
      case (Inl e)
      then show ?thesis using one(1) [of e s1] run1 by (simp add: p steps)
    next
      case (Inr l)
      then have l: "unat l = length (v_live v)" and s1: "holds h V s1"
        using one(2) [of l s1] run1 by simp_all
      then have size: "\<not> MAX_SLOT_BYTES < unat l" "u64_try_from (length (v_live v)) = Some l"
        using v(2) by (simp_all add: u64_try_from_def small flip: l)
      note two = triple_Inl [OF read_object_holds [of V name v h, OF v(1)] s1]
        triple_Inr [OF read_object_holds [of V name v h, OF v(1)] s1]
      show ?thesis
      proof (cases r2)
        case (Inl e)
        then show ?thesis
          using two(1) [of e s2] run1 run2 \<open>r1 = Inr l\<close> size by (simp add: p steps)
      next
        case (Inr bs)
        then have bs: "bs = v_live v" and s2: "holds h V s2"
          using two(2) [of bs s2] run2 by simp_all
        note three = triple_Inl [OF Cons.IH [OF rest] s2] triple_Inr [OF Cons.IH [OF rest] s2]
        show ?thesis
          using three(1) [of _ s3] three(2) [of _ s3] run1 run2 run3 \<open>r1 = Inr l\<close> \<open>r2 = Inr bs\<close> size bs v(3)
          by (cases r3) (simp_all add: p steps segs)
      qed
    qed
  qed
qed

text \<open>Slots that exist already are only made durable in the directory.\<close>

lemma create_slots_present:
  assumes "\<And>n. n \<in> set names \<Longrightarrow> \<exists>v. V n = Some v \<and> length (v_live v) \<le> MAX_SLOT_BYTES"
    and V': "V' = (\<lambda>n. map_option (\<lambda>v. v\<lparr>v_linked := True\<rparr>) (V n))"
  shows "triple (holds h V) (create_slots S io too_large names) (\<lambda>_. holds h V')
           (\<lambda>e s. \<not> h \<and> (holds False V s \<or> holds False V' s))"
  using assms(1)
proof (induction names)
  case Nil
  show ?case
    unfolding create_slots.simps V' by (rule triple_from) (rule sync_root_holds)
next
  case (Cons name names)
  then obtain v where v: "V name = Some v" "length (v_live v) \<le> MAX_SLOT_BYTES"
    by (meson list.set_intros(1))
  then have small: "length (v_live v) < 2 ^ 64" by simp
  let ?E = "\<lambda>s. \<not> h \<and> (holds False V s \<or> holds False V' s)"
  have present: "triple (holds h V) (exists_name S name) (\<lambda>b s. b = True \<and> holds h V s) (\<lambda>e. ?E)"
    by (rule triple_weaken [OF exists_name_holds [of V name v h, OF v(1)]]) auto
  have rest: "triple (holds h V)
      (io_bind (io_from io (object_len S name)) (\<lambda>len.
         if unat len > MAX_SLOT_BYTES then io_fail too_large else create_slots S io too_large names))
      (\<lambda>_. holds h V') (\<lambda>e. ?E)"
  proof (rule triple_bind)
    show "triple (holds h V) (io_from io (object_len S name))
        (\<lambda>l s. unat l = length (v_live v) \<and> holds h V s) (\<lambda>e. ?E)"
      by (rule triple_from, rule triple_weaken [OF object_len_holds [of V name v h, OF v(1) small]]) auto
    show "triple (\<lambda>s. unat l = length (v_live v) \<and> holds h V s)
        (if unat l > MAX_SLOT_BYTES then io_fail too_large else create_slots S io too_large names)
        (\<lambda>_. holds h V') (\<lambda>e. ?E)" for l
    proof (rule triple_pre [where c = "\<not> unat l > MAX_SLOT_BYTES"])
      assume c: "\<not> unat l > MAX_SLOT_BYTES"
      have "triple (holds h V) (create_slots S io too_large names) (\<lambda>_. holds h V') (\<lambda>e. ?E)"
        by (rule Cons.IH) (use Cons.prems in simp)
      then have "triple (\<lambda>s. unat l = length (v_live v) \<and> holds h V s)
          (create_slots S io too_large names) (\<lambda>_. holds h V') (\<lambda>e. ?E)"
        by (rule triple_weaken) simp_all
      with c show "triple (\<lambda>s. unat l = length (v_live v) \<and> holds h V s)
        (if unat l > MAX_SLOT_BYTES then io_fail too_large else create_slots S io too_large names)
        (\<lambda>_. holds h V') (\<lambda>e. ?E)" by simp
    qed (use v(2) in simp)
  qed
  show ?case
    unfolding create_slots.simps
  proof (rule triple_then [where v = True and R = "holds h V"], goal_cases)
    case 1
    show ?case by (rule present)
  next
    case 2
    show ?case using rest by (simp only: if_True)
  qed
qed

text \<open>Slots that do not exist are created empty.\<close>

definition fresh_slot :: "string \<Rightarrow> (string \<Rightarrow> vfile option) \<Rightarrow> 's \<Rightarrow> bool" where
  "fresh_slot n V s \<longleftrightarrow> (\<exists>v. v_live v = [] \<and> v_synced v = [] \<and> holds False (V(n \<mapsto> v)) s)"

lemma create_new_fresh:
  assumes "V n = None"
  shows "triple (holds False V) (create_new S n) (\<lambda>r s. r = () \<and> fresh_slot n V s) (\<lambda>e s. inv s)"
proof (rule tripleI)
  fix s r s' assume s: "holds False V s" and run: "create_new S n s = (Inr r, s')"
  have "inv s" "view s n = None" "view s = V" using s assms by (auto simp: holds_def)
  from create_new_law [OF this(1,2) run] this(3) show "r = () \<and> fresh_slot n V s'"
    by (auto simp: fresh_slot_def holds_def)
next
  fix s e s' assume s: "holds False V s" and run: "create_new S n s = (Inl e, s')"
  have "inv s" "view s n = None" using s assms by (auto simp: holds_def)
  from create_new_law [OF this run] show "inv s'" by simp
qed

lemma set_len_fresh: "triple (fresh_slot n V) (set_len S n 0) (\<lambda>r s. r = () \<and> fresh_slot n V s) (\<lambda>e s. inv s)"
proof (rule tripleI)
  fix s r s' assume "fresh_slot n V s" and run: "set_len S n 0 s = (Inr r, s')"
  then obtain v where v: "v_live v = []" "v_synced v = []" "inv s" "view s = V(n \<mapsto> v)" "view s n = Some v"
    by (auto simp: fresh_slot_def holds_def)
  from set_len_law [OF v(3,5) run] v show "r = () \<and> fresh_slot n V s'"
    by (auto simp: fresh_slot_def holds_def mutated_def)
next
  fix s e s' assume "fresh_slot n V s" and run: "set_len S n 0 s = (Inl e, s')"
  then obtain v where v: "inv s" "view s n = Some v" by (auto simp: fresh_slot_def holds_def)
  from set_len_law [OF v run] show "inv s'" by simp
qed

lemma sync_file_fresh: "triple (fresh_slot n V) (sync_file S n) (\<lambda>r s. r = () \<and> fresh_slot n V s) (\<lambda>e s. inv s)"
proof (rule tripleI)
  fix s r s' assume "fresh_slot n V s" and run: "sync_file S n s = (Inr r, s')"
  then obtain v where v: "v_live v = []" "v_synced v = []" "inv s" "view s = V(n \<mapsto> v)" "view s n = Some v"
    by (auto simp: fresh_slot_def holds_def)
  have "v\<lparr>v_synced := v_live v\<rparr> = v" using v(1,2) by (cases v) simp
  with sync_file_law [OF v(3,5) run] v(4) have "view s' = V(n \<mapsto> v)" "inv s'" by auto
  with v(1,2) show "r = () \<and> fresh_slot n V s'" by (auto simp: fresh_slot_def holds_def)
next
  fix s e s' assume "fresh_slot n V s" and run: "sync_file S n s = (Inl e, s')"
  then obtain v where v: "inv s" "view s n = Some v" by (auto simp: fresh_slot_def holds_def)
  from sync_file_law [OF v run] show "inv s'" by simp
qed

lemma object_len_keeps:
  assumes "V n = Some v"
  shows "triple (holds False V) (object_len S n) (\<lambda>_. holds False V) (\<lambda>e s. inv s)"
proof (rule tripleI)
  fix s e s' assume "holds False V s" and run: "object_len S n s = (Inl e, s')"
  then show "inv s'" using object_len_law [of s n v, OF _ _ run] assms by (simp add: holds_def)
next
  fix s a s' assume "holds False V s" and run: "object_len S n s = (Inr a, s')"
  then show "holds False V s'" using object_len_law [of s n v, OF _ _ run] assms by (simp add: holds_def)
qed

lemma exists_name_decides:
  "triple (holds False V) (exists_name S name) (\<lambda>b s. b = (V name \<noteq> None) \<and> holds False V s) (\<lambda>e s. inv s)"
  by (rule triple_weaken [OF exists_name_known [of False V name]]) (auto simp: holds_def)

text \<open>What a loop over the remaining names makes of a storage in which one slot was just created.\<close>

lemma fresh_slot_rest:
  assumes rest: "\<And>V. triple (holds False V) m (\<lambda>_. holds False (created_slots names V)) (\<lambda>e s. inv s)"
    and None: "V name = None" and name: "name \<notin> set names"
  shows "triple (fresh_slot name V) m (\<lambda>_. holds False (created_slots (name # names) V)) (\<lambda>e s. inv s)"
  unfolding triple_def
proof (intro allI impI)
  fix s assume "fresh_slot name V s"
  then obtain v where v: "v_live v = []" "v_synced v = []" "holds False (V(name \<mapsto> v)) s"
    by (auto simp: fresh_slot_def)
  have eq: "created_slots names (V(name \<mapsto> v)) = created_slots (name # names) V"
    using v(1,2) None name by (auto simp: created_slots_def fun_eq_iff synced_file_def)
  show "case m s of (Inl e, s') \<Rightarrow> inv s' | (Inr a, s') \<Rightarrow> holds False (created_slots (name # names) V) s'"
    using rest [of "V(name \<mapsto> v)"] v(3) by (simp add: triple_def eq)
qed

lemma sync_root_created:
  "triple (holds False V) (sync_root S) (\<lambda>_. holds False (created_slots [] V)) (\<lambda>e s. inv s)"
proof -
  have "created_slots [] V = (\<lambda>n. map_option (\<lambda>v. v\<lparr>v_linked := True\<rparr>) (V n))"
    by (simp add: created_slots_def)
  then show ?thesis
    by (intro triple_weaken [OF sync_root_holds [of False V]]) (auto simp: holds_def)
qed

lemma created_slots_present: "V name \<noteq> None \<Longrightarrow> created_slots (name # names) V = created_slots names V"
  by (auto simp: created_slots_def fun_eq_iff)

lemma create_slots_created:
  assumes "distinct names"
  shows "triple (holds False V) (create_slots S io too_large names)
           (\<lambda>_. holds False (created_slots names V)) (\<lambda>e s. inv s)"
  using assms
proof (induction names arbitrary: V)
  case Nil
  show ?case unfolding create_slots.simps by (rule triple_from) (rule sync_root_created)
next
  case (Cons name names)
  note rest = Cons.IH [OF Cons.prems [simplified, THEN conjunct2]]
  show ?case
    unfolding create_slots.simps
  proof (rule triple_then [OF exists_name_decides], cases "V name")
    case None
    with Cons.prems have "triple (fresh_slot name V) (create_slots S io too_large names)
        (\<lambda>_. holds False (created_slots (name # names) V)) (\<lambda>e s. inv s)"
      by (intro fresh_slot_rest rest) simp_all
    note made = triple_then [OF create_new_fresh [of V name, OF None] triple_then [OF set_len_fresh
        triple_then [OF sync_file_fresh this]]]
    show "triple (holds False V)
        (if V name \<noteq> None
         then io_bind (io_from io (object_len S name)) (\<lambda>len.
           if MAX_SLOT_BYTES < unat len then io_fail too_large else create_slots S io too_large names)
         else io_bind (io_from io (create_new S name)) (\<lambda>_. io_bind (io_from io (set_len S name 0)) (\<lambda>_.
           io_bind (io_from io (sync_file S name)) (\<lambda>_. create_slots S io too_large names))))
        (\<lambda>_. holds False (created_slots (name # names) V)) (\<lambda>e s. inv s)"
      using made None by simp
  next
    case (Some v)
    have len: "triple (holds False V) (io_from io (object_len S name)) (\<lambda>l. holds False V) (\<lambda>e s. inv s)"
      by (rule triple_from) (rule object_len_keeps [of V name v, OF Some])
    show "triple (holds False V)
        (if V name \<noteq> None
         then io_bind (io_from io (object_len S name)) (\<lambda>len.
           if MAX_SLOT_BYTES < unat len then io_fail too_large else create_slots S io too_large names)
         else io_bind (io_from io (create_new S name)) (\<lambda>_. io_bind (io_from io (set_len S name 0)) (\<lambda>_.
           io_bind (io_from io (sync_file S name)) (\<lambda>_. create_slots S io too_large names))))
        (\<lambda>_. holds False (created_slots (name # names) V)) (\<lambda>e s. inv s)"
      using Some rest [of V]
      by (simp add: created_slots_present)
        (intro triple_bind [OF len] triple_if triple_fail, simp add: holds_def, simp)
  qed
qed

end

end
