(* ===== verification/Generation_Log_Segment.thy ===== *)
theory Generation_Log_Segment
  imports Commit_Record Record_Chain "HOL-Library.Sublist"
begin

text \<open>
  One slot of the Namespace Commit Log: \<open>decode_segment\<close> of
  \<open>crates/fastdup-store/src/generation_log.rs\<close> with the types it returns. \<open>commit_chain\<close> is the
  chain of records a reader accepts. \<open>decode_segment\<close> returns the longest accepted prefix of the
  slot, and reports a clean tail exactly when the slot is nothing but an accepted chain.
\<close>

abbreviation MAX_SEGMENT_RECORDS :: nat where "MAX_SEGMENT_RECORDS \<equiv> 64"

datatype log_tail = Clean | Torn nat nat | InvalidRecord nat | BrokenChain nat

datatype generation_log_error =
    Io io_error
  | SegmentTooLarge
  | BrokenGenerationChain
  | DivergentSlots
  | NeedsRepair log_tail
  | EmptyAfterInitialization
  | AlreadyInitialized
  | PublishVerificationMismatch
  | OutOfMemory

type_synonym gsnapshot = "(commit_record, log_tail) log_snapshot"

definition LogSnapshot_empty :: "nat \<Rightarrow> gsnapshot" where
  "LogSnapshot_empty slot = \<lparr>ls_active_slot = slot, ls_bytes = [], ls_records = [], ls_tail = Clean\<rparr>"

text \<open>The check of one record against its predecessor inside a segment: an error when the
  predecessor has the last possible generation, otherwise whether the chain continues.\<close>

definition segment_continues ::
  "(commit_record \<times> bytes) option \<Rightarrow> commit_record \<Rightarrow> generation_log_error + bool" where
  "segment_continues previous record =
     (case previous of
        None \<Rightarrow> Inr True
      | Some (previous, expected_hash) \<Rightarrow>
          and_then (ok_or (checked_add (cr_generation previous) 1) BrokenGenerationChain)
            (\<lambda>expected_generation. Inr (\<not> (
               cr_generation record \<noteq> expected_generation
               \<or> cr_previous_record_hash record \<noteq> expected_hash
               \<or> cr_namespace_mutation_cutoff record < cr_namespace_mutation_cutoff previous
               \<or> cr_inode_reservation_end record < cr_inode_reservation_end previous
               \<or> cr_inode_allocation_cursor record < cr_inode_allocation_cursor previous))))"

function decode_segment_from ::
  "digest_lib \<Rightarrow> nat \<Rightarrow> bytes \<Rightarrow> nat \<Rightarrow> nat \<Rightarrow> commit_record list \<Rightarrow> (commit_record \<times> bytes) option \<Rightarrow>
   generation_log_error + gsnapshot" where
  "decode_segment_from L slot bytes complete_bytes offset records previous =
     (if offset \<ge> complete_bytes then
        let tail_bytes = length bytes - complete_bytes;
            tail = (if tail_bytes = 0 then Clean else Torn complete_bytes tail_bytes)
        in Inr \<lparr>ls_active_slot = slot, ls_bytes = take complete_bytes bytes, ls_records = records,
                ls_tail = tail\<rparr>
      else
        let encoded = slice offset COMMIT_RECORD_BYTES bytes in
        case CommitRecord_decode L encoded of
          Inl _ \<Rightarrow> Inr \<lparr>ls_active_slot = slot, ls_bytes = take offset bytes, ls_records = records,
                        ls_tail = InvalidRecord offset\<rparr>
        | Inr record \<Rightarrow>
            and_then (segment_continues previous record) (\<lambda>continues.
              if \<not> continues then
                Inr \<lparr>ls_active_slot = slot, ls_bytes = take offset bytes, ls_records = records,
                     ls_tail = BrokenChain offset\<rparr>
              else decode_segment_from L slot bytes complete_bytes (offset + COMMIT_RECORD_BYTES)
                     (records @ [record]) (Some (record, CommitRecordHash_of L encoded))))"
  by pat_completeness auto
termination
  by (relation "measure (\<lambda>(_, _, _, complete_bytes, offset, _, _). complete_bytes - offset)") auto

definition decode_segment :: "digest_lib \<Rightarrow> nat \<Rightarrow> bytes \<Rightarrow> generation_log_error + gsnapshot" where
  "decode_segment L slot bytes =
     (let complete_bytes = length bytes div COMMIT_RECORD_BYTES * COMMIT_RECORD_BYTES
      in decode_segment_from L slot bytes complete_bytes 0 [] None)"

section \<open>The chain a reader accepts\<close>

definition commit_succeeds :: "digest_lib \<Rightarrow> commit_record \<Rightarrow> commit_record \<Rightarrow> bool" where
  "commit_succeeds L p r \<longleftrightarrow>
     checked_add (cr_generation p) 1 = Some (cr_generation r) \<and>
     cr_previous_record_hash r = CommitRecordHash_of L (CommitRecord_encode L p) \<and>
     cr_namespace_mutation_cutoff p \<le> cr_namespace_mutation_cutoff r \<and>
     cr_inode_reservation_end p \<le> cr_inode_reservation_end r \<and>
     cr_inode_allocation_cursor p \<le> cr_inode_allocation_cursor r"

definition commit_chain :: "digest_lib \<Rightarrow> commit_record list \<Rightarrow> bool" where
  "commit_chain L rs \<longleftrightarrow> list_all valid_commit_record rs \<and> successively (commit_succeeds L) rs"

abbreviation commit_bytes :: "digest_lib \<Rightarrow> commit_record list \<Rightarrow> bytes" where
  "commit_bytes L \<equiv> slot_bytes (CommitRecord_encode L)"

abbreviation commit_snapshot :: "digest_lib \<Rightarrow> nat \<Rightarrow> commit_record list \<Rightarrow> log_tail \<Rightarrow> gsnapshot" where
  "commit_snapshot L \<equiv> slot_snapshot (CommitRecord_encode L)"

definition segment_previous :: "digest_lib \<Rightarrow> commit_record list \<Rightarrow> (commit_record \<times> bytes) option" where
  "segment_previous L rs =
     (if rs = [] then None
      else Some (last rs, CommitRecordHash_of L (CommitRecord_encode L (last rs))))"

section \<open>Lemmas: decoding a segment\<close>

declare decode_segment_from.simps [simp del]

lemma commit_record_chain: "record_chain (CommitRecord_encode L) cr_generation (commit_succeeds L)"
  by unfold_locales (auto simp: commit_succeeds_def dest: checked_add_unat)

lemma commit_chain_eq: "record_chain.chain valid_commit_record (commit_succeeds L) = commit_chain L"
  by (simp add: record_chain.chain_def [OF commit_record_chain] commit_chain_def fun_eq_iff)

interpretation commits: record_chain "CommitRecord_encode L" valid_commit_record cr_generation
    "commit_succeeds L"
  rewrites "record_chain.chain valid_commit_record (commit_succeeds L) = commit_chain L" for L
  by (rule commit_record_chain) (rule commit_chain_eq)

lemma segment_continues_iff:
  "segment_continues (segment_previous L rs) r = Inr True \<longleftrightarrow> rs = [] \<or> commit_succeeds L (last rs) r"
  by (auto simp: segment_continues_def segment_previous_def commit_succeeds_def not_less
      ok_or_def and_then_def split: option.splits)

lemma take_slice: "take off bs @ slice off n bs = take (off + n) bs"
  by (simp add: slice_def take_add)

lemma decode_segment_from_sound:
  "decode_segment_from L slot bs c off rs prev = Inr snap \<Longrightarrow> digest_laws L \<Longrightarrow>
     take off bs = commit_bytes L rs \<Longrightarrow> off = 4096 * length rs \<Longrightarrow> off \<le> c \<Longrightarrow> c \<le> length bs \<Longrightarrow>
     c mod 4096 = 0 \<Longrightarrow> commit_chain L rs \<Longrightarrow> prev = segment_previous L rs \<Longrightarrow>
     \<exists>rs'. commit_chain L rs' \<and> commit_bytes L rs' = take (4096 * length rs') bs \<and>
       snap = commit_snapshot L slot rs' (ls_tail snap) \<and>
       (ls_tail snap = Clean \<longleftrightarrow> commit_bytes L rs' = bs)"
proof (induction L slot bs c off rs prev rule: decode_segment_from.induct)
  case (1 L slot bs c off rs prev)
  note pre = "1.prems"
  have stop: ?case
    if "snap = \<lparr>ls_active_slot = slot, ls_bytes = take off bs, ls_records = rs, ls_tail = ls_tail snap\<rparr>"
      "ls_tail snap = Clean \<longleftrightarrow> off = length bs"
  proof (intro exI [of _ rs] conjI)
    show "snap = commit_snapshot L slot rs (ls_tail snap)"
      using that(1) pre(3) by (simp add: slot_snapshot_def)
    show "ls_tail snap = Clean \<longleftrightarrow> commit_bytes L rs = bs"
      using that(2) pre(3-6) by (auto simp flip: pre(3))
  qed (use pre in simp_all)
  show ?case
  proof (cases "c \<le> off")
    case True
    then have "off = c" using pre(5) by simp
    then have "snap = \<lparr>ls_active_slot = slot, ls_bytes = take off bs, ls_records = rs,
        ls_tail = (if length bs - c = 0 then Clean else Torn c (length bs - c))\<rparr>"
      using pre(1) by (subst (asm) decode_segment_from.simps) (simp add: Let_def)
    with pre(6) \<open>off = c\<close> show ?thesis by (intro stop) auto
  next
    case False
    obtain m where "c = 4096 * m" using pre(7) by (auto simp: mod_eq_0_iff_dvd elim: dvdE)
    then have room: "off + 4096 \<le> c" using False pre(4) by simp
    show ?thesis
    proof (cases "CommitRecord_decode L (slice off 4096 bs)")
      case (Inl e)
      then have "snap = \<lparr>ls_active_slot = slot, ls_bytes = take off bs, ls_records = rs,
          ls_tail = InvalidRecord off\<rparr>"
        using pre(1) False by (subst (asm) decode_segment_from.simps) (simp add: Let_def)
      with pre(6) False show ?thesis by (intro stop) auto
    next
      case (Inr r)
      note canon = commit_decode_canonical [OF pre(2) Inr] and valid = commit_decode_valid [OF Inr]
      obtain b where b: "segment_continues prev r = Inr b"
        using pre(1) False Inr by (subst (asm) decode_segment_from.simps) (auto simp: Let_def)
      show ?thesis
      proof (cases b)
        case True
        have next_run: "decode_segment_from L slot bs c (off + 4096) (rs @ [r])
            (Some (r, CommitRecordHash_of L (slice off 4096 bs))) = Inr snap"
          using pre(1) False Inr b True by (subst (asm) decode_segment_from.simps) (simp add: Let_def)
        have chain: "commit_chain L (rs @ [r])"
          using b True segment_continues_iff [of L rs r] pre(8,9) valid by (auto simp: commits.chain_snoc)
        have "\<not> \<not> True" by simp
        show ?thesis
        proof (rule "1.IH" [OF False refl Inr \<open>\<not> \<not> True\<close> next_run pre(2)])
          show "take (off + 4096) bs = commit_bytes L (rs @ [r])"
            using pre(3) canon by (simp add: commits.slot_bytes_append flip: take_slice)
          show "Some (r, CommitRecordHash_of L (slice off 4096 bs)) = segment_previous L (rs @ [r])"
            using canon by (simp add: segment_previous_def)
        qed (use True pre room chain in simp_all)
      next
        case broken: False
        then have "snap = \<lparr>ls_active_slot = slot, ls_bytes = take off bs, ls_records = rs,
            ls_tail = BrokenChain off\<rparr>"
          using pre(1) False Inr b by (subst (asm) decode_segment_from.simps) (simp add: Let_def)
        with pre(6) False show ?thesis by (intro stop) auto
      qed
    qed
  qed
qed

lemma decode_segment_from_step:
  assumes "digest_laws L" and chain: "commit_chain L (rs @ [r])"
    and bs: "bs = commit_bytes L (rs @ [r]) @ rest" and c: "4096 * length rs + 4096 \<le> c"
  shows "decode_segment_from L slot bs c (4096 * length rs) rs (segment_previous L rs)
    = decode_segment_from L slot bs c (4096 * length (rs @ [r])) (rs @ [r]) (segment_previous L (rs @ [r]))"
proof -
  have enc: "slice (4096 * length rs) 4096 bs = CommitRecord_encode L r"
    by (simp add: bs slice_def commits.slot_bytes_append)
  have dec: "CommitRecord_decode L (CommitRecord_encode L r) = Inr r"
    using chain by (simp add: commits.chain_snoc commit_decode_encode [OF assms(1)])
  have "segment_continues (segment_previous L rs) r = Inr True"
    using chain by (auto simp: segment_continues_iff commits.chain_snoc)
  moreover have "segment_previous L (rs @ [r]) = Some (r, CommitRecordHash_of L (CommitRecord_encode L r))"
    by (simp add: segment_previous_def)
  ultimately show ?thesis
    using c by (subst decode_segment_from.simps) (simp add: Let_def enc dec add.commute)
qed

lemma decode_segment_from_skip:
  assumes "digest_laws L" and "commit_chain L (ps @ rs)" and "bs = commit_bytes L (ps @ rs) @ rest"
    and "4096 * length (ps @ rs) \<le> c"
  shows "decode_segment_from L slot bs c (4096 * length ps) ps (segment_previous L ps)
    = decode_segment_from L slot bs c (4096 * length (ps @ rs)) (ps @ rs) (segment_previous L (ps @ rs))"
  using assms(2-4)
proof (induction rs arbitrary: ps)
  case (Cons r rs)
  have chain: "commit_chain L (ps @ [r])"
    using Cons.prems(1) commits.chain_appendD [of L "ps @ [r]" rs] by simp
  have "decode_segment_from L slot bs c (4096 * length ps) ps (segment_previous L ps)
    = decode_segment_from L slot bs c (4096 * length (ps @ [r])) (ps @ [r]) (segment_previous L (ps @ [r]))"
    using Cons.prems by (intro decode_segment_from_step [OF assms(1) chain, where
        rest = "commit_bytes L rs @ rest"]) (simp_all add: commits.slot_bytes_append)
  with Cons.IH [of "ps @ [r]"] Cons.prems show ?case by simp
qed simp

lemma decode_segment_from_extends:
  "decode_segment_from L slot bs c off rs prev = Inr snap \<Longrightarrow> prefix rs (ls_records snap)"
proof (induction L slot bs c off rs prev rule: decode_segment_from.induct)
  case (1 L slot bs c off rs prev)
  from "1.prems" "1.IH" show ?case
    by (subst (asm) decode_segment_from.simps)
      (auto simp: Let_def split: if_splits sum.splits intro: append_prefixD)
qed

lemma decode_segment_chain:
  assumes "digest_laws L" and "commit_chain L rs"
  shows "decode_segment L slot (commit_bytes L rs @ rest) =
    decode_segment_from L slot (commit_bytes L rs @ rest)
      (4096 * length rs + length rest div 4096 * 4096) (4096 * length rs) rs (segment_previous L rs)"
proof -
  let ?bs = "commit_bytes L rs @ rest"
  have "length ?bs div 4096 * 4096 = 4096 * length rs + length rest div 4096 * 4096"
    by (simp add: commits.length_slot_bytes)
  moreover have "segment_previous L [] = None" by (simp add: segment_previous_def)
  ultimately show ?thesis
    using decode_segment_from_skip [OF assms(1), of "[]" rs ?bs rest] assms(2)
    by (simp add: decode_segment_def mult.commute)
qed

lemma decode_segment_complete:
  assumes "digest_laws L" and "commit_chain L rs" and "length rest < 4096"
  shows "decode_segment L slot (commit_bytes L rs @ rest) = Inr (commit_snapshot L slot rs
    (if rest = [] then Clean else Torn (4096 * length rs) (length rest)))"
  using assms(3) unfolding decode_segment_chain [OF assms(1,2)]
  by (subst decode_segment_from.simps) (simp add: Let_def slot_snapshot_def)

lemma decode_segment_sound:
  assumes "digest_laws L" and "decode_segment L slot bs = Inr snap"
  shows "\<exists>rs. commit_chain L rs \<and> commit_bytes L rs = take (4096 * length rs) bs \<and>
       snap = commit_snapshot L slot rs (ls_tail snap) \<and>
       (ls_tail snap = Clean \<longleftrightarrow> commit_bytes L rs = bs)"
  by (rule decode_segment_from_sound [OF assms(2) [unfolded decode_segment_def Let_def] assms(1)])
    (simp_all add: segment_previous_def)

lemma decode_segment_longest:
  assumes "digest_laws L" and "decode_segment L slot bs = Inr snap"
    and "commit_chain L rs" and "prefix (commit_bytes L rs) bs"
  shows "prefix rs (ls_records snap)"
proof -
  from assms(4) obtain rest where "bs = commit_bytes L rs @ rest" by (auto simp: prefix_def)
  with assms(2) decode_segment_chain [OF assms(1,3)] show ?thesis
    by (simp add: decode_segment_from_extends)
qed

section \<open>Properties\<close>

text \<open>
  C26: Decoding a slot of the Namespace Commit Log returns the longest chain of valid, linked records
  at its start: the records form a chain whose encodings are the first bytes of the slot, every
  other such chain is a prefix of it, and the tail is reported clean exactly when the slot holds
  nothing else.
\<close>

theorem decode_segment_longest_chain:
  assumes "digest_laws L" and "decode_segment L slot bs = Inr snap"
  shows "commit_chain L (ls_records snap) \<and> ls_bytes snap = commit_bytes L (ls_records snap) \<and>
    prefix (ls_bytes snap) bs \<and> (ls_tail snap = Clean \<longleftrightarrow> ls_bytes snap = bs) \<and>
    (\<forall>rs. commit_chain L rs \<and> prefix (commit_bytes L rs) bs \<longrightarrow> prefix rs (ls_records snap))"
proof -
  obtain rs where rs: "commit_chain L rs" "commit_bytes L rs = take (4096 * length rs) bs"
    "snap = commit_snapshot L slot rs (ls_tail snap)" "ls_tail snap = Clean \<longleftrightarrow> commit_bytes L rs = bs"
    using decode_segment_sound [OF assms] by blast
  then have "ls_records snap = rs" "ls_bytes snap = commit_bytes L rs"
    by (metis log_snapshot.select_convs(2,3) slot_snapshot_def)+
  then show ?thesis
    using rs(1,2,4) decode_segment_longest [OF assms] by (simp add: take_is_prefix)
qed

theorem decode_segment_longest_chain_witness:
  "\<exists>snap. decode_segment reference_digests 0 (commit_bytes reference_digests [sample_commit] @ [7]) = Inr snap \<and>
     commit_chain reference_digests (ls_records snap) \<and> ls_tail snap \<noteq> Clean"
proof -
  have "commit_chain reference_digests [sample_commit]"
    using valid_sample_commit by (simp add: commit_chain_def)
  from decode_segment_complete [OF reference.digest_laws_axioms this, of "[7]" 0]
  have run: "decode_segment reference_digests 0 (commit_bytes reference_digests [sample_commit] @ [7]) =
      Inr (commit_snapshot reference_digests 0 [sample_commit] (Torn 4096 1))" by simp
  with decode_segment_longest_chain [OF reference.digest_laws_axioms run] show ?thesis
    by (auto simp: slot_snapshot_def)
qed

end
