(* ===== verification/Paired_Log.thy ===== *)
theory Paired_Log
  imports Record_Chain Memory_Storage "HOL-Library.Sublist"
begin

text \<open>
  What holds of every paired-slot log of \<open>crates/fastdup-store/src\<close>, whatever its records are: the
  load of the two slots, the opening that creates them, and what a crash during an append leaves.

  The locale \<open>paired_log\<close> is the interface: a log provides its decoder, its slot names and its append,
  and promises that the decoder inverts the encoding of a chain and what the append does to the slot
  it writes. \<open>paired_memory_log\<close> adds the in-memory storage and its histories: \<open>log_run\<close>. The Namespace
  Commit Log and the Exact activation log are both instances.
\<close>

definition empty_snapshot :: "'t \<Rightarrow> nat \<Rightarrow> ('r, 't) log_snapshot" where
  "empty_snapshot clean slot = \<lparr>ls_active_slot = slot, ls_bytes = [], ls_records = [], ls_tail = clean\<rparr>"

definition paired_load ::
  "'s storage_io \<Rightarrow> (nat \<Rightarrow> bytes \<Rightarrow> 'e + ('r, 't) log_snapshot) \<Rightarrow> (io_error \<Rightarrow> 'e) \<Rightarrow> 'e \<Rightarrow> 'e \<Rightarrow> 'e \<Rightarrow> 'e \<Rightarrow>
   ('r \<Rightarrow> u64) \<Rightarrow> 't \<Rightarrow> (nat \<Rightarrow> string) \<Rightarrow> ('s, 'e, ('r, 't) log_snapshot option) io" where
  "paired_load S decode io too_large mismatch broken divergent gen clean slot_name =
     io_bind (load_slots S decode io too_large mismatch [(0, slot_name 0), (1, slot_name 1)])
       (\<lambda>segments. io_result (select_slots gen clean broken divergent segments))"

definition paired_open ::
  "'s storage_io \<Rightarrow> (io_error \<Rightarrow> 'e) \<Rightarrow> 'e \<Rightarrow> 't \<Rightarrow> (nat \<Rightarrow> string) \<Rightarrow>
   ('s, 'e, ('r, 't) log_snapshot option) io \<Rightarrow> ('s, 'e, ('r, 't) log_snapshot) io" where
  "paired_open S io too_large clean slot_name load =
     io_bind (create_slots S io too_large [slot_name 0, slot_name 1]) (\<lambda>_.
     io_bind load (\<lambda>loaded.
       case loaded of Some snapshot \<Rightarrow> io_return snapshot | None \<Rightarrow> io_return (empty_snapshot clean 0)))"

text \<open>The files of a log whose active slot \<open>a\<close> holds the records \<open>rs\<close> and whose other slot holds
  \<open>os\<close>, all of it synced.\<close>

definition paired_files ::
  "('r \<Rightarrow> bytes) \<Rightarrow> ('r list \<Rightarrow> bool) \<Rightarrow> (nat \<Rightarrow> string) \<Rightarrow> nat \<Rightarrow> 'r list \<Rightarrow> 'r list \<Rightarrow>
   (string \<Rightarrow> vfile option) \<Rightarrow> bool" where
  "paired_files enc chain slot_name a rs os V \<longleftrightarrow>
     a \<le> 1 \<and> chain rs \<and> chain os \<and> paired_slots rs os \<and>
     (rs = [] \<longrightarrow> os = [] \<and> a = 0) \<and>
     V (slot_name a) = Some (synced_file (slot_bytes enc rs)) \<and>
     V (slot_name (1 - a)) = Some (synced_file (slot_bytes enc os))"

text \<open>What an append makes of the active slot and its records.\<close>

definition log_advance :: "nat \<Rightarrow> 'r list \<Rightarrow> 'r \<Rightarrow> nat \<times> 'r list" where
  "log_advance a rs r = (if length rs < MAX_RECORDS then (a, rs @ [r]) else (1 - a, [last rs, r]))"

text \<open>What a reader gets of such files.\<close>

definition log_loaded :: "('r \<Rightarrow> bytes) \<Rightarrow> 't \<Rightarrow> nat \<Rightarrow> 'r list \<Rightarrow> ('r, 't) log_snapshot option" where
  "log_loaded enc clean a rs = (if rs = [] then None else Some (slot_snapshot enc a rs clean))"

text \<open>What a reader finds after an append of \<open>r\<close> to the records \<open>rs\<close> was cut off by a crash: the new
  snapshot when the append returned, otherwise the old or the new records.\<close>

definition log_crash_outcome ::
  "('r \<Rightarrow> bytes) \<Rightarrow> 't \<Rightarrow> nat \<Rightarrow> 'r list \<Rightarrow> 'r \<Rightarrow> 'e + ('r, 't) log_snapshot \<Rightarrow>
   ('r, 't) log_snapshot option \<Rightarrow> bool" where
  "log_crash_outcome enc clean a rs r res x \<longleftrightarrow>
     (case log_advance a rs r of (a', rs') \<Rightarrow>
        case res of
          Inr snap \<Rightarrow> snap = slot_snapshot enc a' rs' clean \<and> x = Some snap
        | Inl e \<Rightarrow> x = log_loaded enc clean a rs \<or> x = log_loaded enc clean a' rs')"

definition log_follows :: "('r \<Rightarrow> bool) \<Rightarrow> ('r \<Rightarrow> 'r \<Rightarrow> bool) \<Rightarrow> 'r list \<Rightarrow> 'r \<Rightarrow> bool" where
  "log_follows starts succeeds rs r \<longleftrightarrow> (if rs = [] then starts r else succeeds (last rs) r)"

text \<open>The log of a history: the records \<open>G\<close> that became durable, in order, from the first record
  of a chain on. The active slot holds the end of it.\<close>

definition log_history :: "('r list \<Rightarrow> bool) \<Rightarrow> ('r \<Rightarrow> bool) \<Rightarrow> 'r list \<Rightarrow> bool" where
  "log_history chain starts G \<longleftrightarrow> chain G \<and> (G \<noteq> [] \<longrightarrow> starts (hd G))"

text \<open>
  The histories of a log on the in-memory storage: \<open>log_run valid open_log append restart acc snap s\<close>
  says that the storage \<open>s\<close> and the writer's snapshot \<open>snap\<close> can arise from an empty storage by appends
  with arbitrary faults and by restarts, where \<open>acc\<close> lists the records whose append returned. After
  an error the writer restarts and reloads, as the code demands.
\<close>

inductive log_run ::
  "('r \<Rightarrow> bool) \<Rightarrow> (storage_state, 'e, 'snap) io \<Rightarrow> ('snap \<Rightarrow> 'r \<Rightarrow> (storage_state, 'e, 'snap) io) \<Rightarrow>
   (storage_state \<Rightarrow> storage_state) \<Rightarrow> 'r list \<Rightarrow> 'snap \<Rightarrow> storage_state \<Rightarrow> bool"
  for valid open_log append restart where
  log_start: "open_log mem_new = (Inr snap, s) \<Longrightarrow> log_run valid open_log append restart [] snap s"
| log_append_ok: "log_run valid open_log append restart acc snap s \<Longrightarrow> valid r \<Longrightarrow>
    append snap r (s\<lparr>fail_before := fb, fail_after := fa\<rparr>) = (Inr snap', s') \<Longrightarrow>
    log_run valid open_log append restart (acc @ [r]) snap' s'"
| log_append_error: "log_run valid open_log append restart acc snap s \<Longrightarrow> valid r \<Longrightarrow>
    append snap r (s\<lparr>fail_before := fb, fail_after := fa\<rparr>) = (Inl e, s') \<Longrightarrow>
    open_log (restart s') = (Inr snap', s'') \<Longrightarrow>
    log_run valid open_log append restart acc snap' s''"
| log_restart: "log_run valid open_log append restart acc snap s \<Longrightarrow>
    open_log (restart s) = (Inr snap', s') \<Longrightarrow>
    log_run valid open_log append restart acc snap' s'"

section \<open>The interface of a log\<close>

lemma snapshot_selectors [simp]:
  "ls_active_slot (slot_snapshot enc a rs t) = a" "ls_records (slot_snapshot enc a rs t) = rs"
  "ls_bytes (slot_snapshot enc a rs t) = slot_bytes enc rs" "ls_tail (slot_snapshot enc a rs t) = t"
  "record_count (slot_snapshot enc a rs t) = length rs"
  by (simp_all add: slot_snapshot_def record_count_def)

lemma empty_slot_snapshot: "slot_snapshot enc a [] t = empty_snapshot t a"
  by (simp add: slot_snapshot_def empty_snapshot_def slot_bytes_def)

locale paired_log =
  record_chain enc valid gen succeeds + storage_laws S inv healthy view restart
  for enc :: "'r \<Rightarrow> bytes" and valid gen succeeds
    and S :: "'s storage_io" and inv healthy view restart +
  fixes slot_name :: "nat \<Rightarrow> string"
    and decode :: "nat \<Rightarrow> bytes \<Rightarrow> 'e + ('r, 't) log_snapshot"
    and io :: "io_error \<Rightarrow> 'e" and too_large mismatch broken divergent :: 'e
    and clean :: 't and tail :: "'r list \<Rightarrow> bytes \<Rightarrow> 't"
    and starts :: "'r \<Rightarrow> bool"
    and append :: "('r, 't) log_snapshot \<Rightarrow> 'r \<Rightarrow> ('s, 'e, ('r, 't) log_snapshot) io"
  assumes slot_names: "slot_name 0 \<noteq> slot_name 1"
    and tail_Nil: "tail rs rest = clean \<longleftrightarrow> rest = []"
    and decode_chain: "chain rs \<Longrightarrow> length rest < RECORD_BYTES \<Longrightarrow>
      decode k (slot_bytes enc rs @ rest) = Inr (slot_snapshot enc k rs (tail rs rest))"
    and append_refused: "\<not> log_follows starts succeeds rs r \<Longrightarrow>
      \<exists>e. append (slot_snapshot enc a rs clean) r = io_fail e"
    and append_extend: "log_follows starts succeeds rs r \<Longrightarrow> a \<le> 1 \<Longrightarrow> chain (rs @ [r]) \<Longrightarrow> length rs < MAX_RECORDS \<Longrightarrow>
      slot_bytes enc rs \<in> T \<Longrightarrow> slot_bytes enc (rs @ [r]) \<in> T \<Longrightarrow>
      triple (stage h (slot_name a) T F (slot_bytes enc rs)) (append (slot_snapshot enc a rs clean) r)
        (\<lambda>snap s. snap = slot_snapshot enc a (rs @ [r]) clean \<and>
           stage h (slot_name a) {slot_bytes enc (rs @ [r])} F (slot_bytes enc (rs @ [r])) s)
        (\<lambda>e s. \<not> h \<and> within (slot_name a) T F s)"
    and append_rotate: "log_follows starts succeeds rs r \<Longrightarrow> a \<le> 1 \<Longrightarrow> chain (rs @ [r]) \<Longrightarrow> length rs = MAX_RECORDS \<Longrightarrow>
      x \<in> T \<Longrightarrow> [] \<in> T \<Longrightarrow> slot_bytes enc [last rs] \<in> T \<Longrightarrow> slot_bytes enc [last rs, r] \<in> T \<Longrightarrow>
      triple (stage h (slot_name (1 - a)) T F x) (append (slot_snapshot enc a rs clean) r)
        (\<lambda>snap s. snap = slot_snapshot enc (1 - a) [last rs, r] clean \<and>
           stage h (slot_name (1 - a)) {slot_bytes enc [last rs, r]} F (slot_bytes enc [last rs, r]) s)
        (\<lambda>e s. \<not> h \<and> within (slot_name (1 - a)) T F s)"
begin

abbreviation files_of where "files_of \<equiv> paired_files enc chain slot_name"
abbreviation loaded where "loaded \<equiv> log_loaded enc clean"
abbreviation follows where "follows \<equiv> log_follows starts succeeds"

definition load where
  "load = paired_load S decode io too_large mismatch broken divergent gen clean slot_name"

definition open_log where
  "open_log = paired_open S io too_large clean slot_name load"

lemma other_slot: "a \<le> 1 \<Longrightarrow> slot_name (1 - a) \<noteq> slot_name a"
  using slot_names by (cases "a = 0") (auto simp: le_Suc_eq)

lemma load_torn:
  assumes "a \<le> 1" and chains: "chain rs" "chain os" "paired_slots rs os"
    and Nil: "rs = [] \<Longrightarrow> os = [] \<and> rest = []" and rest: "length rest < RECORD_BYTES" "rest = [] \<or> length rs < MAX_RECORDS"
    and V: "V (slot_name a) = Some v" "v_live v = slot_bytes enc rs @ rest"
      "V (slot_name (1 - a)) = Some w" "v_live w = slot_bytes enc os"
  shows "triple (holds h V) load
    (\<lambda>x s. x = (if rs = [] then None else Some (slot_snapshot enc a rs (tail rs rest))) \<and> holds h V s)
    (\<lambda>e s. \<not> h \<and> holds False V s)"
proof -
  let ?x = "if rs = [] then None else Some (slot_snapshot enc a rs (tail rs rest))"
  have lens: "length (v_live v) \<le> MAX_SLOT_BYTES" "length (v_live w) \<le> MAX_SLOT_BYTES"
    using chains(3) V(2,4) rest by (auto simp: paired_slots_def)
  have tail: "tail ys [] = clean" for ys by (simp add: tail_Nil)
  have dec: "decode k (v_live v) = Inr (slot_snapshot enc k rs (tail rs rest))"
    "decode k (v_live w) = Inr (slot_snapshot enc k os clean)" for k
    using decode_chain [OF chains(1) rest(1)] decode_chain [OF chains(2), of "[]"] V tail by simp_all
  let ?segs = "if a = 0 then [slot_snapshot enc 0 rs (tail rs rest), slot_snapshot enc 1 os clean]
      else [slot_snapshot enc 0 os clean, slot_snapshot enc a rs (tail rs rest)]"
  have sel: "select_slots gen clean broken divergent ?segs = Inr ?x"
    by (rule select_slots_active) (use chains Nil tail in auto)
  have a: "a = 0 \<or> a = 1" using \<open>a \<le> 1\<close> by auto
  then have read: "list_all2 (\<lambda>(slot, name) seg. \<exists>v. V name = Some v \<and> length (v_live v) \<le> MAX_SLOT_BYTES \<and>
      decode slot (v_live v) = Inr seg) [(0, slot_name 0), (1, slot_name 1)] ?segs"
    using V(1,3) lens dec by auto
  show ?thesis
    unfolding load_def paired_load_def
    by (rule triple_bind_eq [OF load_slots_holds [OF read]]) (use sel in \<open>auto intro: triple_return\<close>)
qed

lemma load_files:
  assumes "files_of a rs os V"
  shows "triple (holds h V) load (\<lambda>x s. x = loaded a rs \<and> holds h V s) (\<lambda>e s. \<not> h \<and> holds False V s)"
proof -
  have "tail rs [] = clean" by (simp add: tail_Nil)
  with load_torn [of a rs os "[]" V _ _ h] assms show ?thesis
    by (auto simp: paired_files_def synced_file_def log_loaded_def)
qed

lemma files_linked:
  "files_of a rs os V \<Longrightarrow> files_of a rs os (\<lambda>n. map_option (\<lambda>v. v\<lparr>v_linked := True\<rparr>) (V n))"
  by (simp add: paired_files_def synced_file_def)

lemma files_restart: "inv s \<Longrightarrow> files_of a rs os (view s) \<Longrightarrow> files_of a rs os (view (restart s))"
  by (simp add: paired_files_def restart_synced_file)

lemma open_files:
  assumes files: "files_of a rs os V"
  shows "triple (holds h V) open_log
    (\<lambda>x s. x = slot_snapshot enc a rs clean \<and> inv s \<and> (h \<longrightarrow> healthy s) \<and> files_of a rs os (view s))
    (\<lambda>e s. \<not> h \<and> inv s \<and> files_of a rs os (view s))"
proof -
  let ?V = "\<lambda>n. map_option (\<lambda>v. v\<lparr>v_linked := True\<rparr>) (V n)"
  let ?E = "\<lambda>e s. \<not> h \<and> inv s \<and> files_of a rs os (view s)"
  note linked = files_linked [OF files]
  have "\<exists>v. V n = Some v \<and> length (v_live v) \<le> MAX_SLOT_BYTES"
    if "n \<in> set [slot_name 0, slot_name 1]" for n
  proof -
    from that files have "n = slot_name a \<or> n = slot_name (1 - a)"
      by (auto simp: paired_files_def le_Suc_eq)
    with files show ?thesis by (auto simp: paired_files_def paired_slots_def synced_file_def length_enc)
  qed
  from create_slots_present [OF this refl]
  have ensure: "triple (holds h V) (create_slots S io too_large [slot_name 0, slot_name 1]) (\<lambda>_. holds h ?V) ?E"
    by (rule triple_weaken) (use files linked in \<open>auto simp: holds_def\<close>)
  have load: "triple (holds h ?V) load (\<lambda>x s. x = loaded a rs \<and> holds h ?V s) ?E"
    by (rule triple_weaken [OF load_files [OF linked]]) (use linked in \<open>auto simp: holds_def\<close>)
  have "slot_snapshot enc a [] clean = empty_snapshot clean 0" if "rs = []"
    using that files by (simp add: paired_files_def empty_slot_snapshot)
  then show ?thesis
    unfolding open_log_def paired_open_def
    by (intro triple_bind [OF ensure] triple_bind_eq [OF load])
      (use files linked in \<open>auto intro!: triple_return simp: holds_def log_loaded_def\<close>)
qed

lemma open_new:
  "triple (holds False (\<lambda>_. None)) open_log
    (\<lambda>x s. x = slot_snapshot enc 0 [] clean \<and> inv s \<and> files_of 0 [] [] (view s)) (\<lambda>e. inv)"
proof -
  let ?names = "[slot_name 0, slot_name 1]"
  let ?V = "created_slots ?names (\<lambda>_. None)"
  have ensure: "triple (holds False (\<lambda>_. None)) (create_slots S io too_large ?names) (\<lambda>_. holds False ?V) (\<lambda>e. inv)"
    by (rule create_slots_created) (use slot_names in simp)
  have files: "files_of 0 [] [] ?V"
    by (simp add: paired_files_def paired_slots_def created_slots_def)
  have load: "triple (holds False ?V) load (\<lambda>x s. x = None \<and> holds False ?V s) (\<lambda>e. inv)"
    by (rule triple_weaken [OF load_files [OF files, of False]]) (auto simp: holds_def log_loaded_def)
  show ?thesis
    unfolding open_log_def paired_open_def
    by (rule triple_bind [OF ensure], rule triple_bind_eq [OF load])
      (use files in \<open>auto intro!: triple_return simp: holds_def empty_slot_snapshot\<close>)
qed

text \<open>What is known after an append: the new snapshot, or after an error and a restart the old or
  the new records.\<close>

definition outcome where
  "outcome h a rs a' rs' res s' \<longleftrightarrow> inv s' \<and>
     (case res of
        Inr snap \<Rightarrow> snap = slot_snapshot enc a' rs' clean \<and> (\<exists>os'. files_of a' rs' os' (view s'))
      | Inl (e :: 'e) \<Rightarrow> \<not> h \<and>
          (\<exists>os'. files_of a rs os' (view (restart s')) \<or> files_of a' rs' os' (view (restart s'))))"

lemma append_extend_outcome:
  assumes s: "inv s" "h \<longrightarrow> healthy s" and files: "files_of a rs os (view s)"
    and new: "chain (rs @ [r])" and len: "length rs < MAX_RECORDS" and ver: "follows rs r"
    and run: "append (slot_snapshot enc a rs clean) r s = (res, s')"
  shows "outcome h a rs a (rs @ [r]) res s'"
proof -
  have chain: "chain rs" "chain os"
    and pair: "paired_slots rs os" and a: "a \<le> 1" "rs = [] \<longrightarrow> os = [] \<and> a = 0"
    and V: "view s (slot_name a) = Some (synced_file (slot_bytes enc rs))"
      "view s (slot_name (1 - a)) = Some (synced_file (slot_bytes enc os))"
    using files by (auto simp: paired_files_def)
  note names = other_slot [OF a(1)]
  have pair': "paired_slots (rs @ [r]) os"
    using pair len a(2) by (auto simp: paired_slots_def hd_append)
  let ?T = "{slot_bytes enc rs, slot_bytes enc (rs @ [r])}"
  have st: "stage h (slot_name a) ?T (view s) (slot_bytes enc rs) s"
    using s V by (intro stage_start) simp_all
  have t: "triple (stage h (slot_name a) ?T (view s) (slot_bytes enc rs)) (append (slot_snapshot enc a rs clean) r)
      (\<lambda>snap s'. snap = slot_snapshot enc a (rs @ [r]) clean \<and>
         stage h (slot_name a) {slot_bytes enc (rs @ [r])} (view s) (slot_bytes enc (rs @ [r])) s')
      (\<lambda>e s'. \<not> h \<and> within (slot_name a) ?T (view s) s')"
    by (rule append_extend [OF ver a(1) new len]) simp_all
  show ?thesis
  proof (cases res)
    case (Inr snap)
    then have snap: "snap = slot_snapshot enc a (rs @ [r]) clean"
      and st: "stage h (slot_name a) {slot_bytes enc (rs @ [r])} (view s) (slot_bytes enc (rs @ [r])) s'"
      using triple_Inr [OF t st] run by simp_all
    have "files_of a (rs @ [r]) os (view s')"
      using st V(2) names stage_synced_file [OF st] chain new pair' a
      by (simp add: paired_files_def stage_def)
    with snap st Inr show ?thesis by (auto simp: outcome_def stage_def)
  next
    case (Inl e)
    then have err: "\<not> h" and w: "within (slot_name a) ?T (view s) s'"
      using triple_Inl [OF t st] run by simp_all
    obtain x where x: "x \<in> ?T" "view (restart s') (slot_name a) = Some (synced_file x)"
      "view (restart s') (slot_name (1 - a)) = Some (synced_file (slot_bytes enc os))"
      using within_restart [OF w names V(2)] .
    have "files_of a rs os (view (restart s')) \<or> files_of a (rs @ [r]) os (view (restart s'))"
      using x chain new pair pair' a by (auto simp: paired_files_def)
    with w err Inl show ?thesis by (auto simp: outcome_def within_def stage_def)
  qed
qed

lemma append_rotate_outcome:
  assumes s: "inv s" "h \<longrightarrow> healthy s" and files: "files_of a rs os (view s)"
    and new: "chain (rs @ [r])" and len: "length rs = MAX_RECORDS" and ver: "follows rs r"
    and run: "append (slot_snapshot enc a rs clean) r s = (res, s')"
  shows "outcome h a rs (1 - a) [last rs, r] res s'"
proof -
  have chain: "chain rs" "chain os"
    and pair: "paired_slots rs os" and a: "a \<le> 1" "rs = [] \<longrightarrow> os = [] \<and> a = 0"
    and V: "view s (slot_name a) = Some (synced_file (slot_bytes enc rs))"
      "view s (slot_name (1 - a)) = Some (synced_file (slot_bytes enc os))"
    using files by (auto simp: paired_files_def)
  note names = other_slot [OF a(1)]
  have rs: "rs \<noteq> []" using len by auto
  then have chain': "chain [last rs]" "chain [last rs, r]"
    using chain_bridge [OF new] by auto
  have pair': "paired_slots rs []" "paired_slots rs [last rs]" "paired_slots [last rs, r] rs"
    using len by (auto simp: paired_slots_def)
  let ?T = "{slot_bytes enc os, [], slot_bytes enc [last rs], slot_bytes enc [last rs, r]}"
  have st: "stage h (slot_name (1 - a)) ?T (view s) (slot_bytes enc os) s"
    using s V by (intro stage_start) simp_all
  have t: "triple (stage h (slot_name (1 - a)) ?T (view s) (slot_bytes enc os)) (append (slot_snapshot enc a rs clean) r)
      (\<lambda>snap s'. snap = slot_snapshot enc (1 - a) [last rs, r] clean \<and>
         stage h (slot_name (1 - a)) {slot_bytes enc [last rs, r]} (view s) (slot_bytes enc [last rs, r]) s')
      (\<lambda>e s'. \<not> h \<and> within (slot_name (1 - a)) ?T (view s) s')"
    by (rule append_rotate [OF ver a(1) new len]) (simp_all del: slot_bytes_simps)
  show ?thesis
  proof (cases res)
    case (Inr snap)
    then have snap: "snap = slot_snapshot enc (1 - a) [last rs, r] clean"
      and st: "stage h (slot_name (1 - a)) {slot_bytes enc [last rs, r]} (view s) (slot_bytes enc [last rs, r]) s'"
      using triple_Inr [OF t st] run by simp_all
    have "files_of (1 - a) [last rs, r] rs (view s')"
      using st V(1) names stage_synced_file [OF st] chain chain' pair' a
      by (simp add: paired_files_def stage_def)
    with snap st Inr show ?thesis by (auto simp: outcome_def stage_def)
  next
    case (Inl e)
    then have err: "\<not> h" and w: "within (slot_name (1 - a)) ?T (view s) s'"
      using triple_Inl [OF t st] run by simp_all
    obtain x where x: "x \<in> ?T" "view (restart s') (slot_name (1 - a)) = Some (synced_file x)"
      "view (restart s') (slot_name a) = Some (synced_file (slot_bytes enc rs))"
      using within_restart [OF w names [symmetric] V(1)] .
    from x(1) consider (old) os' where "x = slot_bytes enc os'" "os' \<in> {os, [], [last rs]}"
      | (new) "x = slot_bytes enc [last rs, r]"
      by (metis empty_iff insert_iff slot_bytes_simps(1))
    then have "\<exists>os'. files_of a rs os' (view (restart s')) \<or> files_of (1 - a) [last rs, r] os' (view (restart s'))"
    proof cases
      case old
      then have "chain os'" "paired_slots rs os'"
        using chain chain' pair pair' by auto
      with old(1) show ?thesis using x(2,3) chain a rs by (auto simp: paired_files_def)
    next
      case new
      then show ?thesis using x(2,3) chain chain' pair' a rs by (auto simp: paired_files_def)
    qed
    with w err Inl show ?thesis by (auto simp: outcome_def within_def stage_def)
  qed
qed

lemma append_outcome:
  assumes s: "inv s" "h \<longrightarrow> healthy s" and files: "files_of a rs os (view s)"
    and r: "valid r" and ver: "follows rs r"
    and run: "append (slot_snapshot enc a rs clean) r s = (res, s')"
    and adv: "log_advance a rs r = (a', rs')"
  shows "outcome h a rs a' rs' res s'"
proof -
  have new: "chain (rs @ [r])"
    using files r ver by (auto simp: paired_files_def chain_snoc log_follows_def)
  have "length rs < MAX_RECORDS \<or> length rs = MAX_RECORDS"
    using files by (auto simp: paired_files_def paired_slots_def)
  then show ?thesis
  proof
    assume len: "length rs < MAX_RECORDS"
    then have "a' = a" "rs' = rs @ [r]" using adv by (auto simp: log_advance_def)
    then show ?thesis using append_extend_outcome [OF s files new len ver run] by simp
  next
    assume len: "length rs = MAX_RECORDS"
    then have "a' = 1 - a" "rs' = [last rs, r]" using adv by (auto simp: log_advance_def)
    then show ?thesis using append_rotate_outcome [OF s files new len ver run] by simp
  qed
qed

lemma append_rejected:
  assumes "\<not> follows rs r" and "append (slot_snapshot enc a rs clean) r s = (res, s')"
  shows "\<exists>e. res = Inl e \<and> s' = s"
  using append_refused [OF assms(1), of a] assms(2) by (auto simp: io_fail_def)

end

section \<open>Histories on the in-memory storage\<close>

lemma mem_create_slots_new:
  assumes "x \<noteq> y" and "valid_name x" and "valid_name y"
  shows "\<exists>s. create_slots memory_storage io too_large [x, y] mem_new = (Inr (), s) \<and> mem_healthy s"
proof -
  have "fst (create_slots memory_storage io too_large [x, y] mem_new) = Inr ()"
    "mem_healthy (snd (create_slots memory_storage io too_large [x, y] mem_new))"
    using assms by (simp_all add: mem_eval)
  then show ?thesis by (metis prod.collapse)
qed

lemma log_advance_suffix:
  assumes "suffix rs G" and "log_advance a rs r = (a', rs')" and "length rs \<le> MAX_RECORDS"
  shows "suffix rs' (G @ [r])" and "rs' \<noteq> []"
proof -
  obtain zs where G: "G = zs @ rs" using assms(1) by (auto simp: suffix_def)
  show "suffix rs' (G @ [r])"
  proof (cases "length rs < MAX_RECORDS")
    case True
    then show ?thesis using assms(2) G by (auto simp: log_advance_def suffix_def)
  next
    case False
    then have rs: "rs = butlast rs @ [last rs]" by (metis append_butlast_last_id length_0_conv zero_less_numeral)
    have "rs' = [last rs, r]" using False assms(2) by (simp add: log_advance_def)
    then have "G @ [r] = (zs @ butlast rs) @ rs'" using rs G by (metis append.assoc append_Cons append_Nil)
    then show ?thesis by (auto simp: suffix_def)
  qed
  show "rs' \<noteq> []" using assms(2) by (auto simp: log_advance_def split: if_splits)
qed

locale paired_memory_log =
  memory_laws view restart +
  paired_log enc valid gen succeeds memory_storage mem_honest mem_healthy view restart slot_name decode io
    too_large mismatch broken divergent clean tail starts append
  for view restart and enc :: "'r \<Rightarrow> bytes" and valid gen succeeds slot_name
    and decode :: "nat \<Rightarrow> bytes \<Rightarrow> 'e + ('r, 't) log_snapshot"
    and io too_large mismatch broken divergent clean tail starts append
begin

definition invariant where
  "invariant acc snap s \<longleftrightarrow> mem_honest s \<and>
     (\<exists>a rs os G. files_of a rs os (view s) \<and> snap = slot_snapshot enc a rs clean \<and>
        log_history chain starts G \<and> suffix rs G \<and> (rs = [] \<longrightarrow> G = []) \<and> subseq acc G)"

lemma history_snoc:
  assumes "log_history chain starts G" and "suffix rs G" and "rs = [] \<longrightarrow> G = []" and "valid r" and "follows rs r"
  shows "log_history chain starts (G @ [r])"
proof (cases "rs = []")
  case True
  then show ?thesis using assms by (simp add: log_history_def chain_snoc log_follows_def)
next
  case False
  then have "G \<noteq> []" "last G = last rs" using assms(2) by (auto simp: suffix_def)
  with False show ?thesis using assms by (simp add: log_history_def chain_snoc log_follows_def)
qed

lemma reload:
  assumes "mem_honest s" and "mem_healthy s" and files: "files_of a rs os (view s)"
  obtains s' where "open_log s = (Inr (slot_snapshot enc a rs clean), s')"
    and "mem_honest s'" and "files_of a rs os (view s')"
  using triple_success [OF open_files [OF files, of True], of s] assms(1,2)
  by (auto simp: holds_def)

lemma invariant_reload:
  assumes "mem_honest s" and "files_of a rs os (view (restart s))"
    and "log_history chain starts G" and "suffix rs G" and "rs = [] \<longrightarrow> G = []" and "subseq acc G"
    and "open_log (restart s) = (Inr snap, s')"
  shows "invariant acc snap s'"
proof -
  have "mem_honest (restart s)" "mem_healthy (restart s)" using restart_law assms(1) by auto
  from reload [OF this assms(2)] assms(7)
  have "snap = slot_snapshot enc a rs clean" "mem_honest s'" "files_of a rs os (view s')" by auto
  with assms show ?thesis unfolding invariant_def by blast
qed

definition step_ok where
  "step_ok acc r res s' \<longleftrightarrow> mem_honest s' \<and>
     (case res of
        Inr snap' \<Rightarrow> invariant (acc @ [r]) snap' s'
      | Inl (e :: 'e) \<Rightarrow>
          (\<forall>snap' s''. open_log (restart s') = (Inr snap', s'') \<longrightarrow> invariant acc snap' s''))"

lemma outcome_step:
  assumes out: "outcome False a rs a' rs' res s'"
    and G: "log_history chain starts G" "suffix rs G" "rs = [] \<longrightarrow> G = []" "subseq acc G"
    and G': "log_history chain starts (G @ [r])" "suffix rs' (G @ [r])" "rs' \<noteq> []"
  shows "step_ok acc r res s'"
proof -
  have honest: "mem_honest s'" using out by (simp add: outcome_def)
  have acc: "subseq (acc @ [r]) (G @ [r])" "subseq acc (G @ [r])"
    using G(4) by (simp_all add: subseq_append_le_same_iff list_emb_prefix)
  show ?thesis
  proof (cases res)
    case (Inr snap)
    then obtain os' where "snap = slot_snapshot enc a' rs' clean" "files_of a' rs' os' (view s')"
      using out by (auto simp: outcome_def)
    then have "invariant (acc @ [r]) snap s'"
      using honest G' acc(1) unfolding invariant_def by blast
    with honest Inr show ?thesis by (simp add: step_ok_def)
  next
    case (Inl e)
    then obtain os' where "files_of a rs os' (view (restart s')) \<or> files_of a' rs' os' (view (restart s'))"
      using out by (auto simp: outcome_def)
    then have "invariant acc snap s''" if "open_log (restart s') = (Inr snap, s'')" for snap s''
      using invariant_reload [OF honest _ G, of a os' snap s'', OF _ that]
        invariant_reload [OF honest _ G'(1,2) _ acc(2), of a' os' snap s'', OF _ _ that] G'(3)
      by blast
    with honest Inl show ?thesis by (simp add: step_ok_def)
  qed
qed

lemma invariant_append:
  assumes inv: "invariant acc snap s" and r: "valid r"
    and run: "append snap r (s\<lparr>fail_before := fb, fail_after := fa\<rparr>) = (res, s')"
  shows "step_ok acc r res s'"
proof -
  let ?s = "s\<lparr>fail_before := fb, fail_after := fa\<rparr>"
  obtain a rs os G where files: "files_of a rs os (view ?s)" and snap: "snap = slot_snapshot enc a rs clean"
    and G: "log_history chain starts G" "suffix rs G" "rs = [] \<longrightarrow> G = []" "subseq acc G" and honest: "mem_honest ?s"
    using inv by (auto simp: invariant_def view_faults)
  obtain a' rs' where adv: "log_advance a rs r = (a', rs')" by (cases "log_advance a rs r")
  have len: "length rs \<le> MAX_RECORDS" using files by (auto simp: paired_files_def paired_slots_def)
  show ?thesis
  proof (cases "follows rs r")
    case False
    then obtain e where "res = Inl e" "s' = ?s" using append_rejected run snap by blast
    then show ?thesis
      using invariant_reload [OF honest files_restart [OF honest files] G] honest
      by (simp add: step_ok_def)
  next
    case True
    have "outcome False a rs a' rs' res s'"
      using append_outcome [OF honest _ files r True _ adv, of False res s'] run by (simp add: snap)
    then show ?thesis
      using outcome_step [OF _ G] history_snoc [OF G(1-3) r True] log_advance_suffix [OF G(2) adv len] by blast
  qed
qed

lemma run_invariant:
  assumes "log_run valid open_log append restart acc snap s"
  shows "invariant acc snap s"
  using assms
proof (induction rule: log_run.induct)
  case (log_start snap s)
  have "holds False (\<lambda>_. None) mem_new" by (simp add: holds_def view_new)
  from triple_Inr [OF open_new this log_start] show ?case
    by (force simp: invariant_def log_history_def)
next
  case (log_append_ok acc snap s r fa fb snap' s')
  then show ?case using invariant_append by (fastforce simp: step_ok_def)
next
  case (log_append_error acc snap s r fa fb e s' snap' s'')
  then show ?case using invariant_append by (fastforce simp: step_ok_def)
next
  case (log_restart acc snap s snap' s')
  then obtain a rs os G where "files_of a rs os (view s)" and "mem_honest s"
    and G: "log_history chain starts G" "suffix rs G" "rs = [] \<longrightarrow> G = []" "subseq acc G"
    by (auto simp: invariant_def)
  then show ?case
    using invariant_reload [OF _ files_restart] log_restart(2) by blast
qed

lemma load_healthy:
  assumes "mem_honest s" and "mem_healthy s" and files: "files_of a rs os (view s)"
  shows "\<exists>s'. load s = (Inr (loaded a rs), s')"
proof -
  have "holds True (view s) s" using assms(1,2) by (simp add: holds_def)
  then obtain x s' where "load s = (Inr x, s')" "x = loaded a rs \<and> holds True (view s) s'"
    by (rule triple_success [OF load_files [OF files]])
  then show ?thesis by simp
qed

lemma load_restarted:
  assumes "mem_honest s" and "files_of a rs os (view (restart s))"
  shows "fst (load (restart s)) = Inr (loaded a rs)"
  using load_healthy [OF _ _ assms(2)] restart_law [OF assms(1)] by auto

lemma append_crash:
  assumes honest: "mem_honest s" and files: "files_of a rs os (view s)" and r: "valid r"
    and run: "append (slot_snapshot enc a rs clean) r s = (res, s')"
  shows "\<exists>x. fst (load (restart s')) = Inr x \<and> log_crash_outcome enc clean a rs r res x"
proof -
  obtain a' rs' where adv: "log_advance a rs r = (a', rs')" by (cases "log_advance a rs r")
  show ?thesis
  proof (cases "follows rs r")
    case False
    then obtain e where "res = Inl e" "s' = s" using append_rejected run by blast
    then show ?thesis
      using load_restarted [OF honest files_restart [OF honest files]]
      by (simp add: log_crash_outcome_def adv)
  next
    case True
    have out: "outcome False a rs a' rs' res s'"
      using append_outcome [OF honest _ files r True run adv] by simp
    then have honest': "mem_honest s'" by (simp add: outcome_def)
    have "rs' \<noteq> []" using adv by (auto simp: log_advance_def split: if_splits)
    then have loaded: "loaded a' rs' = Some (slot_snapshot enc a' rs' clean)"
      by (simp add: log_loaded_def)
    show ?thesis
    proof (cases res)
      case (Inr snap)
      with out obtain os' where "snap = slot_snapshot enc a' rs' clean" "files_of a' rs' os' (view s')"
        by (auto simp: outcome_def)
      with load_restarted [OF honest' files_restart [OF honest' this(2)]] Inr show ?thesis
        by (simp add: log_crash_outcome_def adv loaded)
    next
      case (Inl e)
      with out obtain os' where "files_of a rs os' (view (restart s')) \<or> files_of a' rs' os' (view (restart s'))"
        by (auto simp: outcome_def)
      with load_restarted [OF honest', of _ _ os'] Inl show ?thesis
        by (auto simp: log_crash_outcome_def adv)
    qed
  qed
qed

lemma append_healthy:
  assumes "mem_honest s" and "mem_healthy s" and files: "files_of a rs os (view s)"
    and "valid r" and "follows rs r" and "log_advance a rs r = (a', rs')"
  shows "\<exists>s' os'. append (slot_snapshot enc a rs clean) r s = (Inr (slot_snapshot enc a' rs' clean), s') \<and>
      mem_honest s' \<and> files_of a' rs' os' (view s')"
proof -
  obtain res s' where run: "append (slot_snapshot enc a rs clean) r s = (res, s')"
    by (cases "append (slot_snapshot enc a rs clean) r s")
  from append_outcome [OF assms(1) _ files assms(4,5) run assms(6), of True] assms(2)
  have "outcome True a rs a' rs' res s'" by simp
  with run show ?thesis by (cases res) (auto simp: outcome_def)
qed

lemma append_restart_files:
  assumes honest: "mem_honest s" and files: "files_of a rs os (view s)" and r: "valid r"
    and run: "append (slot_snapshot enc a rs clean) r s = (res, s')"
  shows "mem_honest s' \<and> (\<exists>a rs os. files_of a rs os (view (restart s')))"
proof (cases "follows rs r")
  case True
  obtain a' rs' where "log_advance a rs r = (a', rs')" by (cases "log_advance a rs r")
  then have out: "outcome False a rs a' rs' res s'"
    using append_outcome [OF honest _ files r True run] by simp
  then have "mem_honest s'" by (simp add: outcome_def)
  with out show ?thesis
    using files_restart [of s'] unfolding outcome_def by (cases res) (simp_all, blast+)
next
  case False
  then have "s' = s" using append_rejected run by blast
  with honest files_restart [OF honest files] show ?thesis by blast
qed

lemma run_reload:
  assumes "log_run valid open_log append restart acc snap s" and r: "valid r"
  shows "\<exists>snap'. fst (open_log (restart (snd (append snap r (s\<lparr>fail_before := fb, fail_after := fa\<rparr>))))) = Inr snap'"
proof -
  let ?s = "s\<lparr>fail_before := fb, fail_after := fa\<rparr>"
  obtain a rs os where files: "files_of a rs os (view ?s)" and snap: "snap = slot_snapshot enc a rs clean"
    and honest: "mem_honest ?s"
    using run_invariant [OF assms(1)] by (auto simp: invariant_def view_faults)
  obtain res s' where run: "append snap r ?s = (res, s')" by (cases "append snap r ?s")
  obtain a' rs' os' where s': "mem_honest s'" "files_of a' rs' os' (view (restart s'))"
    using append_restart_files [OF honest files r run [unfolded snap]] by blast
  have "mem_honest (restart s')" "mem_healthy (restart s')" using restart_law [OF s'(1)] by simp_all
  then obtain s'' where "open_log (restart s') = (Inr (slot_snapshot enc a' rs' clean), s'')"
    by (rule reload [OF _ _ s'(2)])
  then show ?thesis by (simp add: run)
qed

text \<open>A new storage, opened: an empty log, ready for the first record.\<close>

lemma open_mem_new:
  assumes "valid_name (slot_name 0)" and "valid_name (slot_name 1)"
  shows "\<exists>s. open_log mem_new = (Inr (slot_snapshot enc 0 [] clean), s) \<and> mem_honest s \<and> mem_healthy s \<and>
     files_of 0 [] [] (view s)"
proof -
  let ?names = "[slot_name 0, slot_name 1]"
  let ?V = "created_slots ?names (\<lambda>_. None)"
  have h: "holds False (\<lambda>_. None) mem_new" by (simp add: holds_def view_new)
  obtain s where s: "create_slots memory_storage io too_large ?names mem_new = (Inr (), s)" "mem_healthy s"
    using mem_create_slots_new [OF slot_names assms, of io too_large] by (elim exE conjE)
  have "triple (holds False (\<lambda>_. None)) (create_slots memory_storage io too_large ?names) (\<lambda>_. holds False ?V) (\<lambda>e. mem_honest)"
    by (rule create_slots_created) (use slot_names in simp)
  from triple_Inr [OF this h s(1)] s(2) have sV: "holds True ?V s" by (simp add: holds_def)
  have files: "files_of 0 [] [] ?V"
    by (simp add: paired_files_def paired_slots_def created_slots_def)
  obtain x s' where load: "load s = (Inr x, s')" and x: "x = loaded 0 [] \<and> holds True ?V s'"
    by (rule triple_success [OF load_files [OF files] sV])
  have "open_log mem_new = (Inr (slot_snapshot enc 0 [] clean), s')"
    using s load x
    by (simp add: open_log_def paired_open_def io_bind_def io_return_def log_loaded_def empty_slot_snapshot
        del: create_slots.simps)
  with x files show ?thesis by (simp add: holds_def)
qed

lemma run_first:
  assumes "valid r" and "starts r" and names: "valid_name (slot_name 0)" "valid_name (slot_name 1)"
  shows "\<exists>snap s. log_run valid open_log append restart [r] snap s"
proof -
  obtain s where s: "open_log mem_new = (Inr (slot_snapshot enc 0 [] clean), s)" "mem_honest s" "mem_healthy s"
    "files_of 0 [] [] (view s)"
    using open_mem_new [OF names] by blast
  obtain snap s' where "append (slot_snapshot enc 0 [] clean) r s = (Inr snap, s')"
    using append_healthy [OF s(2-4) assms(1)] assms(2) by (force simp: log_advance_def log_follows_def)
  moreover have "s\<lparr>fail_before := None, fail_after := None\<rparr> = s" using s(3) by (simp add: mem_healthy_def)
  ultimately show ?thesis
    using log_append_ok [of valid open_log append restart "[]" "slot_snapshot enc 0 [] clean" s r None None snap s']
      log_start [of open_log "slot_snapshot enc 0 [] clean" s valid append restart] s(1) assms(1) by auto
qed

end

end
