(* ===== verification/Generation_Log.thy ===== *)
theory Generation_Log
  imports Generation_Log_Segment Paired_Log
begin

text \<open>
  The Namespace Commit Log, \<open>crates/fastdup-store/src/generation_log.rs\<close>: two slots of at most 64
  Commit Records. \<open>glog_files\<close> relates the two files of a storage to the records of the active and of the other slot.

  Shown here, for every storage that keeps the contract of \<open>storage_laws\<close>: loading such files
  gives the snapshot of the active slot; an append that fails at any storage operation leaves files
  that hold the old or the new records after a restart, and an append that returns leaves the new
  ones.
\<close>

definition glog_slot_name :: "nat \<Rightarrow> string" where
  "glog_slot_name slot = (if slot = 0 then ''commit.wal'' else ''commit.1.wal'')"

definition LogSnapshot_advanced :: "gsnapshot \<Rightarrow> nat \<Rightarrow> bool \<Rightarrow> commit_record \<Rightarrow> bytes \<Rightarrow> gsnapshot" where
  "LogSnapshot_advanced snapshot target_slot rotating record bytes =
     (let records = (if rotating then [] else ls_records snapshot);
          records = (if rotating then records @ [the (snapshot_last_record snapshot)] else records);
          records = records @ [record]
      in \<lparr>ls_active_slot = target_slot, ls_bytes = bytes, ls_records = records, ls_tail = Clean\<rparr>)"

definition LogSnapshot_last_hash :: "digest_lib \<Rightarrow> gsnapshot \<Rightarrow> bytes option" where
  "LogSnapshot_last_hash L snapshot = map_option (CommitRecordHash_of L) (snapshot_last_encoded snapshot)"

definition LogSnapshot_will_rotate :: "gsnapshot \<Rightarrow> bool" where
  "LogSnapshot_will_rotate snapshot \<longleftrightarrow> record_count snapshot \<ge> MAX_SEGMENT_RECORDS"

definition glog_select_current :: "gsnapshot list \<Rightarrow> generation_log_error + gsnapshot option" where
  "glog_select_current segments =
     select_slots cr_generation Clean BrokenGenerationChain DivergentSlots segments"

definition glog_verify_successor ::
  "digest_lib \<Rightarrow> gsnapshot \<Rightarrow> commit_record \<Rightarrow> generation_log_error + unit" where
  "glog_verify_successor L snapshot record =
     (case snapshot_last_record snapshot of
        None \<Rightarrow>
          if cr_generation record = 1 \<and> cr_previous_record_hash record = CommitRecordHash_ZERO
          then Inr () else Inl BrokenGenerationChain
      | Some previous \<Rightarrow>
          if checked_add (cr_generation previous) 1 \<noteq> Some (cr_generation record)
             \<or> LogSnapshot_last_hash L snapshot \<noteq> Some (cr_previous_record_hash record)
             \<or> cr_namespace_mutation_cutoff record < cr_namespace_mutation_cutoff previous
             \<or> cr_inode_reservation_end record < cr_inode_reservation_end previous
             \<or> cr_inode_allocation_cursor record < cr_inode_allocation_cursor previous
          then Inl BrokenGenerationChain else Inr ())"

definition glog_load ::
  "'s storage_io \<Rightarrow> digest_lib \<Rightarrow> ('s, generation_log_error, gsnapshot option) io" where
  "glog_load S L =
     io_bind (load_slots S (decode_segment L) Io SegmentTooLarge PublishVerificationMismatch
                [(0, glog_slot_name 0), (1, glog_slot_name 1)])
       (\<lambda>segments. io_result (glog_select_current segments))"

definition glog_ensure_slots_exist :: "'s storage_io \<Rightarrow> ('s, generation_log_error, unit) io" where
  "glog_ensure_slots_exist S = create_slots S Io SegmentTooLarge [glog_slot_name 0, glog_slot_name 1]"

definition glog_load_for_append ::
  "'s storage_io \<Rightarrow> digest_lib \<Rightarrow> ('s, generation_log_error, gsnapshot) io" where
  "glog_load_for_append S L =
     io_bind (glog_ensure_slots_exist S) (\<lambda>_.
     io_bind (glog_load S L) (\<lambda>loaded.
       case loaded of Some snapshot \<Rightarrow> io_return snapshot | None \<Rightarrow> io_return (LogSnapshot_empty 0)))"

definition glog_append ::
  "'s storage_io \<Rightarrow> digest_lib \<Rightarrow> gsnapshot \<Rightarrow> commit_record \<Rightarrow>
   ('s, generation_log_error, gsnapshot) io" where
  "glog_append S L snapshot record =
     (if ls_tail snapshot \<noteq> Clean then io_fail (NeedsRepair (ls_tail snapshot))
      else io_bind (io_result (glog_verify_successor L snapshot record)) (\<lambda>_.
        let encoded_record = CommitRecord_encode L record;
            rotating = record_count snapshot \<ge> MAX_SEGMENT_RECORDS
        in io_bind (io_result (
             if rotating then
               and_then (ok_or (snapshot_last_encoded snapshot) EmptyAfterInitialization)
                 (\<lambda>bridge. Inr (1 - ls_active_slot snapshot, bridge @ encoded_record))
             else Inr (ls_active_slot snapshot, ls_bytes snapshot @ encoded_record)))
           (\<lambda>(target_slot, expected).
        let target_name = glog_slot_name target_slot in
        io_bind (
          if target_slot = ls_active_slot snapshot then
            let offset = length (ls_bytes snapshot) in
            io_bind (io_result (ok_or (u64_try_from offset) SegmentTooLarge)) (\<lambda>offset64.
            io_bind (io_from Io (write_at S target_name offset64 encoded_record)) (\<lambda>_.
            io_return (offset, drop offset expected)))
          else
            io_bind (io_from Io (set_len S target_name 0)) (\<lambda>_.
            io_bind (io_from Io (write_at S target_name 0 (take COMMIT_RECORD_BYTES expected))) (\<lambda>_.
            io_bind (io_from Io (write_at S target_name (of_nat COMMIT_RECORD_BYTES)
                       (drop COMMIT_RECORD_BYTES expected))) (\<lambda>_.
            io_return (0, expected)))))
          (\<lambda>(verify_offset, verify_bytes).
        io_bind (io_result (ok_or (u64_try_from (length expected)) SegmentTooLarge)) (\<lambda>length64.
        io_bind (io_from Io (set_len S target_name length64)) (\<lambda>_.
        io_bind (io_result (ok_or (u64_try_from verify_offset) SegmentTooLarge)) (\<lambda>verify64.
        io_bind (io_from Io (read_exact_at S target_name verify64 (length verify_bytes))) (\<lambda>reread.
        if reread \<noteq> verify_bytes then io_fail PublishVerificationMismatch
        else io_bind (io_from Io (sync_file S target_name)) (\<lambda>_.
          io_return (LogSnapshot_advanced snapshot target_slot rotating record expected))))))))))"

definition glog_install_recovery_anchor ::
  "'s storage_io \<Rightarrow> digest_lib \<Rightarrow> commit_record \<Rightarrow> ('s, generation_log_error, unit) io" where
  "glog_install_recovery_anchor S L record =
     io_bind (glog_ensure_slots_exist S) (\<lambda>_.
     io_bind (glog_load S L) (\<lambda>loaded.
     case loaded of
       Some snapshot \<Rightarrow>
         if ls_tail snapshot = Clean \<and> ls_records snapshot = [record]
            \<and> ls_bytes snapshot = CommitRecord_encode L record
         then io_from Io (sync_file S (glog_slot_name (ls_active_slot snapshot)))
         else io_fail AlreadyInitialized
     | None \<Rightarrow>
         let encoded = CommitRecord_encode L record in
         io_bind (io_from Io (set_len S (glog_slot_name 0) 0)) (\<lambda>_.
         io_bind (io_from Io (write_at S (glog_slot_name 0) 0 encoded)) (\<lambda>_.
         io_bind (io_result (ok_or (u64_try_from (length encoded)) SegmentTooLarge)) (\<lambda>length64.
         io_bind (io_from Io (set_len S (glog_slot_name 0) length64)) (\<lambda>_.
         io_bind (io_from Io (read_object S (glog_slot_name 0))) (\<lambda>bytes.
         io_bind (io_result (decode_segment L 0 bytes)) (\<lambda>verified.
         if ls_tail verified \<noteq> Clean \<or> ls_records verified \<noteq> [record] \<or> ls_bytes verified \<noteq> encoded
         then io_fail PublishVerificationMismatch
         else io_from Io (sync_file S (glog_slot_name 0))))))))))"

definition glog_repair_tail ::
  "'s storage_io \<Rightarrow> digest_lib \<Rightarrow> commit_record \<Rightarrow> ('s, generation_log_error, unit) io" where
  "glog_repair_tail S L expected =
     io_bind (glog_load S L) (\<lambda>loaded.
     io_bind (io_result (ok_or loaded EmptyAfterInitialization)) (\<lambda>snapshot.
     if snapshot_last_record snapshot \<noteq> Some expected then io_fail PublishVerificationMismatch
     else if ls_tail snapshot = Clean then io_return ()
     else let name = glog_slot_name (ls_active_slot snapshot) in
       io_bind (io_from Io (set_len S name (of_nat (length (ls_bytes snapshot))))) (\<lambda>_.
       io_bind (io_from Io (read_object S name)) (\<lambda>bytes.
       io_bind (io_result (decode_segment L (ls_active_slot snapshot) bytes)) (\<lambda>verified.
       if ls_tail verified \<noteq> Clean \<or> ls_bytes verified \<noteq> ls_bytes snapshot
       then io_fail PublishVerificationMismatch
       else io_from Io (sync_file S name))))))"

definition commit_starts :: "commit_record \<Rightarrow> bool" where
  "commit_starts r \<longleftrightarrow> cr_generation r = 1 \<and> cr_previous_record_hash r = CommitRecordHash_ZERO"

abbreviation glog_files ::
  "digest_lib \<Rightarrow> nat \<Rightarrow> commit_record list \<Rightarrow> commit_record list \<Rightarrow> (string \<Rightarrow> vfile option) \<Rightarrow> bool" where
  "glog_files L \<equiv> paired_files (CommitRecord_encode L) (commit_chain L) glog_slot_name"

abbreviation glog_loaded :: "digest_lib \<Rightarrow> nat \<Rightarrow> commit_record list \<Rightarrow> gsnapshot option" where
  "glog_loaded L \<equiv> log_loaded (CommitRecord_encode L) Clean"

abbreviation commit_follows :: "digest_lib \<Rightarrow> commit_record list \<Rightarrow> commit_record \<Rightarrow> bool" where
  "commit_follows L \<equiv> log_follows commit_starts (commit_succeeds L)"

definition glog_tail :: "commit_record list \<Rightarrow> bytes \<Rightarrow> log_tail" where
  "glog_tail rs rest = (if rest = [] then Clean else Torn (4096 * length rs) (length rest))"

section \<open>Lemmas: loading and appending\<close>

lemma glog_slot_name_inj [simp]: "glog_slot_name 0 \<noteq> glog_slot_name 1" "glog_slot_name 1 \<noteq> glog_slot_name 0"
  "glog_slot_name 0 \<noteq> glog_slot_name (Suc 0)" "glog_slot_name (Suc 0) \<noteq> glog_slot_name 0"
  by (simp_all add: glog_slot_name_def)

lemma glog_other_slot: "a \<le> 1 \<Longrightarrow> glog_slot_name (1 - a) \<noteq> glog_slot_name a"
  by (cases "a = 0") (simp_all add: glog_slot_name_def)

lemma glog_verify_successor_iff:
  "glog_verify_successor L (commit_snapshot L a rs t) r = Inr () \<longleftrightarrow> commit_follows L rs r"
  by (auto simp: glog_verify_successor_def snapshot_last_record_def LogSnapshot_last_hash_def
      commits.last_encoded_slot commit_succeeds_def log_follows_def commit_starts_def)

lemma glog_append_rejected:
  assumes "\<not> commit_follows L rs r"
  shows "\<exists>e. glog_append S L (commit_snapshot L a rs Clean) r = io_fail e"
  using glog_verify_successor_iff [of L a rs Clean r] assms
  by (cases "glog_verify_successor L (commit_snapshot L a rs Clean) r") (auto simp: glog_append_def)

context storage_laws
begin

lemma glog_append_extend:
  assumes ver: "commit_follows L rs r"
    and len: "length rs < 64" and T: "commit_bytes L rs \<in> T" "commit_bytes L (rs @ [r]) \<in> T"
  shows "triple (stage h (glog_slot_name a) T F (commit_bytes L rs))
    (glog_append S L (commit_snapshot L a rs Clean) r)
    (\<lambda>snap s. snap = commit_snapshot L a (rs @ [r]) Clean \<and>
       stage h (glog_slot_name a) {commit_bytes L (rs @ [r])} F (commit_bytes L (rs @ [r])) s)
    (\<lambda>e s. \<not> h \<and> within (glog_slot_name a) T F s)"
proof -
  define n where "n = glog_slot_name a"
  define k where "k = 4096 * length rs"
  define e where "e = CommitRecord_encode L r"
  define old where "old = commit_bytes L rs"
  have bytes: "commit_bytes L (rs @ [r]) = old @ e" "length old = k" "length e = 4096"
    by (simp_all add: old_def e_def k_def commits.slot_bytes_append)
  have k: "k < 2 ^ 64" "k + 4096 < 2 ^ 64" "k + 4096 \<le> 262144" using len by (simp_all add: k_def)
  then have unat: "unat (of_nat k :: u64) = k" "unat (of_nat (k + 4096) :: u64) = k + 4096"
    by (simp_all add: unsigned_of_nat take_bit_nat_eq_self del: of_nat_add)
  have snap: "LogSnapshot_advanced (commit_snapshot L a rs Clean) a False r (old @ e)
      = commit_snapshot L a (rs @ [r]) Clean"
    by (simp add: LogSnapshot_advanced_def slot_snapshot_def Let_def flip: bytes)
  have prog: "glog_append S L (commit_snapshot L a rs Clean) r =
      io_bind (io_from Io (write_at S n (of_nat k) e)) (\<lambda>_.
      io_bind (io_from Io (set_len S n (of_nat (k + 4096)))) (\<lambda>_.
      io_bind (io_from Io (read_exact_at S n (of_nat k) 4096)) (\<lambda>reread.
      if reread \<noteq> e then io_fail PublishVerificationMismatch
      else io_bind (io_from Io (sync_file S n)) (\<lambda>_.
        io_return (commit_snapshot L a (rs @ [r]) Clean)))))"
    using len k glog_verify_successor_iff [of L a rs Clean r] ver
    by (simp add: glog_append_def Let_def u64_try_from_def bytes snap cong: if_cong
        flip: n_def e_def old_def)
  show ?thesis
    unfolding prog n_def [symmetric] old_def [symmetric] bytes(1)
    using T k unat bytes(2,3) resize_id [of "old @ e"] overwrite_end [of old e]
    by (intro write_at_then [of old "of_nat k" e "old @ e"] set_len_then [where y = "old @ e"]
        read_exact_at_then [where bs = e])
      (simp_all add: bytes(1) old_def [symmetric] slice_def sync_file_last)
qed

lemma glog_append_rotate:
  assumes ver: "commit_follows L rs r"
    and len: "length rs = 64" and a: "a \<le> 1"
    and T: "x \<in> T" "[] \<in> T" "commit_bytes L [last rs] \<in> T" "commit_bytes L [last rs, r] \<in> T"
  shows "triple (stage h (glog_slot_name (1 - a)) T F x)
    (glog_append S L (commit_snapshot L a rs Clean) r)
    (\<lambda>snap s. snap = commit_snapshot L (1 - a) [last rs, r] Clean \<and>
       stage h (glog_slot_name (1 - a)) {commit_bytes L [last rs, r]} F (commit_bytes L [last rs, r]) s)
    (\<lambda>e s. \<not> h \<and> within (glog_slot_name (1 - a)) T F s)"
proof -
  define n where "n = glog_slot_name (1 - a)"
  define b where "b = CommitRecord_encode L (last rs)"
  define e where "e = CommitRecord_encode L r"
  have bytes: "commit_bytes L [last rs] = b" "commit_bytes L [last rs, r] = b @ e"
    "length b = 4096" "length e = 4096"
    by (simp_all add: e_def b_def)
  have rs: "rs \<noteq> []" using len by auto
  have slots: "1 - a \<noteq> a" using a by presburger
  have last: "snapshot_last_encoded (commit_snapshot L a rs Clean) = Some b"
    "snapshot_last_record (commit_snapshot L a rs Clean) = Some (last rs)"
    using rs by (simp_all add: commits.last_encoded_slot b_def snapshot_last_record_def)
  have snap: "LogSnapshot_advanced (commit_snapshot L a rs Clean) (1 - a) True r (b @ e)
      = commit_snapshot L (1 - a) [last rs, r] Clean"
    by (simp add: LogSnapshot_advanced_def Let_def last) (simp add: slot_snapshot_def e_def b_def)
  have prog: "glog_append S L (commit_snapshot L a rs Clean) r =
      io_bind (io_from Io (set_len S n 0)) (\<lambda>_.
      io_bind (io_from Io (write_at S n 0 b)) (\<lambda>_.
      io_bind (io_from Io (write_at S n (of_nat 4096) e)) (\<lambda>_.
      io_bind (io_from Io (set_len S n (of_nat 8192))) (\<lambda>_.
      io_bind (io_from Io (read_exact_at S n 0 8192)) (\<lambda>reread.
      if reread \<noteq> b @ e then io_fail PublishVerificationMismatch
      else io_bind (io_from Io (sync_file S n)) (\<lambda>_.
        io_return (commit_snapshot L (1 - a) [last rs, r] Clean)))))))"
    using len glog_verify_successor_iff [of L a rs Clean r] ver slots
    by (simp add: glog_append_def Let_def u64_try_from_def bytes(3,4) snap last cong: if_cong
        del: One_nat_def flip: n_def e_def)
  show ?thesis
    unfolding prog n_def [symmetric] bytes(2)
    using T bytes resize_id [of "b @ e"] overwrite_end [of b e]
    by (intro set_len_then [where y = "[]"] write_at_then [of "[]" 0 b b]
        write_at_then [of b "of_nat 4096" e "b @ e"] set_len_then [where y = "b @ e"]
        read_exact_at_then [where bs = "b @ e"])
      (simp_all add: slice_def sync_file_last)
qed

end

section \<open>The log on any storage\<close>

locale glog_storage = digest_laws L + storage_laws S inv healthy view restart
  for L and S :: "'s storage_io" and inv healthy view restart

context glog_storage
begin

lemma glog_paired_log:
  "paired_log (CommitRecord_encode L) valid_commit_record cr_generation
    (commit_succeeds L) S inv healthy view restart glog_slot_name (decode_segment L)
     Clean glog_tail commit_starts (glog_append S L)"
proof (intro paired_log.intro paired_log_axioms.intro, unfold commit_chain_eq, goal_cases)
  case 1
  show ?case by (rule commit_record_chain)
next
  case 2
  show ?case by (rule storage_laws_axioms)
next
  case 3
  show ?case by simp
next
  case (4 rs rest)
  show ?case by (simp add: glog_tail_def)
next
  case (5 rs rest k)
  then show ?case using decode_segment_complete [OF digest_laws_axioms] by (simp add: glog_tail_def)
next
  case (6 rs r a)
  then show ?case by (rule glog_append_rejected)
next
  case (7 rs r a T h F)
  then show ?case by (intro glog_append_extend)
next
  case (8 rs r a x T h F)
  then show ?case by (intro glog_append_rotate)
qed

lemma glog_load_paired:
  "paired_log.load cr_generation S glog_slot_name (decode_segment L) Io SegmentTooLarge PublishVerificationMismatch
     BrokenGenerationChain DivergentSlots Clean = glog_load S L"
  by (simp add: paired_log.load_def [OF glog_paired_log] glog_load_def paired_load_def glog_select_current_def [abs_def])

lemma glog_load_for_append_paired:
  "paired_log.open_log cr_generation S glog_slot_name (decode_segment L) Io SegmentTooLarge
     PublishVerificationMismatch BrokenGenerationChain DivergentSlots Clean = glog_load_for_append S L"
  unfolding paired_log.open_log_def [OF glog_paired_log] glog_load_paired glog_load_for_append_def paired_open_def
    glog_ensure_slots_exist_def LogSnapshot_empty_def empty_snapshot_def ..

lemmas glog_log_operations = commit_chain_eq glog_load_paired glog_load_for_append_paired

end

sublocale glog_storage \<subseteq> log: paired_log "CommitRecord_encode L" valid_commit_record cr_generation
    "commit_succeeds L" S inv healthy view restart glog_slot_name "decode_segment L" Io SegmentTooLarge
    PublishVerificationMismatch BrokenGenerationChain DivergentSlots Clean glog_tail commit_starts "glog_append S L"
  rewrites "record_chain.chain valid_commit_record (commit_succeeds L) = commit_chain L"
    and "log.load = glog_load S L"
    and "log.open_log = glog_load_for_append S L"
  by (rule glog_paired_log)
    (simp_all add: glog_log_operations)

context glog_storage
begin

text \<open>Repairing the tail: the load, the truncation, the check of what is left.\<close>

lemma glog_repair_tail_stage:
  assumes a: "a \<le> 1" and chains: "commit_chain L rs" "commit_chain L os" "paired_slots rs os"
    and rs: "rs \<noteq> []" and rest: "length rest < 4096" "rest \<noteq> []" "length rs < 64"
    and F: "F (glog_slot_name (1 - a)) = Some (synced_file (commit_bytes L os))"
    and T: "commit_bytes L rs \<in> T" "commit_bytes L rs @ rest \<in> T"
  shows "triple (stage h (glog_slot_name a) T F (commit_bytes L rs @ rest)) (glog_repair_tail S L (last rs))
    (\<lambda>_. stage h (glog_slot_name a) {commit_bytes L rs} F (commit_bytes L rs))
    (\<lambda>e s. \<not> h \<and> within (glog_slot_name a) T F s)"
proof -
  define n where "n = glog_slot_name a"
  define k where "k = 4096 * length rs"
  define old where "old = commit_bytes L rs"
  have k: "length old = k" "k < 2 ^ 64" using rest by (simp_all add: old_def k_def)
  then have unat: "unat (of_nat k :: u64) = k" by (simp add: unsigned_of_nat take_bit_nat_eq_self)
  let ?snap = "commit_snapshot L a rs (glog_tail rs rest)"
  have load: "triple (stage h n T F (old @ rest)) (glog_load S L)
      (\<lambda>x s. x = Some ?snap \<and> stage h n T F (old @ rest) s) (\<lambda>e s. \<not> h \<and> within n T F s)"
  proof (rule stage_from_holds)
    fix V and v :: vfile
    assume V: "V n = Some v" "v_live v = old @ rest" "\<And>k. k \<noteq> n \<Longrightarrow> V k = F k"
    then have w: "V (glog_slot_name (1 - a)) = Some (synced_file (commit_bytes L os))"
      using F glog_other_slot [OF a] by (simp add: n_def)
    show "triple (holds h V) (glog_load S L) (\<lambda>x s. x = Some ?snap \<and> holds h V s) (\<lambda>e s. \<not> h \<and> holds False V s)"
      using log.load_torn [of a rs os rest V v _ h, OF a chains _ rest(1) _ _ _ w] rs rest V(1,2)
      by (simp add: n_def old_def synced_file_def)
  qed (use T in \<open>simp add: old_def\<close>)
  have dec: "decode_segment L a old = Inr (commit_snapshot L a rs Clean)"
    using decode_segment_complete [OF digest_laws_axioms chains(1), of "[]" a] by (simp add: old_def)
  have last: "snapshot_last_record ?snap = Some (last rs)" "glog_tail rs rest \<noteq> Clean"
    using rs rest by (simp_all add: snapshot_last_record_def glog_tail_def)
  show ?thesis
    unfolding n_def [symmetric] old_def [symmetric] glog_repair_tail_def
    using T k unat resize_take [of old rest] sync_file_stage [of old T h n F]
    by (intro triple_bind_eq [OF load])
      (auto simp: last dec ok_or_def old_def [symmetric] n_def [symmetric] Let_def
        intro!: set_len_then [where y = old] read_object_then triple_from [where E = "\<lambda>_ s. \<not> h \<and> within n T F s"])
qed

lemma glog_repair_tail_outcome:
  assumes a: "a \<le> 1" and chains: "commit_chain L rs" "commit_chain L os" "paired_slots rs os"
    and rs: "rs \<noteq> []" and rest: "length rest < 4096" "rest \<noteq> []" "length rs < 64"
    and V: "view s (glog_slot_name a) = Some (synced_file (commit_bytes L rs @ rest))"
      "view s (glog_slot_name (1 - a)) = Some (synced_file (commit_bytes L os))"
    and s: "inv s" "h \<longrightarrow> healthy s"
    and run: "glog_repair_tail S L (last rs) s = (res, s')"
  shows "inv s' \<and> (case res of Inr _ \<Rightarrow> glog_files L a rs os (view s')
    | Inl e \<Rightarrow> \<not> h \<and> (\<exists>rest'. rest' \<in> {[], rest} \<and>
        view (restart s') (glog_slot_name a) = Some (synced_file (commit_bytes L rs @ rest')) \<and>
        view (restart s') (glog_slot_name (1 - a)) = Some (synced_file (commit_bytes L os))))"
proof -
  let ?n = "glog_slot_name a" and ?T = "{commit_bytes L rs, commit_bytes L rs @ rest}"
  note names = glog_other_slot [OF a]
  have st: "stage h ?n ?T (view s) (commit_bytes L rs @ rest) s"
    using s V by (intro stage_start) simp_all
  have t: "triple (stage h ?n ?T (view s) (commit_bytes L rs @ rest)) (glog_repair_tail S L (last rs))
      (\<lambda>_. stage h ?n {commit_bytes L rs} (view s) (commit_bytes L rs)) (\<lambda>e s'. \<not> h \<and> within ?n ?T (view s) s')"
    by (rule glog_repair_tail_stage [of a rs os rest "view s"]) (use assms in simp_all)
  show ?thesis
  proof (cases res)
    case (Inr u)
    then have st': "stage h ?n {commit_bytes L rs} (view s) (commit_bytes L rs) s'"
      using triple_Inr [OF t st] run by simp
    then show ?thesis
      using Inr stage_synced_file [OF st'] V(2) names chains a rs by (simp add: paired_files_def stage_def)
  next
    case (Inl e)
    then have err: "\<not> h" and w: "within ?n ?T (view s) s'"
      using triple_Inl [OF t st] run by simp_all
    obtain x where "x \<in> ?T" "view (restart s') ?n = Some (synced_file x)"
      "view (restart s') (glog_slot_name (1 - a)) = Some (synced_file (commit_bytes L os))"
      using within_restart [OF w names V(2)] .
    with w err Inl show ?thesis by (auto simp: within_def stage_def)
  qed
qed

text \<open>Installing a recovered record as the first record of an empty log.\<close>

lemma glog_install_stage:
  assumes r: "valid_commit_record r" and files: "glog_files L 0 [] [] V"
  shows "triple (holds h V) (glog_install_recovery_anchor S L r)
    (\<lambda>_. stage h (glog_slot_name 0) {commit_bytes L [r]} (\<lambda>n. map_option (\<lambda>v. v\<lparr>v_linked := True\<rparr>) (V n)) (commit_bytes L [r]))
    (\<lambda>e s. \<not> h \<and> (holds False V s \<or> within (glog_slot_name 0) {[], commit_bytes L [r]}
       (\<lambda>n. map_option (\<lambda>v. v\<lparr>v_linked := True\<rparr>) (V n)) s))"
proof -
  define n where "n = glog_slot_name 0"
  define e where "e = commit_bytes L [r]"
  define V' where "V' = (\<lambda>n. map_option (\<lambda>v. v\<lparr>v_linked := True\<rparr>) (V n))"
  let ?T = "{[], e}"
  let ?E = "\<lambda>_ s. \<not> h \<and> (holds False V s \<or> within n ?T V' s)"
  have e: "CommitRecord_encode L r = e" "length e = 4096" by (simp_all add: e_def)
  have files': "glog_files L 0 [] [] V'" using log.files_linked [OF files] by (simp add: V'_def)
  then have V'0: "V' n = Some (synced_file [])" by (simp add: paired_files_def n_def)
  have start: "holds h V' s \<Longrightarrow> stage h n ?T V' [] s" for h s
    using V'0 by (auto simp: holds_def stage_def synced_file_def)
  have ensure: "triple (holds h V) (glog_ensure_slots_exist S) (\<lambda>_. holds h V') ?E"
    unfolding glog_ensure_slots_exist_def
    by (rule triple_weaken [OF create_slots_present])
      (use files in \<open>auto simp: V'_def [symmetric] paired_files_def synced_file_def dest: stage_within start\<close>)
  have load: "triple (holds h V') (glog_load S L) (\<lambda>x s. x = None \<and> stage h n ?T V' [] s) ?E"
    by (rule triple_weaken [OF log.load_files [OF files', of h]])
      (auto simp: log_loaded_def dest: start stage_within)
  have dec: "decode_segment L 0 e = Inr (commit_snapshot L 0 [r] Clean)"
    using decode_segment_complete [OF digest_laws_axioms, of "[r]" "[]" 0] r by (simp add: e_def commits.chain_def)
  have install: "triple (stage h n ?T V' [])
      (io_bind (io_from Io (set_len S n 0)) (\<lambda>_.
       io_bind (io_from Io (write_at S n 0 e)) (\<lambda>_.
       io_bind (io_result (ok_or (u64_try_from (length e)) SegmentTooLarge)) (\<lambda>length64.
       io_bind (io_from Io (set_len S n length64)) (\<lambda>_.
       io_bind (io_from Io (read_object S n)) (\<lambda>bytes.
       io_bind (io_result (decode_segment L 0 bytes)) (\<lambda>verified.
       if ls_tail verified \<noteq> Clean \<or> ls_records verified \<noteq> [r] \<or> ls_bytes verified \<noteq> e
       then io_fail PublishVerificationMismatch else io_from Io (sync_file S n))))))))
      (\<lambda>_. stage h n {e} V' e) (\<lambda>_ s. \<not> h \<and> within n ?T V' s)"
    using e(2) resize_id [of e] overwrite_end [of "[]" e] sync_file_stage [of e ?T h n V']
    by (intro set_len_then [of "[]" 0 "[]"] write_at_then [of "[]" 0 e e])
      (auto simp: u64_try_from_def ok_or_def dec e
        intro!: set_len_then [where y = e] read_object_then
          triple_from [where E = "\<lambda>_ s. \<not> h \<and> within n ?T V' s"])
  show ?thesis
    unfolding glog_install_recovery_anchor_def e n_def [symmetric] e_def [symmetric] V'_def [symmetric]
    by (intro triple_bind [OF ensure] triple_bind_eq [OF load], unfold option.case Let_def,
        rule triple_weaken [OF install]) auto
qed

end

end
