(* ===== verification/Generation_Log_History.thy ===== *)
theory Generation_Log_History
  imports Generation_Log
begin

text \<open>
  Histories of the Namespace Commit Log (\<open>crates/fastdup-store/src/generation_log.rs\<close>) on the
  in-memory storage of the test kit: a writer that loads, appends under injected faults, crashes and
  reloads, any number of times.
\<close>




text \<open>An empty log on a new storage, for the witnesses.\<close>

definition glog_new_state :: storage_state where
  "glog_new_state = snd (glog_load_for_append memory_storage reference_digests mem_new)"


section \<open>Lemmas: histories\<close>

locale glog_memory = digest_laws L + memory_laws view restart for L view restart

sublocale glog_memory \<subseteq> glog_storage L memory_storage mem_honest mem_healthy view restart
  by (intro glog_storage.intro digest_laws_axioms storage_laws_axioms)

sublocale glog_memory \<subseteq> log: paired_memory_log view restart "CommitRecord_encode L" valid_commit_record
    cr_generation "commit_succeeds L" glog_slot_name "decode_segment L" Io SegmentTooLarge
    PublishVerificationMismatch BrokenGenerationChain DivergentSlots Clean glog_tail commit_starts
    "glog_append memory_storage L"
  rewrites "record_chain.chain valid_commit_record (commit_succeeds L) = commit_chain L"
  by (intro paired_memory_log.intro memory_laws_axioms glog_paired_log) (simp_all add: glog_log_operations)

context glog_memory
begin

lemmas glog_append_crash = log.append_crash [unfolded glog_log_operations]
lemmas glog_run_invariant = log.run_invariant [unfolded log.invariant_def glog_log_operations]
lemmas glog_load_restarted = log.load_restarted [unfolded glog_log_operations]
lemmas glog_run_reload = log.run_reload [unfolded glog_log_operations]
lemmas glog_append_healthy = log.append_healthy [unfolded glog_log_operations]
lemmas glog_run_first = log.run_first [unfolded glog_log_operations]

lemma glog_load_torn:
  assumes a: "a \<le> 1" and chains: "commit_chain L rs" "commit_chain L os" "paired_slots rs os"
    and rs: "rs \<noteq> []" and rest: "length rest < 4096" "length rs < 64"
    and V: "view (restart s) (glog_slot_name a) = Some (synced_file (commit_bytes L rs @ rest))"
      "view (restart s) (glog_slot_name (1 - a)) = Some (synced_file (commit_bytes L os))"
    and honest: "mem_honest s"
  shows "fst (glog_load memory_storage L (restart s)) = Inr (Some (commit_snapshot L a rs (glog_tail rs rest)))"
proof -
  have pre: "holds True (view (restart s)) (restart s)" using restart_law [OF honest] by (simp add: holds_def)
  have t: "triple (holds True (view (restart s))) (glog_load memory_storage L)
     (\<lambda>x t. x = (if rs = [] then None else Some (commit_snapshot L a rs (glog_tail rs rest))) \<and>
        holds True (view (restart s)) t) (\<lambda>e t. \<not> True \<and> holds False (view (restart s)) t)"
    using rest rs by (intro log.load_torn [OF a chains _ _ _ V(1) _ V(2)]) (auto simp: synced_file_def)
  obtain x t where "glog_load memory_storage L (restart s) = (Inr x, t)"
    "x = (if rs = [] then None else Some (commit_snapshot L a rs (glog_tail rs rest))) \<and> holds True (view (restart s)) t"
    by (rule triple_success [OF t pre])
  with rs show ?thesis by simp
qed

lemma glog_repair_crash:
  assumes a: "a \<le> 1" and chains: "commit_chain L rs" "commit_chain L os" "paired_slots rs os"
    and rs: "rs \<noteq> []" and rest: "length rest < 4096" "rest \<noteq> []" "length rs < 64"
    and V: "view s (glog_slot_name a) = Some (synced_file (commit_bytes L rs @ rest))"
      "view s (glog_slot_name (1 - a)) = Some (synced_file (commit_bytes L os))"
    and s: "mem_honest s" and run: "glog_repair_tail memory_storage L (last rs) s = (res, s')"
  shows "\<exists>t. fst (glog_load memory_storage L (restart s')) = Inr (Some (commit_snapshot L a rs t)) \<and>
    (t = Clean \<or> t = glog_tail rs rest) \<and> (\<forall>u. res = Inr u \<longrightarrow> t = Clean) \<and> (mem_healthy s \<longrightarrow> res = Inr ())"
proof -
  note out = glog_repair_tail_outcome [OF a chains rs rest V s _ run, of "mem_healthy s", simplified]
  then have honest: "mem_honest s'" by simp
  note load = glog_load_torn [OF a chains rs _ rest(3) _ _ honest]
  show ?thesis
  proof (cases res)
    case (Inr u)
    with out have "glog_files L a rs os (view s')" by simp
    then have "glog_files L a rs os (view (restart s'))" by (rule log.files_restart [OF honest])
    with load [of "[]"] Inr show ?thesis by (simp add: paired_files_def glog_tail_def)
  next
    case (Inl e)
    with out obtain rest' where "rest' \<in> {[], rest}" "\<not> mem_healthy s"
      "view (restart s') (glog_slot_name a) = Some (synced_file (commit_bytes L rs @ rest'))"
      "view (restart s') (glog_slot_name (1 - a)) = Some (synced_file (commit_bytes L os))" by auto
    with load [OF _ this(3,4)] rest(1) Inl show ?thesis by (auto simp: glog_tail_def)
  qed
qed

lemma glog_install_crash:
  assumes r: "valid_commit_record r" and files: "glog_files L 0 [] [] (view s)"
    and s: "mem_honest s" and run: "glog_install_recovery_anchor memory_storage L r s = (res, s')"
  shows "\<exists>x. fst (glog_load memory_storage L (restart s')) = Inr x \<and>
    (x = None \<or> x = Some (commit_snapshot L 0 [r] Clean)) \<and>
    (\<forall>u. res = Inr u \<longrightarrow> x = Some (commit_snapshot L 0 [r] Clean)) \<and> (mem_healthy s \<longrightarrow> res = Inr ())"
proof -
  define V' where "V' = (\<lambda>n. map_option (\<lambda>v. v\<lparr>v_linked := True\<rparr>) (view s n))"
  let ?n = "glog_slot_name 0" and ?h = "mem_healthy s"
  note t = glog_install_stage [OF r files, of ?h, folded V'_def]
  have pre: "holds ?h (view s) s" using s by (simp add: holds_def)
  have V'1: "V' (glog_slot_name 1) = Some (synced_file (commit_bytes L []))"
    using files by (simp add: V'_def paired_files_def synced_file_def)
  have chain: "commit_chain L [r]" "commit_chain L []" using r by (simp_all add: commits.chain_def)
  have cases: "mem_honest s' \<and> (?h \<longrightarrow> res = Inr ()) \<and>
      (glog_files L 0 [r] [] (view (restart s')) \<or> (\<exists>e. res = Inl e) \<and> glog_files L 0 [] [] (view (restart s')))"
  proof (cases res)
    case (Inr u)
    then have st: "stage ?h ?n {commit_bytes L [r]} V' (commit_bytes L [r]) s'"
      using triple_Inr [OF t pre] run by simp
    then have "glog_files L 0 [r] [] (view s')" "mem_honest s'"
      using stage_synced_file [OF st] V'1 chain by (simp_all add: paired_files_def stage_def paired_slots_def)
    then show ?thesis using log.files_restart Inr by simp
  next
    case (Inl e)
    then have err: "\<not> ?h" "holds False (view s) s' \<or> within ?n {[], commit_bytes L [r]} V' s'"
      using triple_Inl [OF t pre] run by simp_all
    from err(2) show ?thesis
    proof
      assume "holds False (view s) s'"
      with files have "mem_honest s'" "glog_files L 0 [] [] (view s')" by (simp_all add: holds_def)
      with log.files_restart Inl err(1) show ?thesis by simp
    next
      assume w: "within ?n {[], commit_bytes L [r]} V' s'"
      obtain x where "x \<in> {[], commit_bytes L [r]}" "view (restart s') ?n = Some (synced_file x)"
        "view (restart s') (glog_slot_name 1) = Some (synced_file (commit_bytes L []))"
        using within_restart [OF w _ V'1] by auto
      with w Inl err(1) chain show ?thesis by (auto simp: paired_files_def paired_slots_def within_def stage_def)
    qed
  qed
  then show ?thesis
    using glog_load_restarted [of s' 0 "[r]" "[]"] glog_load_restarted [of s' 0 "[]" "[]"]
    by (auto simp: log_loaded_def)
qed

lemma glog_new_state:
  "glog_load_for_append memory_storage L mem_new = (Inr (LogSnapshot_empty 0), snd (glog_load_for_append memory_storage L mem_new)) \<and>
   mem_honest (snd (glog_load_for_append memory_storage L mem_new)) \<and>
   mem_healthy (snd (glog_load_for_append memory_storage L mem_new)) \<and>
   glog_files L 0 [] [] (view (snd (glog_load_for_append memory_storage L mem_new)))"
  using log.open_mem_new [unfolded glog_log_operations]
  by (auto simp: glog_slot_name_def valid_name_def empty_slot_snapshot empty_snapshot_def LogSnapshot_empty_def)

end

lemma glog_power: "digest_laws L \<Longrightarrow> glog_memory L mem_view mem_power_cycle"
  by (intro glog_memory.intro power_run.memory_laws_axioms)


interpretation reference_power: glog_memory reference_digests mem_view mem_power_cycle
  by (rule glog_power [OF reference.digest_laws_axioms])


lemma sample_starts: "commit_starts sample_commit"
  by (simp add: commit_starts_def sample_commit_def CommitRecordHash_ZERO_def)




lemma glog_new_append_ok:
  "glog_verify_successor reference_digests (commit_snapshot reference_digests 0 [] Clean) sample_commit = Inr ()"
  by (simp add: glog_verify_successor_iff log_follows_def sample_starts)


section \<open>Properties\<close>







text \<open>
  C12: On a storage without faults, an append of a valid successor returns, and its files are those
  of the abstract step \<open>log_advance\<close>: the record behind the others in the active slot, or, when that
  slot holds 64 records, the last record and the new one in the other slot.
\<close>

theorem glog_append_refines_advance:
  assumes "digest_laws L" and "mem_honest s" and "mem_healthy s" and "glog_files L a rs os (mem_view s)"
    and "valid_commit_record r" and "glog_verify_successor L (commit_snapshot L a rs Clean) r = Inr ()"
    and "log_advance a rs r = (a', rs')"
  shows "\<exists>s' os'. glog_append memory_storage L (commit_snapshot L a rs Clean) r s =
           (Inr (commit_snapshot L a' rs' Clean), s') \<and> glog_files L a' rs' os' (mem_view s')"
  using glog_memory.glog_append_healthy [OF glog_power [OF assms(1)] assms(2-5) _ assms(7)] assms(6)
  by (auto simp: glog_verify_successor_iff)

theorem glog_append_refines_advance_witness:
  "\<exists>s' os'. glog_append memory_storage reference_digests (commit_snapshot reference_digests 0 [] Clean) sample_commit
       glog_new_state = (Inr (commit_snapshot reference_digests 0 [sample_commit] Clean), s') \<and>
     glog_files reference_digests 0 [sample_commit] os' (mem_view s')"
  using glog_append_refines_advance [of reference_digests glog_new_state 0 "[]" "[]" sample_commit 0 "[sample_commit]"]
    reference.digest_laws_axioms reference_power.glog_new_state [folded glog_new_state_def] valid_sample_commit glog_new_append_ok
  by (simp add: log_advance_def)

text \<open>
  C33: An append is refused before it touches the storage when the snapshot has a damaged tail, and
  when the record is not the successor of the last one: a wrong generation, a wrong hash of the
  predecessor, a mutation cutoff, inode reservation or inode cursor that goes back, or a first
  record that does not start the chain.
\<close>

theorem glog_append_refused:
  "(t \<noteq> Clean \<longrightarrow> glog_append S L (commit_snapshot L a rs t) r s = (Inl (NeedsRepair t), s)) \<and>
   ((if rs = [] then cr_generation r \<noteq> 1 \<or> cr_previous_record_hash r \<noteq> CommitRecordHash_ZERO
     else \<not> commit_succeeds L (last rs) r) \<longrightarrow>
    glog_append S L (commit_snapshot L a rs Clean) r s = (Inl BrokenGenerationChain, s))"
proof -
  have "glog_verify_successor L (commit_snapshot L a rs Clean) r \<noteq> Inr () \<Longrightarrow>
      glog_verify_successor L (commit_snapshot L a rs Clean) r = Inl BrokenGenerationChain"
    by (auto simp: glog_verify_successor_def split: option.splits if_splits)
  then show ?thesis
    by (auto simp: glog_append_def io_fail_def glog_verify_successor_iff log_follows_def commit_starts_def split: if_splits)
qed

theorem glog_append_refused_witness:
  "glog_append memory_storage reference_digests (commit_snapshot reference_digests 0 [] (Torn 0 7)) sample_commit
     glog_new_state = (Inl (NeedsRepair (Torn 0 7)), glog_new_state)"
  using glog_append_refused [of "Torn 0 7" memory_storage reference_digests 0 "[]" sample_commit glog_new_state]
  by simp





end
