(* ===== verification/Activation_Log.thy ===== *)
theory Activation_Log
  imports Activation_Record Paired_Log
begin

text \<open>
  The Exact activation log, \<open>crates/fastdup-store/src/exact_activation_log.rs\<close>: the paired-slot log
  whose last record selects the Exact Index Run Set. Unlike the Namespace Commit Log it does not
  keep a prefix of a damaged slot: a complete record that is invalid or does not continue the chain
  is an error of the whole load.

  The log is an instance of \<open>paired_log\<close>, so the crash behaviour and the histories come from there.
  An allocation failure (\<open>OutOfMemory\<close>) is not modelled.
\<close>

abbreviation MAX_SLOT_RECORDS :: nat where "MAX_SLOT_RECORDS \<equiv> 64"

datatype activation_tail = Clean | Torn

datatype activation_log_error =
    Io io_error
  | SlotTooLarge
  | BrokenChain
  | DivergentSlots
  | NeedsRepair
  | EmptyAfterInitialization
  | PublishVerificationMismatch
  | OutOfMemory

type_synonym asnapshot = "(activation_record, activation_tail) log_snapshot"

definition alog_slot_name :: "nat \<Rightarrow> string" where
  "alog_slot_name slot =
     (if slot = 0 then ''exact-index.activation.wal'' else ''exact-index.activation.1.wal'')"

definition ActivationLogSnapshot_empty :: "nat \<Rightarrow> asnapshot" where
  "ActivationLogSnapshot_empty active_slot =
     \<lparr>ls_active_slot = active_slot, ls_bytes = [], ls_records = [], ls_tail = Clean\<rparr>"

definition ActivationLogSnapshot_last_hash :: "digest_lib \<Rightarrow> asnapshot \<Rightarrow> bytes option" where
  "ActivationLogSnapshot_last_hash L snapshot = map_option (ActivationHash_of L) (snapshot_last_encoded snapshot)"

text \<open>The check of a record against its predecessor inside a slot.\<close>

definition slot_continues ::
  "(activation_record \<times> bytes) option \<Rightarrow> activation_record \<Rightarrow> activation_log_error + unit" where
  "slot_continues previous record =
     (case previous of
        None \<Rightarrow> Inr ()
      | Some (previous, expected_hash) \<Rightarrow>
          and_then (ok_or (checked_add (ar_generation previous) 1) BrokenChain) (\<lambda>expected_generation.
            if ar_generation record \<noteq> expected_generation
               \<or> ar_previous_record_hash record \<noteq> expected_hash
               \<or> ar_run_set_generation record \<le> ar_run_set_generation previous
            then Inl BrokenChain else Inr ()))"

function decode_slot_from ::
  "digest_lib \<Rightarrow> bytes \<Rightarrow> nat \<Rightarrow> nat \<Rightarrow> activation_record list \<Rightarrow> (activation_record \<times> bytes) option \<Rightarrow>
   activation_log_error + activation_record list" where
  "decode_slot_from L bytes complete_bytes offset records previous =
     (if offset \<ge> complete_bytes then Inr records
      else
        let encoded = slice offset ACTIVATION_RECORD_BYTES bytes in
        and_then (map_err (\<lambda>_. BrokenChain) (ActivationRecord_decode L encoded)) (\<lambda>record.
        and_then (slot_continues previous record) (\<lambda>_.
          decode_slot_from L bytes complete_bytes (offset + ACTIVATION_RECORD_BYTES)
            (records @ [record]) (Some (record, ActivationHash_of L encoded)))))"
  by pat_completeness auto
termination
  by (relation "measure (\<lambda>(_, _, complete_bytes, offset, _, _). complete_bytes - offset)") auto

definition decode_slot :: "digest_lib \<Rightarrow> nat \<Rightarrow> bytes \<Rightarrow> activation_log_error + asnapshot" where
  "decode_slot L slot bytes =
     (let complete_bytes = length bytes div ACTIVATION_RECORD_BYTES * ACTIVATION_RECORD_BYTES
      in and_then (decode_slot_from L bytes complete_bytes 0 [] None) (\<lambda>records.
           let tail = (if length bytes = complete_bytes then Clean else Torn)
           in Inr \<lparr>ls_active_slot = slot, ls_bytes = take complete_bytes bytes, ls_records = records,
                   ls_tail = tail\<rparr>))"

definition alog_select_current :: "asnapshot list \<Rightarrow> activation_log_error + asnapshot option" where
  "alog_select_current slots = select_slots ar_generation Clean BrokenChain DivergentSlots slots"

definition alog_verify_successor ::
  "digest_lib \<Rightarrow> asnapshot \<Rightarrow> activation_record \<Rightarrow> activation_log_error + unit" where
  "alog_verify_successor L snapshot record =
     (case snapshot_last_record snapshot of
        None \<Rightarrow>
          if ar_generation record = 1 \<and> ar_previous_record_hash record = ActivationHash_ZERO
          then Inr () else Inl BrokenChain
      | Some previous \<Rightarrow>
          if checked_add (ar_generation previous) 1 \<noteq> Some (ar_generation record)
             \<or> ActivationLogSnapshot_last_hash L snapshot \<noteq> Some (ar_previous_record_hash record)
             \<or> ar_run_set_generation record \<le> ar_run_set_generation previous
          then Inl BrokenChain else Inr ())"

definition alog_ensure_slots_exist :: "'s storage_io \<Rightarrow> ('s, activation_log_error, unit) io" where
  "alog_ensure_slots_exist S = create_slots S Io SlotTooLarge [alog_slot_name 0, alog_slot_name 1]"

definition alog_load ::
  "'s storage_io \<Rightarrow> digest_lib \<Rightarrow> ('s, activation_log_error, asnapshot option) io" where
  "alog_load S L =
     io_bind (load_slots S (decode_slot L) Io SlotTooLarge PublishVerificationMismatch
                [(0, alog_slot_name 0), (1, alog_slot_name 1)])
       (\<lambda>slots. io_result (alog_select_current slots))"

definition alog_load_for_append ::
  "'s storage_io \<Rightarrow> digest_lib \<Rightarrow> ('s, activation_log_error, asnapshot) io" where
  "alog_load_for_append S L =
     io_bind (alog_ensure_slots_exist S) (\<lambda>_.
     io_bind (alog_load S L) (\<lambda>loaded.
       case loaded of Some snapshot \<Rightarrow> io_return snapshot | None \<Rightarrow> io_return (ActivationLogSnapshot_empty 0)))"

text \<open>\<open>copy_within (from.., 0)\<close> on a vector.\<close>

definition copy_within_start :: "nat \<Rightarrow> bytes \<Rightarrow> bytes" where
  "copy_within_start from bs = drop from bs @ drop (length bs - from) bs"

text \<open>The part of \<open>append\<close> that moves the snapshot forward, before anything is written.\<close>

definition alog_advance ::
  "bool \<Rightarrow> asnapshot \<Rightarrow> activation_record \<Rightarrow> bytes \<Rightarrow> activation_log_error + asnapshot" where
  "alog_advance rotating snapshot record encoded_record =
     (let append_offset = length (ls_bytes snapshot) in
      and_then
        (if rotating then
           and_then (ok_or (snapshot_last_record snapshot) EmptyAfterInitialization) (\<lambda>bridge.
             Inr (snapshot\<lparr>
               ls_bytes := take ACTIVATION_RECORD_BYTES
                 (copy_within_start (append_offset - ACTIVATION_RECORD_BYTES) (ls_bytes snapshot)),
               ls_records := [bridge],
               ls_active_slot := 1 - ls_active_slot snapshot\<rparr>))
         else Inr snapshot)
        (\<lambda>snapshot. Inr (snapshot\<lparr>ls_bytes := ls_bytes snapshot @ encoded_record,
                                  ls_records := ls_records snapshot @ [record]\<rparr>)))"

definition alog_append ::
  "'s storage_io \<Rightarrow> digest_lib \<Rightarrow> bool \<Rightarrow> asnapshot \<Rightarrow> activation_record \<Rightarrow>
   ('s, activation_log_error, asnapshot) io" where
  "alog_append S L verify_storage snapshot record =
     (if ls_tail snapshot \<noteq> Clean then io_fail NeedsRepair
      else io_bind (io_result (alog_verify_successor L snapshot record)) (\<lambda>_.
        let encoded_record = ActivationRecord_encode L record;
            append_offset = length (ls_bytes snapshot);
            rotating = record_count snapshot \<ge> MAX_SLOT_RECORDS
        in io_bind (io_result (alog_advance rotating snapshot record encoded_record)) (\<lambda>snapshot.
        let target_name = alog_slot_name (ls_active_slot snapshot) in
        io_bind (
          if rotating then
            io_bind (io_from Io (set_len S target_name 0)) (\<lambda>_.
            io_bind (io_from Io (write_at S target_name 0
                       (take ACTIVATION_RECORD_BYTES (ls_bytes snapshot)))) (\<lambda>_.
            io_from Io (write_at S target_name (of_nat ACTIVATION_RECORD_BYTES) encoded_record)))
          else
            io_bind (io_result (ok_or (u64_try_from append_offset) SlotTooLarge)) (\<lambda>offset.
            io_from Io (write_at S target_name offset encoded_record)))
          (\<lambda>_.
        io_bind (io_result (ok_or (u64_try_from (length (ls_bytes snapshot))) SlotTooLarge)) (\<lambda>length64.
        io_bind (io_from Io (set_len S target_name length64)) (\<lambda>_.
        io_bind (
          if verify_storage then
            io_bind (io_from Io (read_object S target_name)) (\<lambda>reread.
            io_bind (io_result (decode_slot L (ls_active_slot snapshot) reread)) (\<lambda>verified.
            if ls_tail verified \<noteq> Clean \<or> ls_bytes verified \<noteq> ls_bytes snapshot
            then io_fail PublishVerificationMismatch else io_return ()))
          else io_return ())
          (\<lambda>_.
        io_bind (io_from Io (sync_file S target_name)) (\<lambda>_. io_return snapshot))))))))"

definition alog_sync_selected ::
  "'s storage_io \<Rightarrow> asnapshot \<Rightarrow> ('s, activation_log_error, unit) io" where
  "alog_sync_selected S snapshot =
     (if ls_tail snapshot \<noteq> Clean \<or> snapshot_last_record snapshot = None then io_fail NeedsRepair
      else io_from Io (sync_file S (alog_slot_name (ls_active_slot snapshot))))"

definition alog_load_retirement_reference_records ::
  "'s storage_io \<Rightarrow> digest_lib \<Rightarrow> ('s, activation_log_error, activation_record list) io" where
  "alog_load_retirement_reference_records S L =
     io_bind (load_slots S (\<lambda>slot bytes. and_then (decode_slot L slot bytes) (\<lambda>decoded. Inr (ls_records decoded)))
                Io SlotTooLarge PublishVerificationMismatch [(0, alog_slot_name 0), (1, alog_slot_name 1)])
       (\<lambda>records. io_return (concat records))"

section \<open>The chain a reader accepts\<close>

definition activation_succeeds :: "digest_lib \<Rightarrow> activation_record \<Rightarrow> activation_record \<Rightarrow> bool" where
  "activation_succeeds L p r \<longleftrightarrow>
     checked_add (ar_generation p) 1 = Some (ar_generation r) \<and>
     ar_previous_record_hash r = ActivationHash_of L (ActivationRecord_encode L p) \<and>
     ar_run_set_generation p < ar_run_set_generation r"

definition activation_chain :: "digest_lib \<Rightarrow> activation_record list \<Rightarrow> bool" where
  "activation_chain L rs \<longleftrightarrow> list_all valid_activation rs \<and> successively (activation_succeeds L) rs"

definition activation_starts :: "activation_record \<Rightarrow> bool" where
  "activation_starts r \<longleftrightarrow> ar_generation r = 1 \<and> ar_previous_record_hash r = ActivationHash_ZERO"

definition alog_tail :: "activation_record list \<Rightarrow> bytes \<Rightarrow> activation_tail" where
  "alog_tail rs rest = (if rest = [] then Clean else Torn)"

abbreviation activation_bytes :: "digest_lib \<Rightarrow> activation_record list \<Rightarrow> bytes" where
  "activation_bytes L \<equiv> slot_bytes (ActivationRecord_encode L)"

abbreviation activation_snapshot ::
  "digest_lib \<Rightarrow> nat \<Rightarrow> activation_record list \<Rightarrow> activation_tail \<Rightarrow> asnapshot" where
  "activation_snapshot L \<equiv> slot_snapshot (ActivationRecord_encode L)"

abbreviation alog_files ::
  "digest_lib \<Rightarrow> nat \<Rightarrow> activation_record list \<Rightarrow> activation_record list \<Rightarrow> (string \<Rightarrow> vfile option) \<Rightarrow> bool" where
  "alog_files L \<equiv> paired_files (ActivationRecord_encode L) (activation_chain L) alog_slot_name"

abbreviation activation_follows :: "digest_lib \<Rightarrow> activation_record list \<Rightarrow> activation_record \<Rightarrow> bool" where
  "activation_follows L \<equiv> log_follows activation_starts (activation_succeeds L)"



definition slot_previous :: "digest_lib \<Rightarrow> activation_record list \<Rightarrow> (activation_record \<times> bytes) option" where
  "slot_previous L rs =
     (if rs = [] then None
      else Some (last rs, ActivationHash_of L (ActivationRecord_encode L (last rs))))"

text \<open>A log of one record on the in-memory storage, for the witnesses.\<close>

definition alog_sample_state :: storage_state where
  "alog_sample_state =
     (let one = \<lparr>mf_live = activation_bytes reference_digests [sample_activation],
                 mf_durable = activation_bytes reference_digests [sample_activation]\<rparr>;
          empty = \<lparr>mf_live = [], mf_durable = []\<rparr>;
          names = [(''exact-index.activation.1.wal'', 2), (''exact-index.activation.wal'', 1)]
      in mem_new\<lparr>next_file_id := 2, live_directory := names, durable_directory := names,
           files := [(1, one), (2, empty)]\<rparr>)"

section \<open>Lemmas: one slot\<close>

declare decode_slot_from.simps [simp del]

lemma activation_record_chain: "record_chain (ActivationRecord_encode L) ar_generation (activation_succeeds L)"
  by unfold_locales (auto simp: activation_succeeds_def dest: checked_add_unat)

lemma activation_chain_eq:
  "record_chain.chain valid_activation (activation_succeeds L) = activation_chain L"
  by (simp add: record_chain.chain_def [OF activation_record_chain] activation_chain_def fun_eq_iff)

interpretation activations: record_chain "ActivationRecord_encode L" valid_activation ar_generation
    "activation_succeeds L"
  rewrites "record_chain.chain valid_activation (activation_succeeds L) = activation_chain L" for L
  by (rule activation_record_chain) (rule activation_chain_eq)

lemma slot_continues_iff:
  "slot_continues (slot_previous L rs) r = Inr () \<longleftrightarrow> rs = [] \<or> activation_succeeds L (last rs) r"
  by (auto simp: slot_continues_def slot_previous_def activation_succeeds_def not_le
      ok_or_def and_then_def split: option.splits)

lemma slot_next:
  assumes laws: "digest_laws L" and out: "activation_chain L out" "take (4096 * n) bs = activation_bytes L out"
    and rs: "prefix rs out" and n: "length rs < n" "4096 * n \<le> length bs"
  shows "\<exists>r. prefix (rs @ [r]) out \<and> ActivationRecord_decode L (slice (4096 * length rs) 4096 bs) = Inr r \<and>
    slot_continues (slot_previous L rs) r = Inr ()"
proof -
  have "4096 * n = 4096 * length out"
    using arg_cong [OF out(2), of length] n(2) by (simp only: activations.length_slot_bytes) simp
  then obtain r ys where ys: "out = rs @ r # ys"
    using rs n(1) by (auto simp: prefix_def neq_Nil_conv)
  then have chain: "activation_chain L (rs @ [r])"
    using out(1) activations.chain_appendD [of L "rs @ [r]" ys] by simp
  have "slice (4096 * length rs) 4096 bs = slice (4096 * length rs) 4096 (take (4096 * n) bs)"
    using n(1) by (simp add: slice_def drop_take min_def)
  also have "\<dots> = ActivationRecord_encode L r"
    by (simp add: out(2) ys activations.slot_bytes_append slice_def)
  finally show ?thesis
    using chain ys by (auto simp: activations.chain_snoc activation_decode_encode [OF laws] slot_continues_iff)
qed

text \<open>From a prefix of accepted records on, the loop accepts exactly the rest of a chain.\<close>

lemma decode_slot_from_iff:
  assumes "digest_laws L"
  shows "activation_chain L rs \<Longrightarrow> take (4096 * length rs) bs = activation_bytes L rs \<Longrightarrow>
    length rs + m = n \<Longrightarrow> 4096 * n \<le> length bs \<Longrightarrow>
    decode_slot_from L bs (4096 * n) (4096 * length rs) rs (slot_previous L rs) = Inr out \<longleftrightarrow>
      activation_chain L out \<and> take (4096 * n) bs = activation_bytes L out \<and> prefix rs out"
proof (induction m arbitrary: rs)
  case 0
  then have "take (4096 * length rs) bs = activation_bytes L out \<longleftrightarrow> activation_bytes L out = activation_bytes L rs"
    by auto
  moreover have "out = rs" if "activation_bytes L out = activation_bytes L rs" "prefix rs out"
  proof -
    have "4096 * length out = 4096 * length rs"
      using arg_cong [OF that(1), of length] by (simp only: activations.length_slot_bytes)
    with that(2) show ?thesis by (auto simp: prefix_def)
  qed
  ultimately show ?case
    using 0 by (subst decode_slot_from.simps) auto
next
  case (Suc m)
  let ?off = "4096 * length rs"
  let ?enc = "slice ?off 4096 bs"
  have go: "\<not> 4096 * n \<le> ?off" and len: "length ?enc = 4096" using Suc.prems by (simp_all add: slice_def)
  show ?case
  proof (cases "\<exists>r. ActivationRecord_decode L ?enc = Inr r \<and> slot_continues (slot_previous L rs) r = Inr ()")
    case True
    then obtain r where r: "ActivationRecord_decode L ?enc = Inr r"
      and cont: "slot_continues (slot_previous L rs) r = Inr ()" by blast
    note canon = activation_decode_canonical [OF assms r]
    have chain: "activation_chain L (rs @ [r])"
      using Suc.prems(1) cont activation_decode_valid [OF r]
      by (auto simp: activations.chain_snoc slot_continues_iff)
    have tk: "take (4096 * length (rs @ [r])) bs = activation_bytes L (rs @ [r])"
      using Suc.prems(2) canon take_add [of ?off 4096 bs] by (simp add: activations.slot_bytes_append slice_def add.commute)
    have step: "decode_slot_from L bs (4096 * n) ?off rs (slot_previous L rs) =
        decode_slot_from L bs (4096 * n) (4096 * length (rs @ [r])) (rs @ [r]) (slot_previous L (rs @ [r]))"
      using go r cont canon by (subst decode_slot_from.simps) (simp add: Let_def slot_previous_def add.commute)
    have "prefix (rs @ [r]) out" if "prefix rs out" "take (4096 * n) bs = activation_bytes L out" "activation_chain L out"
      using slot_next [OF assms that(3,2,1)] r Suc.prems(3,4) by auto
    with Suc.IH [OF chain tk] Suc.prems show ?thesis unfolding step by (auto dest: append_prefixD)
  next
    case False
    then have "decode_slot_from L bs (4096 * n) ?off rs (slot_previous L rs) \<noteq> Inr out"
      using go by (subst decode_slot_from.simps) (auto simp: Let_def and_then_def map_err_def split: sum.splits)
    with False show ?thesis using slot_next [OF assms, of out n bs rs] Suc.prems(3,4) by auto
  qed
qed

lemma decode_slot_eq:
  assumes "digest_laws L"
  shows "decode_slot L slot bs = Inr snap \<longleftrightarrow>
    (\<exists>rs. activation_chain L rs \<and> take (length bs div 4096 * 4096) bs = activation_bytes L rs \<and>
      snap = activation_snapshot L slot rs (if length bs = length bs div 4096 * 4096 then Clean else Torn))"
proof -
  define n where "n = length bs div 4096"
  define t where "t = (if length bs = n * 4096 then Clean else Torn)"
  have iff: "decode_slot_from L bs (n * 4096) 0 [] None = Inr out \<longleftrightarrow>
      activation_chain L out \<and> take (n * 4096) bs = activation_bytes L out" for out
    using decode_slot_from_iff [OF assms, of "[]" bs n n out] by (simp add: slot_previous_def mult.commute n_def)
  have run: "decode_slot L slot bs = and_then (decode_slot_from L bs (n * 4096) 0 [] None)
      (\<lambda>records. Inr \<lparr>ls_active_slot = slot, ls_bytes = take (n * 4096) bs, ls_records = records, ls_tail = t\<rparr>)"
    by (simp add: decode_slot_def Let_def n_def t_def)
  have "decode_slot L slot bs = Inr snap \<longleftrightarrow>
    (\<exists>rs. activation_chain L rs \<and> take (n * 4096) bs = activation_bytes L rs \<and> snap = activation_snapshot L slot rs t)"
  proof (cases "decode_slot_from L bs (n * 4096) 0 [] None")
    case (Inl e)
    then show ?thesis using iff run by auto
  next
    case (Inr out)
    have "out = rs" if "activation_chain L rs" "take (n * 4096) bs = activation_bytes L rs" for rs
      using iff [of rs] that Inr by simp
    with Inr iff [of out] show ?thesis by (auto simp: run slot_snapshot_def)
  qed
  then show ?thesis by (simp only: n_def t_def)
qed

lemma decode_slot_complete:
  assumes "digest_laws L" and "activation_chain L rs" and "length rest < 4096"
  shows "decode_slot L slot (activation_bytes L rs @ rest) = Inr (activation_snapshot L slot rs (alog_tail rs rest))"
  using assms(2,3) unfolding decode_slot_eq [OF assms(1)] by (auto simp: alog_tail_def intro!: exI [of _ rs])

lemma decode_slot_sound:
  assumes "digest_laws L" and "decode_slot L slot bs = Inr snap"
  obtains rs rest where "bs = activation_bytes L rs @ rest" "length rest < 4096" "activation_chain L rs"
    "snap = activation_snapshot L slot rs (alog_tail rs rest)"
proof -
  let ?k = "length bs div 4096 * 4096"
  obtain rs where rs: "activation_chain L rs" "take ?k bs = activation_bytes L rs"
    "snap = activation_snapshot L slot rs (if length bs = ?k then Clean else Torn)"
    using assms(2) unfolding decode_slot_eq [OF assms(1)] by blast
  have k: "?k \<le> length bs" "length bs < ?k + 4096"
    using div_mult_mod_eq [of "length bs" 4096] mod_less_divisor [of 4096 "length bs"] by linarith+
  show ?thesis
  proof (rule that [of rs "drop ?k bs"])
    show "bs = activation_bytes L rs @ drop ?k bs" using rs(2) by (metis append_take_drop_id)
  qed (use rs k in \<open>auto simp: alog_tail_def\<close>)
qed

section \<open>Lemmas: appending\<close>

lemma alog_slot_name_inj [simp]: "alog_slot_name 0 \<noteq> alog_slot_name 1" "alog_slot_name 1 \<noteq> alog_slot_name 0"
  "alog_slot_name 0 \<noteq> alog_slot_name (Suc 0)" "alog_slot_name (Suc 0) \<noteq> alog_slot_name 0"
  by (simp_all add: alog_slot_name_def)

lemma alog_verify_successor_iff:
  "alog_verify_successor L (activation_snapshot L a rs t) r = Inr () \<longleftrightarrow> activation_follows L rs r"
  by (auto simp: alog_verify_successor_def snapshot_last_record_def ActivationLogSnapshot_last_hash_def
      activations.last_encoded_slot activation_succeeds_def log_follows_def activation_starts_def)

lemma alog_verify_successor_error:
  "alog_verify_successor L snap r \<noteq> Inr () \<Longrightarrow> alog_verify_successor L snap r = Inl BrokenChain"
  by (auto simp: alog_verify_successor_def split: option.splits if_splits)

lemma alog_append_rejected:
  assumes "\<not> activation_follows L rs r"
  shows "alog_append S L verify (activation_snapshot L a rs Clean) r = io_fail BrokenChain"
  using alog_verify_successor_error [of L "activation_snapshot L a rs Clean" r] assms
  by (auto simp: alog_append_def alog_verify_successor_iff)

lemma alog_advance_extend:
  "alog_advance False (activation_snapshot L a rs Clean) r (ActivationRecord_encode L r) =
     Inr (activation_snapshot L a (rs @ [r]) Clean)"
  by (simp add: alog_advance_def slot_snapshot_def activations.slot_bytes_append)

lemma alog_advance_rotate:
  assumes "rs \<noteq> []"
  shows "alog_advance True (activation_snapshot L a rs Clean) r (ActivationRecord_encode L r) =
     Inr (activation_snapshot L (1 - a) [last rs, r] Clean)"
proof -
  obtain ys where "rs = ys @ [last rs]" using assms by (metis append_butlast_last_id)
  then have "activation_bytes L rs = activation_bytes L ys @ ActivationRecord_encode L (last rs)"
    by (metis activations.slot_bytes_append activations.slot_bytes_simps append_Nil2)
  then have "take 4096 (copy_within_start (length (activation_bytes L rs) - 4096) (activation_bytes L rs)) =
      ActivationRecord_encode L (last rs)"
    by (simp add: copy_within_start_def)
  with assms show ?thesis
    by (simp add: alog_advance_def slot_snapshot_def snapshot_last_record_def ok_or_def Let_def)
qed

context storage_laws
begin

lemma alog_verify_and_sync:
  assumes "y \<in> T" and "decode_slot L k y = Inr verified" and "ls_tail verified = Clean" and "ls_bytes verified = y"
  shows "triple (stage h n T F y)
    (io_bind
      (if verify then
         io_bind (io_from Io (read_object S n)) (\<lambda>reread.
         io_bind (io_result (decode_slot L k reread)) (\<lambda>verified.
         if ls_tail verified \<noteq> Clean \<or> ls_bytes verified \<noteq> y then io_fail PublishVerificationMismatch
         else io_return ()))
       else io_return ())
      (\<lambda>_. io_bind (io_from Io (sync_file S n)) (\<lambda>_. io_return snap)))
    (\<lambda>x s. x = snap \<and> stage h n {y} F y s) (\<lambda>e s. \<not> h \<and> within n T F s)"
proof -
  have sync: "triple (stage h n T F y) (io_bind (io_from Io (sync_file S n)) (\<lambda>_. io_return snap))
      (\<lambda>x s. x = snap \<and> stage h n {y} F y s) (\<lambda>e s. \<not> h \<and> within n T F s)"
    using assms(1) by (rule sync_file_last)
  have read: "triple (stage h n T F y)
      (io_bind (io_from Io (read_object S n)) (\<lambda>reread.
       io_bind (io_result (decode_slot L k reread)) (\<lambda>verified.
       if ls_tail verified \<noteq> Clean \<or> ls_bytes verified \<noteq> y then io_fail PublishVerificationMismatch
       else io_return ())))
      (\<lambda>_. stage h n T F y) (\<lambda>e s. \<not> h \<and> within n T F s)"
    using assms by (intro read_object_then) (auto intro: triple_return)
  show ?thesis
    using sync triple_bind [OF read sync] by (cases verify) simp_all
qed

lemma alog_append_extend:
  assumes laws: "digest_laws L" and ver: "activation_follows L rs r" and chain: "activation_chain L (rs @ [r])"
    and len: "length rs < 64" and T: "activation_bytes L rs \<in> T" "activation_bytes L (rs @ [r]) \<in> T"
  shows "triple (stage h (alog_slot_name a) T F (activation_bytes L rs))
    (alog_append S L verify (activation_snapshot L a rs Clean) r)
    (\<lambda>snap s. snap = activation_snapshot L a (rs @ [r]) Clean \<and>
       stage h (alog_slot_name a) {activation_bytes L (rs @ [r])} F (activation_bytes L (rs @ [r])) s)
    (\<lambda>e s. \<not> h \<and> within (alog_slot_name a) T F s)"
proof -
  define n where "n = alog_slot_name a"
  define k where "k = 4096 * length rs"
  define e where "e = ActivationRecord_encode L r"
  define old where "old = activation_bytes L rs"
  define new where "new = activation_bytes L (rs @ [r])"
  define snap where "snap = activation_snapshot L a (rs @ [r]) Clean"
  have bytes: "new = old @ e" "length old = k" "length e = 4096"
    by (simp_all add: old_def new_def e_def k_def activations.slot_bytes_append)
  have k: "k < 2 ^ 64" "k + 4096 < 2 ^ 64" using len by (simp_all add: k_def)
  then have unat: "unat (of_nat k :: u64) = k" "unat (of_nat (k + 4096) :: u64) = k + 4096"
    by (simp_all add: unsigned_of_nat take_bit_nat_eq_self del: of_nat_add)
  have snap: "ls_bytes snap = new" "ls_active_slot snap = a" by (simp_all add: snap_def new_def)
  have dec: "decode_slot L a new = Inr snap" "ls_tail snap = Clean"
    using decode_slot_complete [OF laws chain, of "[]" a] by (simp_all add: new_def snap_def alog_tail_def)
  have prog: "alog_append S L verify (activation_snapshot L a rs Clean) r =
      io_bind (io_from Io (write_at S n (of_nat k) e)) (\<lambda>_.
      io_bind (io_from Io (set_len S n (of_nat (k + 4096)))) (\<lambda>_.
      io_bind
        (if verify then
           io_bind (io_from Io (read_object S n)) (\<lambda>reread.
           io_bind (io_result (decode_slot L a reread)) (\<lambda>verified.
           if ls_tail verified \<noteq> Clean \<or> ls_bytes verified \<noteq> new then io_fail PublishVerificationMismatch
           else io_return ()))
         else io_return ())
        (\<lambda>_. io_bind (io_from Io (sync_file S n)) (\<lambda>_. io_return snap))))"
    using len k alog_verify_successor_iff [of L a rs Clean r] ver alog_advance_extend [of L a rs r]
    by (simp add: alog_append_def Let_def u64_try_from_def bytes(2,3) snap snap_def [symmetric]
        n_def [symmetric] e_def [symmetric] old_def [symmetric] bytes(1) ok_or_def cong: if_cong)
  show ?thesis
    unfolding prog n_def [symmetric] old_def [symmetric] new_def [symmetric] snap_def [symmetric]
    using T k unat bytes(2,3) resize_id [of new] overwrite_end [of old e]
      alog_verify_and_sync [of new T L a snap h n F verify snap] dec
    by (intro write_at_then [of old "of_nat k" e new] set_len_then [where y = new])
      (simp_all add: bytes(1) old_def [symmetric] new_def [symmetric] snap(1))
qed

lemma alog_append_rotate:
  assumes laws: "digest_laws L" and ver: "activation_follows L rs r" and chain: "activation_chain L (rs @ [r])"
    and len: "length rs = 64"
    and T: "x \<in> T" "[] \<in> T" "activation_bytes L [last rs] \<in> T" "activation_bytes L [last rs, r] \<in> T"
  shows "triple (stage h (alog_slot_name (1 - a)) T F x)
    (alog_append S L verify (activation_snapshot L a rs Clean) r)
    (\<lambda>snap s. snap = activation_snapshot L (1 - a) [last rs, r] Clean \<and>
       stage h (alog_slot_name (1 - a)) {activation_bytes L [last rs, r]} F (activation_bytes L [last rs, r]) s)
    (\<lambda>e s. \<not> h \<and> within (alog_slot_name (1 - a)) T F s)"
proof -
  define n where "n = alog_slot_name (1 - a)"
  define b where "b = ActivationRecord_encode L (last rs)"
  define e where "e = ActivationRecord_encode L r"
  define snap where "snap = activation_snapshot L (1 - a) [last rs, r] Clean"
  have bytes: "activation_bytes L [last rs] = b" "activation_bytes L [last rs, r] = b @ e"
    "length b = 4096" "length e = 4096"
    by (simp_all add: e_def b_def)
  have rs: "rs \<noteq> []" using len by auto
  have snap: "ls_bytes snap = b @ e" "ls_active_slot snap = 1 - a" by (simp_all add: snap_def b_def e_def)
  have dec: "decode_slot L (1 - a) (b @ e) = Inr snap" "ls_tail snap = Clean"
    using decode_slot_complete [OF laws, of "[last rs, r]" "[]" "1 - a"] activations.chain_bridge [OF chain rs]
    by (simp_all add: snap_def alog_tail_def b_def e_def)
  have prog: "alog_append S L verify (activation_snapshot L a rs Clean) r =
      io_bind (io_from Io (set_len S n 0)) (\<lambda>_.
      io_bind (io_from Io (write_at S n 0 b)) (\<lambda>_.
      io_bind (io_from Io (write_at S n (of_nat 4096) e)) (\<lambda>_.
      io_bind (io_from Io (set_len S n (of_nat 8192))) (\<lambda>_.
      io_bind
        (if verify then
           io_bind (io_from Io (read_object S n)) (\<lambda>reread.
           io_bind (io_result (decode_slot L (1 - a) reread)) (\<lambda>verified.
           if ls_tail verified \<noteq> Clean \<or> ls_bytes verified \<noteq> b @ e then io_fail PublishVerificationMismatch
           else io_return ()))
         else io_return ())
        (\<lambda>_. io_bind (io_from Io (sync_file S n)) (\<lambda>_. io_return snap))))))"
    using len alog_verify_successor_iff [of L a rs Clean r] ver alog_advance_rotate [OF rs, of L a r]
    by (simp add: alog_append_def Let_def u64_try_from_def bytes(3,4) snap snap_def [symmetric] ok_or_def cong: if_cong
        del: One_nat_def flip: n_def e_def)
  show ?thesis
    unfolding prog n_def [symmetric] snap_def [symmetric] bytes(2)
    using T bytes resize_id [of "b @ e"] overwrite_end [of b e]
      alog_verify_and_sync [of "b @ e" T L "1 - a" snap h n F verify snap] dec
    by (intro set_len_then [where y = "[]"] write_at_then [of "[]" 0 b b]
        write_at_then [of b "of_nat 4096" e "b @ e"] set_len_then [where y = "b @ e"])
      (simp_all add: snap(1))
qed

end

section \<open>The log on any storage\<close>

locale alog_storage = digest_laws L + storage_laws S inv healthy view restart
  for L and verify :: bool and S :: "'s storage_io" and inv healthy view restart

context alog_storage
begin

lemma alog_paired_log:
  "paired_log (ActivationRecord_encode L) valid_activation ar_generation (activation_succeeds L) S inv healthy view
     restart alog_slot_name (decode_slot L) Clean alog_tail activation_starts (alog_append S L verify)"
proof (intro paired_log.intro paired_log_axioms.intro, unfold activation_chain_eq, goal_cases)
  case 1
  show ?case by (rule activation_record_chain)
next
  case 2
  show ?case by (rule storage_laws_axioms)
next
  case 3
  show ?case by simp
next
  case (4 rs rest)
  show ?case by (simp add: alog_tail_def)
next
  case (5 rs rest k)
  then show ?case by (rule decode_slot_complete [OF digest_laws_axioms])
next
  case (6 rs r a)
  then show ?case using alog_append_rejected by blast
next
  case (7 rs r a T h F)
  then show ?case by (intro alog_append_extend digest_laws_axioms)
next
  case (8 rs r a x T h F)
  then show ?case by (intro alog_append_rotate digest_laws_axioms)
qed

lemma alog_load_paired:
  "paired_log.load ar_generation S alog_slot_name (decode_slot L) Io SlotTooLarge PublishVerificationMismatch
     BrokenChain DivergentSlots Clean = alog_load S L"
  by (simp add: paired_log.load_def [OF alog_paired_log] alog_load_def paired_load_def alog_select_current_def [abs_def])

lemma alog_load_for_append_paired:
  "paired_log.open_log ar_generation S alog_slot_name (decode_slot L) Io SlotTooLarge
     PublishVerificationMismatch BrokenChain DivergentSlots Clean = alog_load_for_append S L"
  unfolding paired_log.open_log_def [OF alog_paired_log] alog_load_paired alog_load_for_append_def paired_open_def
    alog_ensure_slots_exist_def ActivationLogSnapshot_empty_def empty_snapshot_def ..

lemmas alog_log_operations = activation_chain_eq alog_load_paired alog_load_for_append_paired

end

locale alog_memory = digest_laws L + memory_laws view restart for L and verify :: bool and view restart

sublocale alog_memory \<subseteq> alog_storage L verify memory_storage mem_honest mem_healthy view restart
  by (intro alog_storage.intro digest_laws_axioms storage_laws_axioms)

sublocale alog_memory \<subseteq> log: paired_memory_log view restart "ActivationRecord_encode L" valid_activation
    ar_generation "activation_succeeds L" alog_slot_name "decode_slot L" Io SlotTooLarge
    PublishVerificationMismatch BrokenChain DivergentSlots Clean alog_tail activation_starts
    "alog_append memory_storage L verify"
  rewrites "record_chain.chain valid_activation (activation_succeeds L) = activation_chain L"
  by (intro paired_memory_log.intro memory_laws_axioms alog_paired_log) (simp_all add: alog_log_operations)

context alog_memory
begin

lemmas alog_append_crash = log.append_crash [unfolded alog_log_operations]
lemmas alog_run_invariant = log.run_invariant [unfolded log.invariant_def alog_log_operations]
lemmas alog_run_reload = log.run_reload [unfolded alog_log_operations]
lemmas alog_append_healthy = log.append_healthy [unfolded alog_log_operations]
lemmas alog_run_first = log.run_first [unfolded alog_log_operations]
lemmas alog_load_healthy = log.load_healthy [unfolded alog_log_operations]
lemmas alog_open_new = log.open_mem_new [unfolded alog_log_operations]

end

lemma alog_power: "digest_laws L \<Longrightarrow> alog_memory L mem_view mem_power_cycle"
  by (intro alog_memory.intro power_run.memory_laws_axioms)

lemma alog_kill: "digest_laws L \<Longrightarrow> alog_memory L mem_kill_view mem_clear_faults"
  by (intro alog_memory.intro kill_run.memory_laws_axioms)

interpretation alog_reference_power: alog_memory reference_digests verify mem_view mem_power_cycle for verify
  by (rule alog_power [OF reference.digest_laws_axioms])

interpretation alog_reference_kill: alog_memory reference_digests verify mem_kill_view mem_clear_faults for verify
  by (rule alog_kill [OF reference.digest_laws_axioms])





lemma alog_sample_state:
  "mem_honest alog_sample_state" "mem_healthy alog_sample_state"
  "alog_files reference_digests 0 [sample_activation] [] (mem_view alog_sample_state)"
  using valid_sample_activation
  by (auto simp: alog_sample_state_def mem_honest_def mem_inv_def directory_ok_def bt_sorted_def mem_view_def
      mem_file_def synced_file_def alog_slot_name_def paired_files_def paired_slots_def mem_eval split: if_splits)


lemma alog_sample_load:
  "\<exists>s. alog_load memory_storage reference_digests alog_sample_state =
    (Inr (Some (activation_snapshot reference_digests 0 [sample_activation] Clean)), s)"
  using alog_reference_power.alog_load_healthy [OF alog_sample_state] by (simp add: log_loaded_def)

text \<open>The reference window and the load run the same loop.\<close>

lemma load_slots_map:
  "load_slots S (\<lambda>slot bytes. and_then (decode slot bytes) (\<lambda>seg. Inr (f seg))) io too_large mismatch names =
     io_bind (load_slots S decode io too_large mismatch names) (\<lambda>segs. io_return (map f segs))"
proof (induction names)
  case (Cons p names)
  obtain slot name where p: "p = (slot, name)" by (cases p)
  show ?case
    unfolding p load_slots.simps Cons.IH
    by (auto simp: io_bind_def io_return_def io_fail_def io_result_def and_then_def fun_eq_iff
        split: prod.splits sum.splits)
qed simp

lemma select_slots_records:
  assumes "select_slots gen clean broken divergent segs = Inr (Some snap)"
  shows "snap \<in> set segs"
  using assms
  by (auto simp: select_slots_def select_pair_def Let_def filter_eq_Cons_iff split: if_splits list.splits)

lemma alog_retirement_eq:
  "alog_load_retirement_reference_records S L =
     io_bind (load_slots S (decode_slot L) Io SlotTooLarge PublishVerificationMismatch
       [(0, alog_slot_name 0), (1, alog_slot_name 1)]) (\<lambda>slots. io_return (concat (map ls_records slots)))"
  unfolding alog_load_retirement_reference_records_def load_slots_map io_bind_assoc io_simps ..


section \<open>Properties\<close>





text \<open>
  C27: A slot decodes exactly when it is a chain of valid activation records followed by less than one
  record of other bytes; the result holds exactly those records, and the tail is clean exactly when
  nothing follows them.
\<close>

theorem decode_slot_iff:
  assumes "digest_laws L"
  shows "decode_slot L slot bs = Inr snap \<longleftrightarrow>
    (\<exists>rs rest. bs = activation_bytes L rs @ rest \<and> length rest < 4096 \<and> activation_chain L rs \<and>
       snap = activation_snapshot L slot rs (if rest = [] then Clean else Torn))"
  using decode_slot_complete [OF assms] decode_slot_sound [OF assms, of slot bs snap]
  unfolding alog_tail_def by blast

theorem decode_slot_iff_witness:
  "digest_laws reference_digests \<and>
   decode_slot reference_digests 1 (activation_bytes reference_digests [sample_activation] @ [3]) =
     Inr (activation_snapshot reference_digests 1 [sample_activation] Torn)"
  using decode_slot_iff [OF reference.digest_laws_axioms, of 1
      "activation_bytes reference_digests [sample_activation] @ [3]"
      "activation_snapshot reference_digests 1 [sample_activation] Torn"]
    valid_sample_activation reference.digest_laws_axioms
  by (force intro: exI [of _ "[sample_activation]"])

text \<open>
  C20: The window of records that keeps Runs and Run Sets from being retired covers recovery. On any
  storage and in any state, damaged files included, when a load selects a snapshot, the window is
  read without error and contains every record of that snapshot.
\<close>

theorem alog_retirement_covers_recovery:
  assumes "alog_load S L s = (Inr (Some snapshot), s')"
  shows "\<exists>records. alog_load_retirement_reference_records S L s = (Inr records, s') \<and>
           set (ls_records snapshot) \<subseteq> set records"
proof -
  define slots where "slots = load_slots S (decode_slot L) Io SlotTooLarge PublishVerificationMismatch
    [(0, alog_slot_name 0), (1, alog_slot_name 1)] s"
  obtain segs where segs: "slots = (Inr segs, s')" "alog_select_current segs = Inr (Some snapshot)"
    using assms unfolding alog_load_def io_bind_def slots_def [symmetric]
    by (auto simp: io_result_def split: prod.splits sum.splits)
  have "alog_load_retirement_reference_records S L s = (Inr (concat (map ls_records segs)), s')"
    unfolding alog_retirement_eq io_bind_def slots_def [symmetric] by (simp add: segs io_return_def)
  moreover have "snapshot \<in> set segs"
    using segs(2) unfolding alog_select_current_def by (rule select_slots_records)
  ultimately show ?thesis by auto
qed

theorem alog_retirement_covers_recovery_witness:
  "\<exists>s' records. alog_load memory_storage reference_digests alog_sample_state =
       (Inr (Some (activation_snapshot reference_digests 0 [sample_activation] Clean)), s') \<and>
     alog_load_retirement_reference_records memory_storage reference_digests alog_sample_state = (Inr records, s') \<and>
     sample_activation \<in> set records"
  using alog_sample_load alog_retirement_covers_recovery [of memory_storage reference_digests alog_sample_state]
  by fastforce

end
