(* ===== verification/Container_Names.thy ===== *)
theory Container_Names
  imports High_Water Storage_Io "HOL-Library.Sublist"
begin

text \<open>
  Names of published Containers in \<open>crates/fastdup-store/src/lib.rs\<close>: the 32 lower-case hexadecimal
  digits of the Container identity followed by \<open>.fdc\<close>, their parser, and the count of published
  Containers. The errors of the store that the generation allocator and these operations use are
  here too.
\<close>

datatype store_error =
    StoreIo io_error
  | StorePublishVerificationMismatch
  | InvalidPublishedName string
  | InvalidContainerGenerationReservationSpan
  | ContainerGenerationExhausted
  | ContainerGenerationHighWaterFormat high_water_format_error
  | ContainerGenerationHighWaterMissing
  | ContainerGenerationHighWaterChain
  | ContainerGenerationHighWaterBehind u64 u64

definition ContainerId_new :: "bytes \<Rightarrow> bytes option" where
  "ContainerId_new bytes = (if bytes = zeros 16 then None else Some bytes)"

definition HEX :: string where
  "HEX = ''0123456789abcdef''"

fun encode_id :: "bytes \<Rightarrow> string" where
  "encode_id [] = []"
| "encode_id (byte # bytes) = HEX ! unat (drop_bit 4 byte) # HEX ! unat (and byte 15) # encode_id bytes"

definition published_name :: "bytes \<Rightarrow> string" where
  "published_name container_id = encode_id container_id @ ''.fdc''"

definition decode_hex_nibble :: "u8 \<Rightarrow> u8 option" where
  "decode_hex_nibble byte =
     (if 48 \<le> byte \<and> byte \<le> 57 then Some (byte - 48)
      else if 97 \<le> byte \<and> byte \<le> 102 then Some (byte - 97 + 10)
      else None)"

definition strip_suffix :: "string \<Rightarrow> string \<Rightarrow> string option" where
  "strip_suffix end_part name =
     (if suffix end_part name then Some (take (length name - length end_part) name) else None)"

fun decode_hex_pairs :: "bytes \<Rightarrow> bytes option" where
  "decode_hex_pairs (first # second # rest) =
     (case (decode_hex_nibble first, decode_hex_nibble second) of
        (Some high, Some low) \<Rightarrow> map_option (\<lambda>bytes. or (push_bit 4 high) low # bytes) (decode_hex_pairs rest)
      | _ \<Rightarrow> None)"
| "decode_hex_pairs _ = Some []"

definition parse_published_name :: "string \<Rightarrow> store_error + bytes option" where
  "parse_published_name name =
     (case strip_suffix ''.fdc'' name of
        None \<Rightarrow> Inr None
      | Some encoded \<Rightarrow>
          if length encoded \<noteq> 32 then Inl (InvalidPublishedName name)
          else case decode_hex_pairs (ascii encoded) of
                 None \<Rightarrow> Inl (InvalidPublishedName name)
               | Some bytes \<Rightarrow>
                   (case ContainerId_new bytes of
                      None \<Rightarrow> Inl (InvalidPublishedName name)
                    | Some container_id \<Rightarrow> Inr (Some container_id)))"

fun count_published :: "u64 \<Rightarrow> string list \<Rightarrow> store_error + u64" where
  "count_published count [] = Inr count"
| "count_published count (name # names) =
     and_then (parse_published_name name) (\<lambda>parsed.
       if parsed \<noteq> None then
         and_then (ok_or (checked_add count 1) (StoreIo OtherIo)) (\<lambda>count. count_published count names)
       else count_published count names)"

definition published_container_count :: "'s storage_io \<Rightarrow> ('s, store_error, u64) io" where
  "published_container_count S =
     io_bind (io_from StoreIo (list_names S)) (\<lambda>names. io_result (count_published 0 names))"

section \<open>Lemmas\<close>

lemma nat_16_cases: "n < 16 \<Longrightarrow> n \<in> {0, 1, 2, 3, 4, 5, 6, 7, 8, 9, 10, 11, 12, 13, 14, 15}" for n :: nat
  by (simp, arith)

lemma decode_hex_digit: "n < 16 \<Longrightarrow> decode_hex_nibble (of_nat (of_char (HEX ! n))) = Some (of_nat n)"
  using nat_16_cases [of n] by (auto simp: HEX_def decode_hex_nibble_def)

lemma ascii_digit:
  assumes "decode_hex_nibble (of_nat (of_char c)) = Some v"
  shows "unat v < 16 \<and> c = HEX ! unat v"
proof -
  have c: "of_char c < (256 :: nat)" by simp
  then have unat: "unat (of_nat (of_char c) :: u8) = of_char c"
    by (simp add: unsigned_of_nat take_bit_nat_eq_self)
  define k :: nat where "k = of_char c"
  then have char: "c = char_of k" by simp
  have "48 \<le> k \<and> k \<le> 57 \<and> v = of_nat (k - 48) \<or> 97 \<le> k \<and> k \<le> 102 \<and> v = of_nat (k - 97 + 10)"
    using assms unat
    by (auto simp: decode_hex_nibble_def word_le_nat_alt of_nat_diff k_def split: if_splits)
  then obtain n where n: "n < 16" "v = of_nat n" "k = (if n < 10 then 48 + n else 87 + n)"
    by (elim disjE conjE) (rule that [of "k - 48"], auto, rule that [of "k - 87"], auto)
  then have "unat v = n" by (simp add: unsigned_of_nat take_bit_nat_eq_self)
  with n char show ?thesis
    using nat_16_cases [OF n(1)] by (auto simp: HEX_def char_of_def bit_numeral_rec bit_0)
qed

lemma nibbles_join: "or (push_bit 4 (drop_bit 4 b)) (and b 15) = (b :: u8)"
proof -
  have "15 = (mask 4 :: u8)" by (simp add: mask_numeral)
  then show ?thesis by (auto simp: bit_eq_iff bit_simps)
qed

lemma nibbles_split:
  assumes "unat h < 16" and "unat l < 16"
  shows "drop_bit 4 (or (push_bit 4 h) l) = (h :: u8)" and "and (or (push_bit 4 h) l) 15 = l"
proof -
  have "15 = (mask 4 :: u8)" by (simp add: mask_numeral)
  moreover have "take_bit 4 h = h" "take_bit 4 l = l"
    using assms by (simp_all add: word_unat_eq_iff unsigned_take_bit_eq take_bit_nat_eq_self)
  then have "bit h i \<Longrightarrow> i < 4" "bit l i \<Longrightarrow> i < 4" for i
    by (metis bit_take_bit_iff)+
  ultimately show "drop_bit 4 (or (push_bit 4 h) l) = h" "and (or (push_bit 4 h) l) 15 = l"
    by (fastforce simp: bit_eq_iff bit_simps)+
qed

lemma length_encode_id [simp]: "length (encode_id bs) = 2 * length bs"
  by (induction bs) auto

lemma nibble_bounds: "unat (drop_bit 4 (b :: u8)) < 16" "unat (and b 15) < 16"
proof -
  have "unat b < 256" using unsigned_less [of b, where ?'a = nat] by simp
  then show "unat (drop_bit 4 b) < 16" by (simp add: drop_bit_eq_div unat_div)
  have "and b (mask 4) < 2 ^ 4" by (rule and_mask_less') simp
  then show "unat (and b 15) < 16" by (simp add: mask_numeral word_less_nat_alt)
qed

lemma decode_encode_id: "decode_hex_pairs (ascii (encode_id bs)) = Some bs"
  by (induction bs) (simp_all add: ascii_def decode_hex_digit nibble_bounds nibbles_join)

lemma decode_hex_pairs_encode:
  "decode_hex_pairs (ascii cs) = Some bs \<Longrightarrow> even (length cs) \<Longrightarrow> cs = encode_id bs"
proof (induction cs arbitrary: bs rule: induct_list012)
  case (3 c d cs)
  then obtain h l rest where "decode_hex_nibble (of_nat (of_char c)) = Some h" "decode_hex_nibble (of_nat (of_char d)) = Some l"
    "decode_hex_pairs (ascii cs) = Some rest" "bs = or (push_bit 4 h) l # rest"
    by (auto simp: ascii_def split: option.splits)
  with 3 ascii_digit [of c h] ascii_digit [of d l] nibbles_split [of h l] show ?case
    by (simp del: drop_bit_or)
qed (auto simp: ascii_def)

lemma strip_suffix_append: "strip_suffix e (x @ e) = Some x"
  by (simp add: strip_suffix_def suffix_def)

section \<open>Properties\<close>

text \<open>
  C36: The parser of published Container names inverts their construction exactly: it accepts a
  name with the identity \<open>i\<close> if and only if the name is the published name of \<open>i\<close> and \<open>i\<close> is a
  nonzero identity of 16 bytes. So two identities never share a name, and no second spelling
  (upper case, a short or padded number) names a Container.
\<close>

theorem parse_published_name_iff:
  "parse_published_name name = Inr (Some i) \<longleftrightarrow> length i = 16 \<and> i \<noteq> zeros 16 \<and> name = published_name i"
proof
  assume parse: "parse_published_name name = Inr (Some i)"
  then obtain encoded where strip: "strip_suffix ''.fdc'' name = Some encoded" and len: "length encoded = 32"
    and dec: "decode_hex_pairs (ascii encoded) = Some i" and i: "i \<noteq> zeros 16"
    by (auto simp: parse_published_name_def ContainerId_new_def split: option.splits if_splits)
  from strip have "name = encoded @ ''.fdc''"
    by (auto simp: strip_suffix_def suffix_def split: if_splits)
  moreover have enc: "encoded = encode_id i" by (rule decode_hex_pairs_encode [OF dec]) (simp add: len)
  moreover have "length i = 16" using len unfolding enc by simp
  ultimately show "length i = 16 \<and> i \<noteq> zeros 16 \<and> name = published_name i"
    using i by (simp add: published_name_def)
next
  assume "length i = 16 \<and> i \<noteq> zeros 16 \<and> name = published_name i"
  then show "parse_published_name name = Inr (Some i)"
    by (simp add: parse_published_name_def published_name_def strip_suffix_append decode_encode_id ContainerId_new_def)
qed

end
