(* ===== verification/Generation_Allocator.thy ===== *)
theory Generation_Allocator
  imports Container_Names Memory_Storage Record_Chain
begin

text \<open>
  The Container generation allocator, \<open>crates/fastdup-store/src/container_generation_allocator.rs\<close>:
  generations are handed out from a range that a High-Water record made durable before. The records
  alternate between two files.

  \<open>alloc_files\<close> relates the files to the selected record: its own slot is synced, the other slot holds
  nothing, its predecessor or an attempted successor. Every operation keeps this relation, at every
  fault, so that what a restarted allocator selects is never below what was handed out.

  The mutexes of the code are not modelled: an operation is one step, and the registry that shares
  the state inside a process is the argument \<open>registered\<close> of \<open>alloc_open\<close>.
\<close>

abbreviation CONTAINER_GENERATION_HIGH_WATER_SLOT_0 :: string where
  "CONTAINER_GENERATION_HIGH_WATER_SLOT_0 \<equiv> ''container-generation.wal''"
abbreviation CONTAINER_GENERATION_HIGH_WATER_SLOT_1 :: string where
  "CONTAINER_GENERATION_HIGH_WATER_SLOT_1 \<equiv> ''container-generation.1.wal''"

record allocator_state =
  as_selected :: "high_water_record option"
  as_next :: u64
  as_reserved_through :: u64

record decoded_slot =
  ds_record :: high_water_record
  ds_hash :: bytes

fun alloc_ensure_slots :: "'s storage_io \<Rightarrow> string list \<Rightarrow> ('s, store_error, unit) io" where
  "alloc_ensure_slots S [] = io_from StoreIo (sync_root S)"
| "alloc_ensure_slots S (name # names) =
     io_bind (io_from StoreIo (exists_name S name)) (\<lambda>present.
       if present then alloc_ensure_slots S names
       else
         io_bind (io_from StoreIo (create_new S name)) (\<lambda>_.
         io_bind (io_from StoreIo (sync_file S name)) (\<lambda>_.
           alloc_ensure_slots S names)))"

definition alloc_read_slot ::
  "'s storage_io \<Rightarrow> digest_lib \<Rightarrow> string \<Rightarrow> ('s, store_error, decoded_slot option) io" where
  "alloc_read_slot S L name =
     io_bind (io_from StoreIo (object_len S name)) (\<lambda>length64.
     if length64 = 0 then io_return None
     else if unat length64 \<noteq> HW_RECORD_BYTES
     then io_fail (ContainerGenerationHighWaterFormat (InvalidLength (unat length64)))
     else
       io_bind (io_from StoreIo (read_exact_at S name 0 HW_RECORD_BYTES)) (\<lambda>bytes.
       io_bind (io_result (map_err ContainerGenerationHighWaterFormat (HighWaterRecord_decode L bytes)))
         (\<lambda>record. io_return (Some \<lparr>ds_record = record, ds_hash = HighWaterHash_of L bytes\<rparr>))))"

definition alloc_select ::
  "decoded_slot option \<Rightarrow> decoded_slot option \<Rightarrow> store_error + decoded_slot option" where
  "alloc_select first second =
     (case (first, second) of
        (None, None) \<Rightarrow> Inr None
      | (Some slot, None) \<Rightarrow>
          if hw_sequence (ds_record slot) = 1 then Inr (Some slot) else Inl ContainerGenerationHighWaterChain
      | (None, Some slot) \<Rightarrow>
          if hw_sequence (ds_record slot) = 1 then Inr (Some slot) else Inl ContainerGenerationHighWaterChain
      | (Some first, Some second) \<Rightarrow>
          let (older, newer) =
                (if hw_sequence (ds_record first) < hw_sequence (ds_record second)
                 then (first, second) else (second, first))
          in if hw_sequence (ds_record newer) \<noteq> saturating_add (hw_sequence (ds_record older)) 1
                \<or> hw_previous_record_hash (ds_record newer) \<noteq> ds_hash older
                \<or> hw_reserved_through (ds_record newer) < hw_reserved_through (ds_record older)
             then Inl ContainerGenerationHighWaterChain
             else Inr (Some newer))"

definition alloc_load_selected ::
  "'s storage_io \<Rightarrow> digest_lib \<Rightarrow> ('s, store_error, decoded_slot option) io" where
  "alloc_load_selected S L =
     io_bind (alloc_read_slot S L CONTAINER_GENERATION_HIGH_WATER_SLOT_0) (\<lambda>first.
     io_bind (alloc_read_slot S L CONTAINER_GENERATION_HIGH_WATER_SLOT_1) (\<lambda>second.
     io_result (alloc_select first second)))"

definition alloc_open ::
  "'s storage_io \<Rightarrow> digest_lib \<Rightarrow> u64 \<Rightarrow> allocator_state option \<Rightarrow> ('s, store_error, allocator_state) io" where
  "alloc_open S L reservation_span registered =
     (if reservation_span = 0 then io_fail InvalidContainerGenerationReservationSpan
      else case registered of
        Some state \<Rightarrow> io_return state
      | None \<Rightarrow>
          io_bind (io_from StoreIo (exists_name S CONTAINER_GENERATION_HIGH_WATER_SLOT_0)) (\<lambda>first_exists.
          io_bind (io_from StoreIo (exists_name S CONTAINER_GENERATION_HIGH_WATER_SLOT_1)) (\<lambda>second_exists.
          io_bind (if \<not> first_exists \<or> \<not> second_exists then published_container_count S else io_return 0) (\<lambda>count.
          if (\<not> first_exists \<or> \<not> second_exists) \<and> count \<noteq> 0
          then io_fail ContainerGenerationHighWaterMissing
          else
            io_bind (alloc_ensure_slots S
              [CONTAINER_GENERATION_HIGH_WATER_SLOT_0, CONTAINER_GENERATION_HIGH_WATER_SLOT_1]) (\<lambda>_.
            io_bind (alloc_load_selected S L) (\<lambda>selected.
            io_bind (if selected = None then published_container_count S else io_return 0) (\<lambda>count.
            if selected = None \<and> count \<noteq> 0 then io_fail ContainerGenerationHighWaterMissing
            else
              let selected = map_option ds_record selected;
                  reserved_through = (case selected of None \<Rightarrow> 0 | Some record \<Rightarrow> hw_reserved_through record)
              in io_bind (io_result (ok_or (checked_add reserved_through 1) ContainerGenerationExhausted)) (\<lambda>next.
                 io_return \<lparr>as_selected = selected, as_next = next, as_reserved_through = reserved_through\<rparr>))))))))"

definition alloc_slot_of :: "u64 \<Rightarrow> string" where
  "alloc_slot_of sequence =
     (if sequence mod 2 = 1 then CONTAINER_GENERATION_HIGH_WATER_SLOT_0
      else CONTAINER_GENERATION_HIGH_WATER_SLOT_1)"

definition alloc_successor ::
  "digest_lib \<Rightarrow> high_water_record option \<Rightarrow> u64 \<Rightarrow> store_error + high_water_record" where
  "alloc_successor L selected reserved_through =
     and_then
       (case selected of
          Some record \<Rightarrow>
            and_then (ok_or (checked_add (hw_sequence record) 1) ContainerGenerationExhausted)
              (\<lambda>sequence. Inr (sequence, HighWaterHash_of L (HighWaterRecord_encode L record)))
        | None \<Rightarrow> Inr (1, HighWaterHash_ZERO))
       (\<lambda>(sequence, previous_hash).
          map_err ContainerGenerationHighWaterFormat
            (HighWaterRecord_new sequence previous_hash reserved_through))"

definition alloc_publish_successor ::
  "'s storage_io \<Rightarrow> digest_lib \<Rightarrow> high_water_record option \<Rightarrow> u64 \<Rightarrow> ('s, store_error, high_water_record) io" where
  "alloc_publish_successor S L selected reserved_through =
     io_bind (io_result (alloc_successor L selected reserved_through)) (\<lambda>record.
     let bytes = HighWaterRecord_encode L record;
         target = alloc_slot_of (hw_sequence record)
     in io_bind (io_from StoreIo (set_len S target 0)) (\<lambda>_.
        io_bind (io_from StoreIo (write_at S target 0 bytes)) (\<lambda>_.
        io_bind (io_from StoreIo (set_len S target (of_nat HW_RECORD_BYTES))) (\<lambda>_.
        io_bind (io_from StoreIo (read_exact_at S target 0 HW_RECORD_BYTES)) (\<lambda>reread.
        if reread \<noteq> bytes then io_fail StorePublishVerificationMismatch
        else
          io_bind (io_result (map_err ContainerGenerationHighWaterFormat (HighWaterRecord_decode L reread))) (\<lambda>decoded.
          if decoded \<noteq> record then io_fail StorePublishVerificationMismatch
          else io_bind (io_from StoreIo (sync_file S target)) (\<lambda>_. io_return record)))))))"

text \<open>The shared state of the allocator is changed under its lock, also when the call fails.\<close>

definition alloc_extend ::
  "'s storage_io \<Rightarrow> digest_lib \<Rightarrow> u64 \<Rightarrow> (allocator_state \<times> 's, store_error, unit) io" where
  "alloc_extend S L reservation_span = (\<lambda>(state, s).
     if as_next state > as_reserved_through state then
       (case checked_add (as_reserved_through state) reservation_span of
          None \<Rightarrow> (Inl ContainerGenerationExhausted, (state, s))
        | Some reserved_through \<Rightarrow>
            (case alloc_publish_successor S L (as_selected state) reserved_through s of
               (Inl e, s') \<Rightarrow> (Inl e, (state, s'))
             | (Inr record, s') \<Rightarrow>
                 (Inr (), (state\<lparr>as_selected := Some record, as_reserved_through := reserved_through\<rparr>, s'))))
     else (Inr (), (state, s)))"

definition alloc_reserve_generation ::
  "'s storage_io \<Rightarrow> digest_lib \<Rightarrow> u64 \<Rightarrow> (allocator_state \<times> 's, store_error, u64) io" where
  "alloc_reserve_generation S L reservation_span =
     io_bind (alloc_extend S L reservation_span) (\<lambda>_ (state, s).
       let generation = as_next state
       in case checked_add generation 1 of
            None \<Rightarrow> (Inl ContainerGenerationExhausted, (state, s))
          | Some next \<Rightarrow> (Inr generation, (state\<lparr>as_next := next\<rparr>, s)))"

definition alloc_empty_peer ::
  "'s storage_io \<Rightarrow> digest_lib \<Rightarrow> string \<Rightarrow> u64 option \<Rightarrow> ('s, store_error, u64 option) io" where
  "alloc_empty_peer S L name observed_generation =
     io_bind (alloc_read_slot S L name) (\<lambda>slot.
       if slot = None then
         if observed_generation \<noteq> None then io_fail ContainerGenerationHighWaterMissing else io_return None
       else io_fail ContainerGenerationHighWaterChain)"

definition audit_generation_high_water ::
  "'s storage_io \<Rightarrow> digest_lib \<Rightarrow> u64 option \<Rightarrow> ('s, store_error, u64 option) io" where
  "audit_generation_high_water S L observed_generation =
     io_bind (io_from StoreIo (exists_name S CONTAINER_GENERATION_HIGH_WATER_SLOT_0)) (\<lambda>first_exists.
     io_bind (io_from StoreIo (exists_name S CONTAINER_GENERATION_HIGH_WATER_SLOT_1)) (\<lambda>second_exists.
     if \<not> first_exists \<and> \<not> second_exists then
       if observed_generation \<noteq> None then io_fail ContainerGenerationHighWaterMissing else io_return None
     else if first_exists \<and> \<not> second_exists then
       alloc_empty_peer S L CONTAINER_GENERATION_HIGH_WATER_SLOT_0 observed_generation
     else if \<not> first_exists \<and> second_exists then
       alloc_empty_peer S L CONTAINER_GENERATION_HIGH_WATER_SLOT_1 observed_generation
     else
       io_bind (alloc_load_selected S L) (\<lambda>selected.
       case selected of
         None \<Rightarrow> io_return None
       | Some slot \<Rightarrow>
           let reserved_through = hw_reserved_through (ds_record slot)
           in case observed_generation of
                Some observed \<Rightarrow>
                  if observed > reserved_through
                  then io_fail (ContainerGenerationHighWaterBehind reserved_through observed)
                  else io_return (Some reserved_through)
              | None \<Rightarrow> io_return (Some reserved_through))))"

section \<open>What the files hold\<close>

definition alloc_follows :: "digest_lib \<Rightarrow> high_water_record \<Rightarrow> high_water_record \<Rightarrow> bool" where
  "alloc_follows L p r \<longleftrightarrow>
     valid_high_water p \<and> valid_high_water r \<and>
     checked_add (hw_sequence p) 1 = Some (hw_sequence r) \<and>
     hw_previous_record_hash r = HighWaterHash_of L (HighWaterRecord_encode L p) \<and>
     hw_reserved_through p \<le> hw_reserved_through r"

definition alloc_reserved :: "high_water_record option \<Rightarrow> u64" where
  "alloc_reserved selected = (case selected of None \<Rightarrow> 0 | Some r \<Rightarrow> hw_reserved_through r)"

definition alloc_target :: "high_water_record option \<Rightarrow> string" where
  "alloc_target selected =
     (case selected of None \<Rightarrow> CONTAINER_GENERATION_HIGH_WATER_SLOT_0
      | Some p \<Rightarrow> if hw_sequence p mod 2 = 1 then CONTAINER_GENERATION_HIGH_WATER_SLOT_1
                  else CONTAINER_GENERATION_HIGH_WATER_SLOT_0)"

definition alloc_keeper :: "high_water_record option \<Rightarrow> string" where
  "alloc_keeper selected =
     (case selected of None \<Rightarrow> CONTAINER_GENERATION_HIGH_WATER_SLOT_1 | Some p \<Rightarrow> alloc_slot_of (hw_sequence p))"

definition alloc_kept :: "digest_lib \<Rightarrow> high_water_record option \<Rightarrow> bytes" where
  "alloc_kept L selected = (case selected of None \<Rightarrow> [] | Some p \<Rightarrow> HighWaterRecord_encode L p)"

definition alloc_peer :: "digest_lib \<Rightarrow> high_water_record option \<Rightarrow> high_water_record option \<Rightarrow> bool" where
  "alloc_peer L selected peer \<longleftrightarrow>
     (\<forall>r. peer = Some r \<longrightarrow> valid_high_water r \<and>
        (case selected of
           None \<Rightarrow> hw_sequence r = 1
         | Some p \<Rightarrow> alloc_follows L r p \<or> alloc_follows L p r))"

definition alloc_other :: "digest_lib \<Rightarrow> high_water_record option \<Rightarrow> bytes set" where
  "alloc_other L selected = {alloc_kept L peer | peer. alloc_peer L selected peer}"

definition alloc_files :: "digest_lib \<Rightarrow> high_water_record option \<Rightarrow> (string \<Rightarrow> vfile option) \<Rightarrow> bool" where
  "alloc_files L selected V \<longleftrightarrow>
     (\<forall>p. selected = Some p \<longrightarrow> valid_high_water p) \<and>
     V (alloc_keeper selected) = Some (synced_file (alloc_kept L selected)) \<and>
     (\<exists>v. V (alloc_target selected) = Some v \<and> v_linked v \<and>
        v_live v \<in> alloc_other L selected \<and> v_synced v \<in> alloc_other L selected)"

text \<open>The files after a restart, and what is selected from them.\<close>

definition alloc_settled ::
  "digest_lib \<Rightarrow> high_water_record option \<Rightarrow> high_water_record option \<Rightarrow> (string \<Rightarrow> vfile option) \<Rightarrow> bool" where
  "alloc_settled L selected peer V \<longleftrightarrow>
     (\<forall>p. selected = Some p \<longrightarrow> valid_high_water p) \<and> alloc_peer L selected peer \<and>
     V (alloc_keeper selected) = Some (synced_file (alloc_kept L selected)) \<and>
     V (alloc_target selected) = Some (synced_file (alloc_kept L peer))"

definition alloc_slot :: "digest_lib \<Rightarrow> high_water_record option \<Rightarrow> decoded_slot option" where
  "alloc_slot L = map_option (\<lambda>r. \<lparr>ds_record = r, ds_hash = HighWaterHash_of L (HighWaterRecord_encode L r)\<rparr>)"

definition alloc_choice :: "high_water_record option \<Rightarrow> high_water_record option \<Rightarrow> high_water_record option" where
  "alloc_choice selected peer =
     (case (selected, peer) of
        (None, _) \<Rightarrow> peer
      | (_, None) \<Rightarrow> selected
      | (Some p, Some r) \<Rightarrow> if hw_sequence p < hw_sequence r then peer else selected)"

definition alloc_stuck :: "high_water_record option \<Rightarrow> high_water_record option \<Rightarrow> bool" where
  "alloc_stuck selected peer \<longleftrightarrow> peer = None \<and> (\<exists>p. selected = Some p \<and> hw_sequence p \<noteq> 1)"

section \<open>Lemmas: records and slots\<close>

lemma sequence_parity:
  assumes "checked_add (q :: u64) 1 = Some q'"
  shows "q' mod 2 = 1 \<longleftrightarrow> q mod 2 \<noteq> 1"
proof -
  have odd_iff: "w mod 2 = 1 \<longleftrightarrow> unat w mod 2 = 1" for w :: u64
    by (simp add: word_unat_eq_iff unat_mod)
  have "unat q' = unat q + 1" using checked_add_unat [OF assms] by simp
  then show ?thesis unfolding odd_iff by presburger
qed

lemma alloc_names [simp]: "alloc_target selected \<noteq> alloc_keeper selected" "alloc_keeper selected \<noteq> alloc_target selected"
  by (auto simp: alloc_target_def alloc_keeper_def alloc_slot_of_def split: option.splits)

lemma alloc_follows_target:
  assumes "alloc_follows L p r"
  shows "alloc_slot_of (hw_sequence r) = alloc_target (Some p)" and "alloc_target (Some r) = alloc_keeper (Some p)"
  using sequence_parity [of "hw_sequence p" "hw_sequence r"] assms
  by (auto simp: alloc_follows_def alloc_slot_of_def alloc_target_def alloc_keeper_def)

lemma alloc_kept_simps [simp]: "alloc_kept L None = []" "alloc_kept L (Some r) = HighWaterRecord_encode L r"
  by (simp_all add: alloc_kept_def)

lemma alloc_other_Nil [simp]: "[] \<in> alloc_other L selected"
  by (auto simp: alloc_other_def alloc_peer_def intro!: exI [of _ None])

lemma alloc_otherI: "alloc_peer L selected peer \<Longrightarrow> alloc_kept L peer \<in> alloc_other L selected"
  by (auto simp: alloc_other_def)

lemma HighWaterRecord_new_fields:
  "HighWaterRecord_new seq prev rt = Inr r \<Longrightarrow>
     hw_sequence r = seq \<and> hw_previous_record_hash r = prev \<and> hw_reserved_through r = rt"
  by (auto simp: HighWaterRecord_new_def split: if_splits)

lemma alloc_successor_follows:
  assumes "digest_laws L" and succ: "alloc_successor L selected rt = Inr r"
    and valid: "\<forall>p. selected = Some p \<longrightarrow> valid_high_water p" and rt: "alloc_reserved selected \<le> rt"
  shows "valid_high_water r" and "hw_reserved_through r = rt"
    and "alloc_slot_of (hw_sequence r) = alloc_target selected"
    and "HighWaterRecord_encode L r \<in> alloc_other L selected"
    and "alloc_keeper (Some r) = alloc_target selected" and "alloc_target (Some r) = alloc_keeper selected"
    and "alloc_kept L selected \<in> alloc_other L (Some r)"
proof -
  show r: "valid_high_water r" "hw_reserved_through r = rt"
    using succ digest_laws.length_blake3 [OF assms(1)]
    by (auto simp: alloc_successor_def HighWaterRecord_new_def valid_high_water_def HighWaterHash_of_def
        HighWaterHash_ZERO_def split: option.splits if_splits)
  have "selected = None \<and> hw_sequence r = 1 \<or> (\<exists>p. selected = Some p \<and> alloc_follows L p r)"
    using succ r valid rt
    by (auto simp: alloc_successor_def alloc_follows_def alloc_reserved_def
        dest!: HighWaterRecord_new_fields split: option.splits)
  then consider (first) "selected = None" "hw_sequence r = 1" | (next_one) p where "selected = Some p" "alloc_follows L p r"
    by blast
  then have "alloc_slot_of (hw_sequence r) = alloc_target selected \<and> alloc_target (Some r) = alloc_keeper selected \<and>
      alloc_peer L selected (Some r) \<and> alloc_peer L (Some r) selected"
  proof cases
    case first
    then show ?thesis using r(1) by (simp add: alloc_slot_of_def alloc_target_def alloc_keeper_def alloc_peer_def)
  next
    case next_one
    then show ?thesis using r(1) valid alloc_follows_target [OF next_one(2)] by (simp add: alloc_peer_def)
  qed
  then show "alloc_slot_of (hw_sequence r) = alloc_target selected"
    and "alloc_keeper (Some r) = alloc_target selected" and "alloc_target (Some r) = alloc_keeper selected"
    and "HighWaterRecord_encode L r \<in> alloc_other L selected" and "alloc_kept L selected \<in> alloc_other L (Some r)"
    using alloc_otherI [of L selected "Some r"] alloc_otherI [of L "Some r" selected]
    by (simp_all add: alloc_keeper_def)
qed

lemma alloc_follows_less: "alloc_follows L p r \<Longrightarrow> hw_sequence p < hw_sequence r"
  using checked_add_unat [of "hw_sequence p" 1 "hw_sequence r"] by (auto simp: alloc_follows_def word_less_nat_alt)

lemma alloc_follows_saturating:
  "alloc_follows L p r \<Longrightarrow> saturating_add (hw_sequence p) 1 = hw_sequence r"
  by (auto simp: alloc_follows_def saturating_add_def checked_add_def split: if_splits)

lemma alloc_peer_Some:
  assumes "alloc_peer L (Some p) (Some r)"
  shows "if hw_sequence p < hw_sequence r then alloc_follows L p r else hw_sequence r < hw_sequence p \<and> alloc_follows L r p"
  using assms alloc_follows_less [of L p r] alloc_follows_less [of L r p]
  by (auto simp: alloc_peer_def dest: order.asym)

lemma alloc_select_commute:
  assumes "first = None \<or> second = None \<or> hw_sequence (ds_record (the first)) \<noteq> hw_sequence (ds_record (the second))"
  shows "alloc_select second first = alloc_select first second"
  using assms by (cases first; cases second) (auto simp: alloc_select_def Let_def)

text \<open>The selection from two slots that hold a record and its peer, in either order.\<close>

lemma alloc_select_peer:
  assumes "\<forall>p. selected = Some p \<longrightarrow> valid_high_water p" and peer: "alloc_peer L selected peer"
  shows "alloc_select (alloc_slot L selected) (alloc_slot L peer) =
      (if alloc_stuck selected peer then Inl ContainerGenerationHighWaterChain
       else Inr (alloc_slot L (alloc_choice selected peer)))"
    and "alloc_select (alloc_slot L peer) (alloc_slot L selected) =
      (if alloc_stuck selected peer then Inl ContainerGenerationHighWaterChain
       else Inr (alloc_slot L (alloc_choice selected peer)))"
proof -
  show *: "alloc_select (alloc_slot L selected) (alloc_slot L peer) =
      (if alloc_stuck selected peer then Inl ContainerGenerationHighWaterChain
       else Inr (alloc_slot L (alloc_choice selected peer)))"
  proof (cases selected)
    case None
    then show ?thesis
      using peer by (cases peer) (simp_all add: alloc_select_def alloc_slot_def alloc_stuck_def alloc_choice_def alloc_peer_def)
  next
    case (Some p)
    show ?thesis
    proof (cases peer)
      case None
      with Some show ?thesis by (simp add: alloc_select_def alloc_slot_def alloc_stuck_def alloc_choice_def)
    next
      case (Some r)
      with \<open>selected = Some p\<close> peer consider "alloc_follows L r p" | "alloc_follows L p r"
        by (auto simp: alloc_peer_def)
      then show ?thesis
      proof cases
        case 1
        with Some \<open>selected = Some p\<close> alloc_follows_less [OF 1] alloc_follows_saturating [OF 1] show ?thesis
          by (auto simp: alloc_select_def alloc_slot_def alloc_stuck_def alloc_choice_def alloc_follows_def Let_def)
      next
        case 2
        with Some \<open>selected = Some p\<close> alloc_follows_less [OF 2] alloc_follows_saturating [OF 2] show ?thesis
          by (auto simp: alloc_select_def alloc_slot_def alloc_stuck_def alloc_choice_def alloc_follows_def Let_def)
      qed
    qed
  qed
  have "hw_sequence p \<noteq> hw_sequence r" if "selected = Some p" "peer = Some r" for p r
    using alloc_peer_Some [of L p r] peer that by (auto split: if_splits)
  then have "alloc_select (alloc_slot L peer) (alloc_slot L selected) = alloc_select (alloc_slot L selected) (alloc_slot L peer)"
    by (intro alloc_select_commute) (cases selected; cases peer; simp add: alloc_slot_def)
  with * show "alloc_select (alloc_slot L peer) (alloc_slot L selected) =
      (if alloc_stuck selected peer then Inl ContainerGenerationHighWaterChain
       else Inr (alloc_slot L (alloc_choice selected peer)))"
    by simp
qed

lemma alloc_choice_reserved:
  "alloc_peer L selected peer \<Longrightarrow> alloc_reserved selected \<le> alloc_reserved (alloc_choice selected peer)"
  by (cases selected; cases peer)
    (auto simp: alloc_choice_def alloc_reserved_def alloc_follows_def dest!: alloc_peer_Some split: if_splits)

lemma alloc_choice_files:
  assumes "alloc_settled L selected peer V"
  shows "alloc_files L (alloc_choice selected peer) V"
proof (cases "alloc_choice selected peer = selected")
  case True
  with assms show ?thesis
    by (auto simp: alloc_files_def alloc_settled_def synced_file_def intro: alloc_otherI)
next
  case False
  then obtain r where r: "peer = Some r" "alloc_choice selected peer = Some r"
    "selected = None \<or> (\<exists>p. selected = Some p \<and> hw_sequence p < hw_sequence r)"
    by (auto simp: alloc_choice_def split: option.splits if_splits)
  have peer: "alloc_peer L selected (Some r)" using assms r(1) by (simp add: alloc_settled_def)
  have "selected = None \<and> hw_sequence r = 1 \<or> (\<exists>p. selected = Some p \<and> alloc_follows L p r)"
  proof (cases selected)
    case None
    with peer show ?thesis by (simp add: alloc_peer_def)
  next
    case (Some p)
    with alloc_peer_Some [of L p r] peer r(3) show ?thesis by simp
  qed
  then consider (first) "selected = None" "hw_sequence r = 1" | (next_one) p where "selected = Some p" "alloc_follows L p r"
    by blast
  then have "alloc_slot_of (hw_sequence r) = alloc_target selected \<and> alloc_target (Some r) = alloc_keeper selected \<and>
      alloc_peer L (Some r) selected"
  proof cases
    case first
    then show ?thesis by (simp add: alloc_slot_of_def alloc_target_def alloc_keeper_def alloc_peer_def)
  next
    case next_one
    then show ?thesis using assms alloc_follows_target [OF next_one(2)] by (simp add: alloc_peer_def alloc_settled_def)
  qed
  then show ?thesis
    using assms r alloc_otherI [of L "Some r" selected]
    by (auto simp: alloc_files_def alloc_settled_def alloc_peer_def alloc_keeper_def synced_file_def)
qed

section \<open>Lemmas: the operations on a storage\<close>

lemma triple_io_from_any: "(\<And>e. E (g e)) \<Longrightarrow> triple (\<lambda>_. True) (io_from g m) (\<lambda>_ _. True) (\<lambda>e _. E e)"
  by (rule triple_from) (simp add: triple_def split: prod.split sum.split)

lemma triple_io_result_any: "(\<And>e. r = Inl e \<Longrightarrow> E e) \<Longrightarrow> triple (\<lambda>_. True) (io_result r) (\<lambda>_ _. True) (\<lambda>e _. E e)"
  by (cases r) (auto intro!: triple_return triple_fail)

lemma alloc_read_slot_errors:
  "triple (\<lambda>_. True) (alloc_read_slot S L n) (\<lambda>_ _. True) (\<lambda>e _. e \<noteq> ContainerGenerationHighWaterBehind r x)"
  unfolding alloc_read_slot_def
  by (intro triple_bind [where R = "\<lambda>_ _. True"] triple_io_from_any triple_io_result_any triple_if triple_return triple_fail)
    (auto simp: map_err_def split: sum.splits)

lemma alloc_load_selected_errors:
  "triple (\<lambda>_. True) (alloc_load_selected S L) (\<lambda>_ _. True) (\<lambda>e _. e \<noteq> ContainerGenerationHighWaterBehind r x)"
  unfolding alloc_load_selected_def
  by (intro triple_bind [where R = "\<lambda>_ _. True"] alloc_read_slot_errors triple_io_result_any)
    (auto simp: alloc_select_def Let_def split: option.splits if_splits)

context storage_laws
begin

lemma alloc_read_slot_holds:
  assumes laws: "digest_laws L" and V: "V n = Some v" "v_live v = alloc_kept L ro"
    and valid: "\<forall>r. ro = Some r \<longrightarrow> valid_high_water r"
  shows "triple (holds h V) (alloc_read_slot S L n) (\<lambda>x s. x = alloc_slot L ro \<and> holds h V s)
    (\<lambda>e s. \<not> h \<and> holds False V s)"
proof -
  let ?E = "\<lambda>(e :: store_error) s. \<not> h \<and> holds False V s"
  have len: "length (v_live v) = (if ro = None then 0 else 4096)" using V(2) by (cases ro) simp_all
  have object: "triple (holds h V) (io_from StoreIo (object_len S n))
      (\<lambda>l s. unat l = length (v_live v) \<and> holds h V s) ?E"
    by (rule triple_from, rule triple_weaken [OF object_len_holds [of V n v h, OF V(1)]]) (auto simp: len)
  show ?thesis
    unfolding alloc_read_slot_def
  proof (rule triple_bind [OF object], rule triple_pre)
    fix l s assume "unat l = length (v_live v) \<and> holds h V s"
    then show "unat l = length (v_live v)" by simp
  next
    fix l :: u64 assume l: "unat l = length (v_live v)"
    show "triple (\<lambda>s. unat l = length (v_live v) \<and> holds h V s)
       (if l = 0 then io_return None
        else if unat l \<noteq> HW_RECORD_BYTES then io_fail (ContainerGenerationHighWaterFormat (InvalidLength (unat l)))
        else io_bind (io_from StoreIo (read_exact_at S n 0 HW_RECORD_BYTES)) (\<lambda>bytes.
          io_bind (io_result (map_err ContainerGenerationHighWaterFormat (HighWaterRecord_decode L bytes)))
            (\<lambda>record. io_return (Some \<lparr>ds_record = record, ds_hash = HighWaterHash_of L bytes\<rparr>))))
       (\<lambda>x s. x = alloc_slot L ro \<and> holds h V s) ?E"
    proof (cases ro)
      case None
      then have "l = 0" using l len by (simp add: unat_eq_0)
      with None show ?thesis by (auto intro!: triple_return simp: alloc_slot_def)
    next
      case (Some r)
      then have "unat l = 4096" "l \<noteq> 0" using l len by auto
      have read: "triple (holds h V) (io_from StoreIo (read_exact_at S n 0 4096))
          (\<lambda>bs s. bs = HighWaterRecord_encode L r \<and> holds h V s) ?E"
        using read_exact_at_holds [of V n v 0 4096 h, OF V(1)] V(2) Some
        by (intro triple_from) (simp add: slice_def)
      show ?thesis
        using Some \<open>unat l = 4096\<close> \<open>l \<noteq> 0\<close> len valid
        by (auto simp: high_water_decode_encode [OF laws] alloc_slot_def intro!: triple_bind_eq [OF read] triple_return)
    qed
  qed
qed

lemma alloc_load_selected_holds:
  assumes laws: "digest_laws L" and set: "alloc_settled L selected peer V"
  shows "triple (holds h V) (alloc_load_selected S L)
    (\<lambda>x s. \<not> alloc_stuck selected peer \<and> x = alloc_slot L (alloc_choice selected peer) \<and> holds h V s)
    (\<lambda>e s. \<not> h \<and> holds False V s \<or> alloc_stuck selected peer \<and> e = ContainerGenerationHighWaterChain \<and> holds h V s)"
proof -
  let ?E = "\<lambda>e s. \<not> h \<and> holds False V s \<or> alloc_stuck selected peer \<and> e = ContainerGenerationHighWaterChain \<and> holds h V s"
  have valid: "\<forall>p. selected = Some p \<longrightarrow> valid_high_water p" and peer: "alloc_peer L selected peer"
    and V: "V (alloc_keeper selected) = Some (synced_file (alloc_kept L selected))"
      "V (alloc_target selected) = Some (synced_file (alloc_kept L peer))"
    using set by (auto simp: alloc_settled_def)
  have valid': "\<forall>r. peer = Some r \<longrightarrow> valid_high_water r" using peer by (auto simp: alloc_peer_def)
  have read: "triple (holds h V) (alloc_read_slot S L n) (\<lambda>x s. x = alloc_slot L ro \<and> holds h V s) ?E"
    if "V n = Some (synced_file (alloc_kept L ro))" "\<forall>r. ro = Some r \<longrightarrow> valid_high_water r" for n ro
    by (rule triple_weaken [OF alloc_read_slot_holds [of L V n _ ro h, OF laws that(1) _ that(2)]])
      (auto simp: synced_file_def)
  note reads = read [OF V(1) valid] read [OF V(2) valid']
  have finish: "triple (holds h V) (io_result (alloc_select x y))
      (\<lambda>x s. \<not> alloc_stuck selected peer \<and> x = alloc_slot L (alloc_choice selected peer) \<and> holds h V s) ?E"
    if "x = alloc_slot L selected \<and> y = alloc_slot L peer \<or> x = alloc_slot L peer \<and> y = alloc_slot L selected" for x y
    using that alloc_select_peer [OF valid peer] by (auto intro!: triple_return triple_fail split: if_splits)
  have "alloc_keeper selected = CONTAINER_GENERATION_HIGH_WATER_SLOT_0 \<and> alloc_target selected = CONTAINER_GENERATION_HIGH_WATER_SLOT_1 \<or>
      alloc_keeper selected = CONTAINER_GENERATION_HIGH_WATER_SLOT_1 \<and> alloc_target selected = CONTAINER_GENERATION_HIGH_WATER_SLOT_0"
    by (auto simp: alloc_keeper_def alloc_target_def alloc_slot_of_def split: option.splits)
  then show ?thesis
    unfolding alloc_load_selected_def
  proof (elim disjE conjE, goal_cases)
    case 1
    show ?case
      by (rule triple_bind_eq [where v = "alloc_slot L selected" and R = "holds h V"], use reads(1) 1 in simp,
          rule triple_bind_eq [where v = "alloc_slot L peer" and R = "holds h V"], use reads(2) 1 in simp,
          rule finish) simp
  next
    case 2
    show ?case
      by (rule triple_bind_eq [where v = "alloc_slot L peer" and R = "holds h V"], use reads(2) 2 in simp,
          rule triple_bind_eq [where v = "alloc_slot L selected" and R = "holds h V"], use reads(1) 2 in simp,
          rule finish) simp
  qed
qed

lemma alloc_publish_stage:
  assumes laws: "digest_laws L" and succ: "alloc_successor L selected rt = Inr r" and valid: "valid_high_water r"
    and n: "alloc_slot_of (hw_sequence r) = n" and T: "x \<in> T" "[] \<in> T" "HighWaterRecord_encode L r \<in> T"
  shows "triple (stage h n T F x) (alloc_publish_successor S L selected rt)
    (\<lambda>r' s. r' = r \<and> stage h n {HighWaterRecord_encode L r} F (HighWaterRecord_encode L r) s)
    (\<lambda>e s. \<not> h \<and> within n T F s)"
proof -
  define e where "e = HighWaterRecord_encode L r"
  have e: "length e = 4096" "HighWaterRecord_decode L e = Inr r"
    by (simp_all add: e_def high_water_decode_encode [OF laws valid])
  have prog: "alloc_publish_successor S L selected rt =
      io_bind (io_from StoreIo (set_len S n 0)) (\<lambda>_.
      io_bind (io_from StoreIo (write_at S n 0 e)) (\<lambda>_.
      io_bind (io_from StoreIo (set_len S n (of_nat 4096))) (\<lambda>_.
      io_bind (io_from StoreIo (read_exact_at S n 0 4096)) (\<lambda>reread.
      if reread \<noteq> e then io_fail StorePublishVerificationMismatch
      else io_bind (io_result (map_err ContainerGenerationHighWaterFormat (HighWaterRecord_decode L reread))) (\<lambda>decoded.
        if decoded \<noteq> r then io_fail StorePublishVerificationMismatch
        else io_bind (io_from StoreIo (sync_file S n)) (\<lambda>_. io_return r))))))"
    by (simp add: alloc_publish_successor_def succ n Let_def e_def cong: if_cong)
  show ?thesis
    unfolding prog e_def [symmetric]
    using T e resize_id [of e] overwrite_end [of "[]" e]
    by (intro set_len_then [where y = "[]"] write_at_then [of "[]" 0 e e] set_len_then [where y = e]
        read_exact_at_then [where bs = e])
      (simp_all add: slice_def sync_file_last e_def [symmetric])
qed

lemma alloc_publish_outcome:
  assumes laws: "digest_laws L" and s: "inv s" "h \<longrightarrow> healthy s" and files: "alloc_files L selected (view s)"
    and rt: "alloc_reserved selected \<le> rt"
    and run: "alloc_publish_successor S L selected rt s = (res, s')"
  shows "inv s' \<and> (case res of
      Inr r \<Rightarrow> hw_reserved_through r = rt \<and> alloc_files L (Some r) (view s')
    | Inl e \<Rightarrow> alloc_files L selected (view s') \<and> (h \<longrightarrow> alloc_successor L selected rt = Inl e))"
proof (cases "alloc_successor L selected rt")
  case (Inl e)
  then have "res = Inl e" "s' = s" using run by (simp_all add: alloc_publish_successor_def io_fail_def)
  with s files Inl show ?thesis by simp
next
  case (Inr r)
  let ?n = "alloc_target selected" and ?T = "alloc_other L selected" and ?e = "HighWaterRecord_encode L r"
  have valid: "\<forall>p. selected = Some p \<longrightarrow> valid_high_water p"
    and keep: "view s (alloc_keeper selected) = Some (synced_file (alloc_kept L selected))"
    using files by (auto simp: alloc_files_def)
  note succ = alloc_successor_follows [OF laws Inr valid rt]
  obtain v where v: "view s ?n = Some v" "v_linked v" "v_live v \<in> ?T" "v_synced v \<in> ?T"
    using files by (auto simp: alloc_files_def)
  then have st: "stage h ?n ?T (view s) (v_live v) s" using s by (simp add: stage_def)
  note t = alloc_publish_stage [OF laws Inr succ(1,3) v(3) alloc_other_Nil succ(4), where h = h and F = "view s"]
  show ?thesis
  proof (cases res)
    case (Inr r')
    with triple_Inr [OF t st] run have r': "r' = r" and st': "stage h ?n {?e} (view s) ?e s'" by simp_all
    have "view s' (alloc_keeper selected) = Some (synced_file (alloc_kept L selected))"
      using st' keep by (simp add: stage_def)
    then have "alloc_files L (Some r) (view s')"
      using stage_synced_file [OF st'] succ by (simp add: alloc_files_def synced_file_def)
    with Inr r' succ(2) st' show ?thesis by (simp add: stage_def)
  next
    case (Inl e)
    with triple_Inl [OF t st] run have "\<not> h" "within ?n ?T (view s) s'" by simp_all
    then show ?thesis
      using Inl files by (auto simp: alloc_files_def within_def stage_def)
  qed
qed

lemma alloc_ensure_created:
  assumes "distinct names"
  shows "triple (holds False V) (alloc_ensure_slots S names) (\<lambda>_. holds False (created_slots names V)) (\<lambda>e s. inv s)"
  using assms
proof (induction names arbitrary: V)
  case Nil
  show ?case unfolding alloc_ensure_slots.simps by (rule triple_from) (rule sync_root_created)
next
  case (Cons name names)
  note rest = Cons.IH [OF Cons.prems [simplified, THEN conjunct2]]
  show ?case
  proof (cases "V name")
    case None
    with Cons.prems have "triple (fresh_slot name V) (alloc_ensure_slots S names)
        (\<lambda>_. holds False (created_slots (name # names) V)) (\<lambda>e s. inv s)"
      by (intro fresh_slot_rest rest) simp_all
    note made = triple_then [OF create_new_fresh [of V name, OF None] triple_then [OF sync_file_fresh this]]
    show ?thesis
      unfolding alloc_ensure_slots.simps
      by (rule triple_then [OF exists_name_decides]) (use made None in simp)
  next
    case (Some v)
    show ?thesis
      unfolding alloc_ensure_slots.simps
      by (rule triple_then [OF exists_name_decides]) (use rest [of V] Some in \<open>simp add: created_slots_present\<close>)
  qed
qed

lemma alloc_files_restart:
  assumes "inv s" and "alloc_files L selected (view s)"
  obtains peer where "alloc_settled L selected peer (view (restart s))"
proof -
  obtain v where v: "view s (alloc_target selected) = Some v" "v_linked v" "v_synced v \<in> alloc_other L selected"
    using assms(2) by (auto simp: alloc_files_def)
  then obtain peer where "v_synced v = alloc_kept L peer" "alloc_peer L selected peer"
    by (auto simp: alloc_other_def)
  then show thesis
    using that [of peer] assms v restart_synced [OF assms(1) v(1,2)] restart_synced_file [OF assms(1)]
    by (simp add: alloc_settled_def alloc_files_def)
qed

lemma alloc_settled_linked:
  "alloc_settled L selected peer V \<Longrightarrow>
   alloc_settled L selected peer (created_slots [CONTAINER_GENERATION_HIGH_WATER_SLOT_0, CONTAINER_GENERATION_HIGH_WATER_SLOT_1] V)"
  by (auto simp: alloc_settled_def created_slots_def synced_file_def)

lemma published_count_keeps:
  "triple (holds False V) (published_container_count S) (\<lambda>_. holds False V) (\<lambda>e s. inv s)"
proof -
  have names: "triple (holds False V) (io_from StoreIo (list_names S)) (\<lambda>_. holds False V) (\<lambda>e s. inv s)"
    by (rule triple_from, rule triple_weaken [OF list_names_holds]) (auto simp: holds_def)
  have "triple (holds False V) (io_result (count_published 0 ns)) (\<lambda>_. holds False V) (\<lambda>e s. inv s)" for ns
    by (cases "count_published 0 ns") (auto intro!: triple_return triple_fail simp: holds_def)
  then show ?thesis
    unfolding published_container_count_def by (rule triple_bind [OF names])
qed

text \<open>What is known of a state that was opened on files that hold \<open>selected\<close>.\<close>

definition alloc_opened where
  "alloc_opened L selected st s \<longleftrightarrow>
     inv s \<and> alloc_files L (as_selected st) (view s) \<and>
     as_reserved_through st = alloc_reserved (as_selected st) \<and>
     unat (as_next st) = unat (as_reserved_through st) + 1 \<and>
     alloc_reserved selected \<le> as_reserved_through st"

lemma alloc_open_files:
  assumes laws: "digest_laws L"
    and set: "alloc_settled L selected peer
      (created_slots [CONTAINER_GENERATION_HIGH_WATER_SLOT_0, CONTAINER_GENERATION_HIGH_WATER_SLOT_1] V)"
  shows "triple (holds False V) (alloc_open S L span None) (\<lambda>st s. span \<noteq> 0 \<and> alloc_opened L selected st s) (\<lambda>e s. inv s)"
proof -
  let ?names = "[CONTAINER_GENERATION_HIGH_WATER_SLOT_0, CONTAINER_GENERATION_HIGH_WATER_SLOT_1]"
  let ?V = "created_slots ?names V" and ?choice = "alloc_choice selected peer"
  have exists: "triple (holds False W) (io_from StoreIo (exists_name S n)) (\<lambda>_. holds False W) (\<lambda>e s. inv s)" for W n
    by (rule triple_from, rule triple_weaken [OF exists_name_decides]) auto
  have count: "triple (holds False W) (if c then published_container_count S else io_return 0)
      (\<lambda>_. holds False W) (\<lambda>e s. inv s)" for W c
    by (rule triple_if) (auto intro: published_count_keeps triple_return)
  have ensure: "triple (holds False V) (alloc_ensure_slots S ?names) (\<lambda>_. holds False ?V) (\<lambda>e s. inv s)"
    by (rule alloc_ensure_created) simp
  have load: "triple (holds False ?V) (alloc_load_selected S L)
      (\<lambda>x s. x = alloc_slot L ?choice \<and> holds False ?V s) (\<lambda>e s. inv s)"
    by (rule triple_weaken [OF alloc_load_selected_holds [OF laws set, of False]]) (auto simp: holds_def)
  have choice: "alloc_files L ?choice ?V" "alloc_reserved selected \<le> alloc_reserved ?choice"
    using alloc_choice_files [OF set] alloc_choice_reserved set by (auto simp: alloc_settled_def)
  have sel: "map_option ds_record (alloc_slot L ?choice) = ?choice"
    by (cases ?choice) (simp_all add: alloc_slot_def)
  have finish: "triple (holds False ?V)
      (io_bind (io_result (ok_or (checked_add (alloc_reserved ?choice) 1) ContainerGenerationExhausted)) (\<lambda>next.
         io_return \<lparr>as_selected = ?choice, as_next = next, as_reserved_through = alloc_reserved ?choice\<rparr>))
      (\<lambda>st s. alloc_opened L selected st s) (\<lambda>e s. inv s)"
  proof (cases "checked_add (alloc_reserved ?choice) 1")
    case None
    then show ?thesis by (auto intro!: triple_fail simp: holds_def ok_or_def)
  next
    case (Some m)
    with choice checked_add_unat [OF Some] show ?thesis
      by (auto intro!: triple_return simp: holds_def ok_or_def alloc_opened_def)
  qed
  show ?thesis
  proof (cases "span = 0")
    case True
    then show ?thesis by (auto intro!: triple_fail simp: alloc_open_def holds_def)
  next
    case False
    have rest: "triple (holds False ?V)
        (io_bind (alloc_load_selected S L) (\<lambda>selected.
         io_bind (if selected = None then published_container_count S else io_return 0) (\<lambda>count.
         if selected = None \<and> count \<noteq> 0 then io_fail ContainerGenerationHighWaterMissing
         else
           let selected = map_option ds_record selected;
               reserved_through = (case selected of None \<Rightarrow> 0 | Some record \<Rightarrow> hw_reserved_through record)
           in io_bind (io_result (ok_or (checked_add reserved_through 1) ContainerGenerationExhausted)) (\<lambda>next.
              io_return \<lparr>as_selected = selected, as_next = next, as_reserved_through = reserved_through\<rparr>))))
        (\<lambda>st s. alloc_opened L selected st s) (\<lambda>e s. inv s)"
      by (rule triple_bind_eq [OF load], rule triple_bind [OF count], rule triple_if)
        (use finish in \<open>auto intro!: triple_fail simp: holds_def sel Let_def alloc_reserved_def\<close>)
    show ?thesis
      unfolding alloc_open_def option.case
      using False
      by (simp only: if_False simp_thms)
        (intro triple_bind [OF exists] triple_bind [OF count] triple_if triple_bind [OF ensure] rest,
         auto intro!: triple_fail simp: holds_def)
  qed
qed

text \<open>A selected record beyond the first one whose peer slot is empty: the allocator does not open.\<close>

lemma alloc_ensure_present:
  assumes "\<And>n. n \<in> set names \<Longrightarrow> V n \<noteq> None"
  shows "triple (holds h V) (alloc_ensure_slots S names) (\<lambda>_. holds h (created_slots names V)) (\<lambda>e s. \<not> h)"
  using assms
proof (induction names)
  case Nil
  have "created_slots [] V = (\<lambda>n. map_option (\<lambda>v. v\<lparr>v_linked := True\<rparr>) (V n))" by (simp add: created_slots_def)
  then show ?case
    unfolding alloc_ensure_slots.simps
    by (intro triple_from triple_weaken [OF sync_root_holds [of h V]]) auto
next
  case (Cons name names)
  then obtain v where v: "V name = Some v" by fastforce
  have present: "triple (holds h V) (exists_name S name) (\<lambda>b s. b = True \<and> holds h V s) (\<lambda>e s. \<not> h)"
    by (rule triple_weaken [OF exists_name_holds [of V name v h, OF v]]) auto
  have "triple (holds h V) (if True then alloc_ensure_slots S names
      else io_bind (io_from StoreIo (create_new S name)) (\<lambda>_. io_bind (io_from StoreIo (sync_file S name))
        (\<lambda>_. alloc_ensure_slots S names))) (\<lambda>_. holds h (created_slots (name # names) V)) (\<lambda>e s. \<not> h)"
    using Cons v by (simp add: created_slots_present)
  then show ?case
    unfolding alloc_ensure_slots.simps by (rule triple_then [OF present])
qed

lemma alloc_settled_present:
  assumes "alloc_settled L selected peer V"
  shows "V CONTAINER_GENERATION_HIGH_WATER_SLOT_0 \<noteq> None" and "V CONTAINER_GENERATION_HIGH_WATER_SLOT_1 \<noteq> None"
  using assms
  by (auto simp: alloc_settled_def alloc_keeper_def alloc_target_def alloc_slot_of_def split: option.splits if_splits)

lemma alloc_open_stuck:
  assumes laws: "digest_laws L" and set: "alloc_settled L selected peer V" and stuck: "alloc_stuck selected peer" and "span \<noteq> 0"
  shows "triple (holds True V) (alloc_open S L span None) (\<lambda>_ _. False) (\<lambda>e s. e = ContainerGenerationHighWaterChain)"
proof -
  let ?E = "\<lambda>e s. e = ContainerGenerationHighWaterChain"
  let ?names = "[CONTAINER_GENERATION_HIGH_WATER_SLOT_0, CONTAINER_GENERATION_HIGH_WATER_SLOT_1]"
  let ?V = "created_slots ?names V"
  obtain v w where V: "V CONTAINER_GENERATION_HIGH_WATER_SLOT_0 = Some v" "V CONTAINER_GENERATION_HIGH_WATER_SLOT_1 = Some w"
    using alloc_settled_present [OF set] by auto
  have exists: "triple (holds True V) (io_from StoreIo (exists_name S n)) (\<lambda>b s. b = True \<and> holds True V s) ?E"
    if "V n = Some u" for n u
    by (rule triple_from, rule triple_weaken [OF exists_name_holds [of V n u True, OF that]]) auto
  have ensure: "triple (holds True V) (alloc_ensure_slots S ?names) (\<lambda>_. holds True ?V) ?E"
    by (rule triple_weaken [OF alloc_ensure_present [of ?names V True]]) (use V in auto)
  have load: "triple (holds True ?V) (alloc_load_selected S L) (\<lambda>_ _. False) ?E"
    by (rule triple_weaken [OF alloc_load_selected_holds [OF laws alloc_settled_linked [OF set], of True]])
      (use stuck in auto)
  have dead: "triple (\<lambda>s. False) m Q E" for m Q E by (simp add: triple_def)
  show ?thesis
    unfolding alloc_open_def option.case
    using \<open>span \<noteq> 0\<close>
    by (simp only: if_False simp_thms)
      (rule triple_bind_eq [OF exists [OF V(1)]], rule triple_bind_eq [OF exists [OF V(2)]],
       simp only: simp_thms if_False io_simps, rule triple_bind [OF ensure], rule triple_bind [OF load], rule dead)
qed

text \<open>The audit of the durable reservation.\<close>

lemma audit_covers:
  assumes laws: "digest_laws L" and set: "alloc_settled L selected peer V" and g: "g \<le> alloc_reserved selected"
  shows "triple (holds False V) (audit_generation_high_water S L (Some g))
    (\<lambda>x s. True) (\<lambda>e s. \<forall>r x. e \<noteq> ContainerGenerationHighWaterBehind r x)"
proof -
  let ?E = "\<lambda>e s. \<forall>r x. e \<noteq> ContainerGenerationHighWaterBehind r x" and ?choice = "alloc_choice selected peer"
  obtain v w where V: "V CONTAINER_GENERATION_HIGH_WATER_SLOT_0 = Some v" "V CONTAINER_GENERATION_HIGH_WATER_SLOT_1 = Some w"
    using alloc_settled_present [OF set] by auto
  have exists: "triple (holds False V) (io_from StoreIo (exists_name S n)) (\<lambda>b s. b = True \<and> holds False V s) ?E"
    if "V n = Some u" for n u
    by (rule triple_from, rule triple_weaken [OF exists_name_holds [of V n u False, OF that]]) auto
  have load: "triple (holds False V) (alloc_load_selected S L) (\<lambda>x s. x = alloc_slot L ?choice \<and> holds False V s) ?E"
  proof (rule triple_errors [OF alloc_load_selected_holds [OF laws set, of False]])
    show "\<forall>r x. e \<noteq> ContainerGenerationHighWaterBehind r x" if "alloc_load_selected S L s = (Inl e, s')" for s e s'
      using triple_Inl [OF alloc_load_selected_errors TrueI that] by simp
  qed simp
  have "g \<le> alloc_reserved ?choice"
    using g alloc_choice_reserved set by (force simp: alloc_settled_def)
  then show ?thesis
    unfolding audit_generation_high_water_def
    by (intro triple_bind_eq [OF exists [OF V(1)]] triple_bind_eq [OF exists [OF V(2)]], simp only: simp_thms if_False)
      (rule triple_bind_eq [OF load], cases ?choice,
       auto intro!: triple_return simp: alloc_slot_def alloc_reserved_def Let_def not_less)
qed

end

end
