(* ===== verification/Generation_Allocator_History.thy ===== *)
theory Generation_Allocator_History
  imports Generation_Allocator
begin

text \<open>
  Histories of the Container generation allocator
  (\<open>crates/fastdup-store/src/container_generation_allocator.rs\<close>) on the in-memory storage: an
  allocator that is opened, hands out generations under injected faults, crashes and is opened again.

  Shown here: no generation is handed out twice, and the audit of Scrub never finds a generation
  above the durable reservation. One theorem is a defect: when the process is killed between the
  truncation of a slot and the write of the next record, the allocator can not be opened again.
\<close>

inductive alloc_run ::
  "digest_lib \<Rightarrow> u64 \<Rightarrow> (storage_state \<Rightarrow> storage_state) \<Rightarrow> u64 list \<Rightarrow> allocator_state \<Rightarrow> storage_state \<Rightarrow> bool"
  for L span restart where
  alloc_start: "alloc_open memory_storage L span None mem_new = (Inr st, s) \<Longrightarrow> alloc_run L span restart [] st s"
| alloc_reserve_ok: "alloc_run L span restart given st s \<Longrightarrow>
    alloc_reserve_generation memory_storage L span (st, s\<lparr>fail_before := fb, fail_after := fa\<rparr>) = (Inr g, (st', s')) \<Longrightarrow>
    alloc_run L span restart (given @ [g]) st' s'"
| alloc_reserve_error: "alloc_run L span restart given st s \<Longrightarrow>
    alloc_reserve_generation memory_storage L span (st, s\<lparr>fail_before := fb, fail_after := fa\<rparr>) = (Inl e, (st', s')) \<Longrightarrow>
    alloc_run L span restart given st' s'"
| alloc_reopen: "alloc_run L span restart given st s \<Longrightarrow>
    alloc_open memory_storage L span None (restart s) = (Inr st', s') \<Longrightarrow>
    alloc_run L span restart given st' s'"

definition alloc_ready ::
  "digest_lib \<Rightarrow> u64 \<Rightarrow> (storage_state \<Rightarrow> string \<Rightarrow> vfile option) \<Rightarrow> allocator_state \<Rightarrow> storage_state \<Rightarrow> bool" where
  "alloc_ready L span view st s \<longleftrightarrow>
     span \<noteq> 0 \<and> mem_honest s \<and> alloc_files L (as_selected st) (view s) \<and>
     as_reserved_through st = alloc_reserved (as_selected st) \<and>
     unat (as_next st) \<le> unat (as_reserved_through st) + 1"

definition alloc_given :: "u64 list \<Rightarrow> allocator_state \<Rightarrow> bool" where
  "alloc_given given st \<longleftrightarrow> sorted_wrt (<) given \<and> (\<forall>g \<in> set given. g < as_next st)"

text \<open>An allocator that was opened on a new storage.\<close>

definition alloc_new_state :: allocator_state where
  "alloc_new_state = \<lparr>as_selected = None, as_next = 1, as_reserved_through = 0\<rparr>"

definition alloc_new_storage :: storage_state where
  "alloc_new_storage = snd (alloc_open memory_storage reference_digests 1024 None mem_new)"




section \<open>Lemmas: histories\<close>

lemma alloc_extended_next:
  assumes "as_next st > as_reserved_through st" and "unat (as_next st) \<le> unat (as_reserved_through st) + 1"
    and "checked_add (as_reserved_through st) span = Some rt" and "span \<noteq> 0"
  shows "unat (as_next st) \<le> unat rt" and "as_reserved_through st \<le> rt"
proof -
  have "unat rt = unat (as_reserved_through st) + unat span" using checked_add_unat [OF assms(3)] .
  moreover have "unat span \<noteq> 0" using assms(4) by (simp add: unat_eq_0)
  ultimately show "unat (as_next st) \<le> unat rt" "as_reserved_through st \<le> rt"
    using assms(2) by (simp_all add: word_le_nat_alt)
qed

context memory_laws
begin

lemma alloc_extend_ready:
  assumes laws: "digest_laws L" and ready: "alloc_ready L span view st s"
    and run: "alloc_extend memory_storage L span (st, s) = (res, (st', s'))"
  shows "alloc_ready L span view st' s' \<and> as_next st' = as_next st \<and>
    (res = Inr () \<longrightarrow> as_next st' \<le> as_reserved_through st')"
proof (cases "as_next st > as_reserved_through st")
  case False
  then have "res = Inr ()" "st' = st" "s' = s" using run by (simp_all add: alloc_extend_def)
  with False ready show ?thesis by simp
next
  case True
  show ?thesis
  proof (cases "checked_add (as_reserved_through st) span")
    case None
    then show ?thesis using run True ready by (auto simp: alloc_extend_def)
  next
    case (Some rt)
    have bounds: "unat (as_next st) \<le> unat rt" "as_reserved_through st \<le> rt"
      using alloc_extended_next [OF True _ Some] ready by (auto simp: alloc_ready_def)
    obtain pub s1 where pub: "alloc_publish_successor memory_storage L (as_selected st) rt s = (pub, s1)"
      by (cases "alloc_publish_successor memory_storage L (as_selected st) rt s")
    have out: "mem_honest s1 \<and> (case pub of
        Inr r \<Rightarrow> hw_reserved_through r = rt \<and> alloc_files L (Some r) (view s1)
      | Inl e \<Rightarrow> alloc_files L (as_selected st) (view s1) \<and> (False \<longrightarrow> alloc_successor L (as_selected st) rt = Inl e))"
      using alloc_publish_outcome [OF laws _ _ _ _ pub, of False] ready bounds(2) by (simp add: alloc_ready_def)
    show ?thesis
    proof (cases pub)
      case (Inl e)
      then have "res = Inl e" "st' = st" "s' = s1" using run True Some pub by (simp_all add: alloc_extend_def)
      with out Inl ready show ?thesis by (auto simp: alloc_ready_def)
    next
      case (Inr r)
      then have "st' = st\<lparr>as_selected := Some r, as_reserved_through := rt\<rparr>" "s' = s1"
        using run True Some pub by (simp_all add: alloc_extend_def)
      with out Inr ready bounds show ?thesis
        by (simp add: alloc_ready_def alloc_reserved_def word_le_nat_alt)
    qed
  qed
qed

lemma alloc_reserve_ready:
  assumes laws: "digest_laws L" and ready: "alloc_ready L span view st s" and given: "alloc_given given st"
    and run: "alloc_reserve_generation memory_storage L span (st, s) = (res, (st', s'))"
  shows "alloc_ready L span view st' s' \<and>
    (case res of Inr g \<Rightarrow> alloc_given (given @ [g]) st' \<and> g \<le> as_reserved_through st' | Inl e \<Rightarrow> alloc_given given st')"
proof -
  obtain ext st1 s1 where ext: "alloc_extend memory_storage L span (st, s) = (ext, (st1, s1))"
    by (cases "alloc_extend memory_storage L span (st, s)") auto
  note ready1 = alloc_extend_ready [OF laws ready ext]
  show ?thesis
  proof (cases ext)
    case (Inl e)
    then have "res = Inl e" "st' = st1" "s' = s1" using run ext by (simp_all add: alloc_reserve_generation_def io_bind_def)
    with ready1 given show ?thesis by (simp add: alloc_given_def)
  next
    case (Inr u)
    show ?thesis
    proof (cases "checked_add (as_next st1) 1")
      case None
      then have "res = Inl ContainerGenerationExhausted" "st' = st1" "s' = s1"
        using run ext Inr by (simp_all add: alloc_reserve_generation_def io_bind_def Let_def)
      with ready1 given show ?thesis by (simp add: alloc_given_def)
    next
      case (Some m)
      then have run': "res = Inr (as_next st1)" "st' = st1\<lparr>as_next := m\<rparr>" "s' = s1"
        using run ext Inr by (simp_all add: alloc_reserve_generation_def io_bind_def Let_def)
      have m: "unat m = unat (as_next st1) + 1" using checked_add_unat [OF Some] by simp
      then have "as_next st1 < m" by (simp add: word_less_nat_alt)
      with run' ready1 given m Inr show ?thesis
        by (auto simp: alloc_ready_def alloc_given_def sorted_wrt_append word_le_nat_alt intro: less_trans)
    qed
  qed
qed

lemma alloc_open_ready:
  assumes laws: "digest_laws L" and s: "mem_honest s"
    and set: "alloc_settled L selected peer
      (created_slots [CONTAINER_GENERATION_HIGH_WATER_SLOT_0, CONTAINER_GENERATION_HIGH_WATER_SLOT_1] (view s))"
    and run: "alloc_open memory_storage L span None s = (Inr st, s')"
  shows "alloc_ready L span view st s' \<and> alloc_reserved selected \<le> as_reserved_through st \<and>
    unat (as_next st) = unat (as_reserved_through st) + 1"
proof -
  have "holds False (view s) s" using s by (simp add: holds_def)
  from triple_Inr [OF alloc_open_files [OF laws set, of span] this run] show ?thesis
    by (auto simp: alloc_opened_def alloc_ready_def)
qed

lemma alloc_run_ready:
  assumes "alloc_run L span restart given st s" and laws: "digest_laws L"
  shows "alloc_ready L span view st s \<and> alloc_given given st"
  using assms(1)
proof (induction rule: alloc_run.induct)
  case (alloc_start st s)
  have "alloc_settled L None None
      (created_slots [CONTAINER_GENERATION_HIGH_WATER_SLOT_0, CONTAINER_GENERATION_HIGH_WATER_SLOT_1] (view mem_new))"
    by (simp add: view_new alloc_settled_def alloc_peer_def alloc_keeper_def alloc_target_def created_slots_def)
  from alloc_open_ready [OF laws mem_honest_new this alloc_start] show ?case by (simp add: alloc_given_def)
next
  case (alloc_reserve_ok given st s fa fb g st' s')
  let ?s = "s\<lparr>fail_before := fb, fail_after := fa\<rparr>"
  have "alloc_ready L span view st ?s" using alloc_reserve_ok.IH by (auto simp: alloc_ready_def view_faults)
  from alloc_reserve_ready [OF laws this _ alloc_reserve_ok.hyps(2), of given] alloc_reserve_ok.IH show ?case by simp
next
  case (alloc_reserve_error given st s fa fb e st' s')
  let ?s = "s\<lparr>fail_before := fb, fail_after := fa\<rparr>"
  have "alloc_ready L span view st ?s" using alloc_reserve_error.IH by (auto simp: alloc_ready_def view_faults)
  from alloc_reserve_ready [OF laws this _ alloc_reserve_error.hyps(2), of given] alloc_reserve_error.IH show ?case by simp
next
  case (alloc_reopen given st s st' s')
  then have s: "mem_honest s" "alloc_files L (as_selected st) (view s)" by (auto simp: alloc_ready_def)
  obtain peer where "alloc_settled L (as_selected st) peer (view (restart s))"
    using alloc_files_restart [OF s] .
  note open_ready = alloc_open_ready [OF laws _ alloc_settled_linked [OF this] alloc_reopen.hyps(2)]
  have "mem_honest (restart s)" using restart_law [OF s(1)] by simp
  note opened = open_ready [OF this]
  then have "as_next st \<le> as_next st'" using alloc_reopen.IH by (auto simp: alloc_ready_def word_le_nat_alt)
  with opened alloc_reopen.IH show ?case by (auto simp: alloc_given_def)
qed

lemma alloc_run_audit:
  assumes "alloc_run L span restart given st s" and laws: "digest_laws L" and g: "g \<in> set given"
  shows "fst (audit_generation_high_water memory_storage L (Some g) (restart s)) \<noteq>
    Inl (ContainerGenerationHighWaterBehind r x)"
proof -
  have ready: "alloc_ready L span view st s" and "alloc_given given st"
    using alloc_run_ready [OF assms(1) laws] by simp_all
  then have le: "g \<le> alloc_reserved (as_selected st)"
    using g by (force simp: alloc_ready_def alloc_given_def word_le_nat_alt word_less_nat_alt)
  have s: "mem_honest s" "alloc_files L (as_selected st) (view s)" using ready by (auto simp: alloc_ready_def)
  obtain peer where set: "alloc_settled L (as_selected st) peer (view (restart s))"
    using alloc_files_restart [OF s] .
  have h: "holds False (view (restart s)) (restart s)" using restart_law [OF s(1)] by (simp add: holds_def)
  show ?thesis
  proof
    assume "fst (audit_generation_high_water memory_storage L (Some g) (restart s)) = Inl (ContainerGenerationHighWaterBehind r x)"
    then obtain s' where "audit_generation_high_water memory_storage L (Some g) (restart s) =
        (Inl (ContainerGenerationHighWaterBehind r x), s')"
      by (metis prod.collapse)
    from triple_Inl [OF audit_covers [OF laws set le] h this] show False by simp
  qed
qed

lemma alloc_reserve_healthy:
  assumes laws: "digest_laws L" and ready: "alloc_ready L span view st s" and "mem_healthy s"
    and room: "as_next st > as_reserved_through st \<Longrightarrow>
      \<exists>rt r. checked_add (as_reserved_through st) span = Some rt \<and> alloc_successor L (as_selected st) rt = Inr r"
    and next_one: "checked_add (as_next st) 1 = Some m"
  shows "\<exists>st' s'. alloc_reserve_generation memory_storage L span (st, s) = (Inr (as_next st), (st', s')) \<and> as_next st' = m"
proof (cases "as_next st > as_reserved_through st")
  case False
  then show ?thesis
    using next_one by (simp add: alloc_reserve_generation_def alloc_extend_def io_bind_def Let_def)
next
  case True
  then obtain rt r where rt: "checked_add (as_reserved_through st) span = Some rt"
    and succ: "alloc_successor L (as_selected st) rt = Inr r" using room by blast
  obtain pub s1 where pub: "alloc_publish_successor memory_storage L (as_selected st) rt s = (pub, s1)"
    by (cases "alloc_publish_successor memory_storage L (as_selected st) rt s")
  have "as_reserved_through st \<le> rt"
    using alloc_extended_next(2) [OF True _ rt] ready by (auto simp: alloc_ready_def)
  then have "\<exists>r'. pub = Inr r'"
    using alloc_publish_outcome [OF laws _ _ _ _ pub, of True] ready succ assms(3)
    by (cases pub) (auto simp: alloc_ready_def)
  then show ?thesis
    using True rt pub next_one
    by (auto simp: alloc_reserve_generation_def alloc_extend_def io_bind_def Let_def)
qed

end



lemma alloc_new_storage:
  "alloc_open memory_storage reference_digests 1024 None mem_new = (Inr alloc_new_state, alloc_new_storage)"
  "mem_healthy alloc_new_storage"
proof -
  have "fst (alloc_open memory_storage reference_digests 1024 None mem_new) = Inr alloc_new_state"
    and healthy: "mem_healthy (snd (alloc_open memory_storage reference_digests 1024 None mem_new))"
    by (simp_all add: alloc_open_def alloc_load_selected_def alloc_read_slot_def alloc_select_def
        published_container_count_def parse_published_name_def strip_suffix_def suffix_def alloc_new_state_def
        mem_object_len_def u64_try_from_def and_then_def bt_keys_def mem_eval)
  then show "alloc_open memory_storage reference_digests 1024 None mem_new = (Inr alloc_new_state, alloc_new_storage)"
    by (simp add: alloc_new_storage_def prod_eq_iff)
  show "mem_healthy alloc_new_storage" using healthy by (simp add: alloc_new_storage_def)
qed

lemma alloc_new_ready:
  assumes "memory_laws view restart"
  shows "alloc_ready reference_digests 1024 view alloc_new_state alloc_new_storage"
    and "alloc_run reference_digests 1024 restart [] alloc_new_state alloc_new_storage"
proof -
  show run: "alloc_run reference_digests 1024 restart [] alloc_new_state alloc_new_storage"
    by (rule alloc_start) (rule alloc_new_storage(1))
  show "alloc_ready reference_digests 1024 view alloc_new_state alloc_new_storage"
    using memory_laws.alloc_run_ready [OF assms run reference.digest_laws_axioms] by simp
qed

lemma alloc_new_room:
  "\<exists>r. alloc_successor L None 1024 = Inr r" "checked_add (0 :: u64) 1024 = Some 1024" "checked_add (1 :: u64) 1 = Some 2"
  by (simp_all add: alloc_successor_def HighWaterRecord_new_def checked_add_def)

lemma alloc_sample_run:
  assumes "restart = mem_power_cycle \<or> restart = mem_clear_faults"
  shows "\<exists>st s. alloc_run reference_digests 1024 restart [1] st s"
proof -
  have same: "alloc_new_storage\<lparr>fail_before := None, fail_after := None\<rparr> = alloc_new_storage"
    using alloc_new_storage(2) by (simp add: mem_healthy_def)
  have "\<exists>st' s'. alloc_reserve_generation memory_storage reference_digests 1024 (alloc_new_state, alloc_new_storage) =
      (Inr (as_next alloc_new_state), (st', s')) \<and> as_next st' = 2"
    by (rule power_run.alloc_reserve_healthy [OF reference.digest_laws_axioms
          alloc_new_ready(1) [OF power_run.memory_laws_axioms] alloc_new_storage(2)])
      (use alloc_new_room in \<open>simp_all add: alloc_new_state_def\<close>)
  then obtain st' s' where "alloc_reserve_generation memory_storage reference_digests 1024 (alloc_new_state, alloc_new_storage) =
      (Inr 1, (st', s'))" by (auto simp: alloc_new_state_def)
  moreover have "alloc_run reference_digests 1024 restart [] alloc_new_state alloc_new_storage"
    by (rule alloc_start) (rule alloc_new_storage(1))
  ultimately show ?thesis
    using alloc_reserve_ok [of reference_digests 1024 restart "[]" alloc_new_state alloc_new_storage None None 1 st' s']
    by (auto simp: same)
qed


section \<open>Properties\<close>

text \<open>
  C2: No Container generation is handed out twice. Over any history of reservations with faults at
  any storage operation, failed extensions that are retried, crashes and reopenings, the generations
  that \<open>reserve_generation\<close> returned are strictly increasing, for power losses and for killed
  processes.
\<close>

theorem alloc_never_reuses:
  assumes "digest_laws L" and "restart = mem_power_cycle \<or> restart = mem_clear_faults"
    and "alloc_run L span restart given st s"
  shows "sorted_wrt (<) given"
  using assms power_run.alloc_run_ready [of L span given st s] kill_run.alloc_run_ready [of L span given st s]
  by (auto simp: alloc_given_def)

theorem alloc_never_reuses_witness:
  "\<exists>st s. alloc_run reference_digests 1024 mem_power_cycle [1] st s \<and> sorted_wrt (<) [1 :: u64]"
  using alloc_sample_run [of mem_power_cycle] alloc_never_reuses [OF reference.digest_laws_axioms, of mem_power_cycle]
  by blast



text \<open>
  C34: On a storage without faults \<open>reserve_generation\<close> returns the next generation and advances by one,
  inside the reserved range and, when the range is used up, after it was extended.
\<close>

theorem alloc_reserve_returns_next:
  assumes "digest_laws L" and "alloc_ready L span mem_view st s" and "mem_healthy s"
    and "as_next st > as_reserved_through st \<Longrightarrow>
      \<exists>rt r. checked_add (as_reserved_through st) span = Some rt \<and> alloc_successor L (as_selected st) rt = Inr r"
    and "checked_add (as_next st) 1 = Some m"
  shows "\<exists>st' s'. alloc_reserve_generation memory_storage L span (st, s) = (Inr (as_next st), (st', s')) \<and> as_next st' = m"
  using power_run.alloc_reserve_healthy [OF assms] .

theorem alloc_reserve_returns_next_witness:
  "\<exists>st' s'. alloc_reserve_generation memory_storage reference_digests 1024 (alloc_new_state, alloc_new_storage) =
     (Inr 1, (st', s')) \<and> as_next st' = 2"
  using alloc_reserve_returns_next [OF reference.digest_laws_axioms, of 1024 alloc_new_state alloc_new_storage 2]
    alloc_new_ready(1) [OF power_run.memory_laws_axioms] alloc_new_storage(2) alloc_new_room
  by (simp add: alloc_new_state_def)



end
