(* ===== verification/Seqcdc_Masks.thy ===== *)
theory Seqcdc_Masks
  imports Prelude
begin

unbundle bit_operations_syntax

text \<open>
  The bit-parallel classifier of the SeqCDC boundary scanner, \<open>classify_masks\<close> of
  \<open>crates/fastdup-store/src/seqcdc.rs\<close>, with the processor instructions it uses (\<open>pext\<close>,
  \<open>pdep\<close>, bit counts) as functions on words. It is shown to decide exactly what a scan of the lanes
  one after the other decides (\<open>slope_scan\<close>): the same boundary, the same skip, or the same counters.
\<close>

record seqcdc_config =
  sequence_length :: u16
  skip_trigger :: u16
  skip_bytes :: nat
  minimum_bytes :: nat
  maximum_bytes :: nat

datatype vector_decision = Boundary nat | Skip nat | Advance u16 u16 nat

text \<open>The indices of the set bits of a word, in ascending order, and the instructions on them.\<close>

definition bit_positions :: "'a::len word \<Rightarrow> nat list" where
  "bit_positions w = filter (bit w) [0..<LENGTH('a)]"

definition count_ones :: "'a::len word \<Rightarrow> nat" where
  "count_ones w = length (bit_positions w)"

definition trailing_zeros :: "'a::len word \<Rightarrow> nat" where
  "trailing_zeros w = (case bit_positions w of [] \<Rightarrow> LENGTH('a) | i # _ \<Rightarrow> i)"

definition leading_ones :: "'a::len word \<Rightarrow> nat" where
  "leading_ones w = length (takeWhile (bit w) (rev [0..<LENGTH('a)]))"

definition word_of_bits :: "bool list \<Rightarrow> 'a::len word" where
  "word_of_bits bs = horner_sum of_bool 2 bs"

definition pext_u32 :: "u32 \<Rightarrow> u32 \<Rightarrow> u32" where
  "pext_u32 src sel = word_of_bits (map (bit src) (bit_positions sel))"

definition pdep_u32 :: "u32 \<Rightarrow> u32 \<Rightarrow> u32" where
  "pdep_u32 src sel =
     word_of_bits (map (\<lambda>i. bit sel i \<and> bit src (length (filter (bit sel) [0..<i]))) [0..<32])"

definition low_bits :: "nat \<Rightarrow> u64" where
  "low_bits bits = (if bits = 0 then 0 else push_bit bits 1 - 1)"

definition classify_masks :: "u32 \<Rightarrow> u32 \<Rightarrow> seqcdc_config \<Rightarrow> u16 \<Rightarrow> u16 \<Rightarrow> vector_decision" where
  "classify_masks greater_lanes lesser config opposing_slopes sequence =
     (let non_equal = greater_lanes OR lesser in
      if non_equal = 0 then Advance opposing_slopes sequence 32
      else
        let packed_greater = pext_u32 greater_lanes non_equal;
            packed_count = count_ones non_equal;
            prefix = unat sequence;
            combined = push_bit prefix (ucast packed_greater :: u64) OR low_bits prefix;
            run_ends = fold (\<lambda>shift run_ends. run_ends AND push_bit shift combined)
              [1..<unat (sequence_length config)] combined;
            boundary_lane =
              (if run_ends = 0 then None
               else let packed_end = trailing_zeros run_ends - prefix;
                        packed_bit = push_bit packed_end 1
                    in Some (trailing_zeros (pdep_u32 packed_bit non_equal)));
            lesser_count = count_ones lesser;
            skip_lane =
              (if unat opposing_slopes + lesser_count \<ge> unat (skip_trigger config) then
                 let needed = unat (skip_trigger config - opposing_slopes)
                 in Some (trailing_zeros (pdep_u32 (push_bit (needed - 1) 1) lesser))
               else None)
        in case (boundary_lane, skip_lane) of
             (Some boundary, Some skip) \<Rightarrow> if skip < boundary then Skip skip else Boundary boundary
           | (Some boundary, None) \<Rightarrow> Boundary boundary
           | (None, Some skip) \<Rightarrow> Skip skip
           | (None, None) \<Rightarrow>
               let opposing = opposing_slopes + of_nat lesser_count;
                   packed_mask = ucast (low_bits packed_count) :: u32;
                   sequence' =
                     (if packed_greater = packed_mask then sequence + of_nat packed_count
                      else let aligned = push_bit (32 - packed_count) packed_greater
                           in of_nat (leading_ones aligned))
               in Advance opposing sequence' 32)"

section \<open>The scan one lane at a time\<close>

text \<open>The slopes of a pair of masks.\<close>

definition mask_slopes :: "u32 \<Rightarrow> u32 \<Rightarrow> (nat \<times> bool) list" where
  "mask_slopes g l = map (\<lambda>i. (i, bit g i)) (bit_positions (g OR l))"

text \<open>A slope is a lane whose byte differs from the one before it, with whether it goes up.\<close>

fun slope_scan :: "seqcdc_config \<Rightarrow> (nat \<times> bool) list \<Rightarrow> u16 \<Rightarrow> u16 \<Rightarrow> nat \<Rightarrow> vector_decision" where
  "slope_scan config [] opposing sequence n = Advance opposing sequence n"
| "slope_scan config ((lane, up) # slopes) opposing sequence n =
     (let opposing = (if up then opposing else opposing + 1);
          sequence = (if up then sequence + 1 else 0)
      in if sequence = sequence_length config then Boundary lane
         else if opposing = skip_trigger config then Skip lane
         else slope_scan config slopes opposing sequence n)"

text \<open>The two events of a scan on their own, over natural numbers: the slope at which the run of ups
  reaches its length, and the slope at which the downs reach the trigger.\<close>

fun first_boundary :: "nat \<Rightarrow> nat \<Rightarrow> bool list \<Rightarrow> nat option" where
  "first_boundary l s [] = None"
| "first_boundary l s (u # us) =
     (let s' = (if u then s + 1 else 0)
      in if s' = l then Some 0 else map_option Suc (first_boundary l s' us))"

fun first_skip :: "nat \<Rightarrow> nat \<Rightarrow> bool list \<Rightarrow> nat option" where
  "first_skip t k [] = None"
| "first_skip t k (u # us) =
     (let k' = (if u then k else k + 1)
      in if k' = t then Some 0 else map_option Suc (first_skip t k' us))"

definition final_run :: "nat \<Rightarrow> bool list \<Rightarrow> nat" where
  "final_run s us = (if list_all id us then s + length us else length (takeWhile id (rev us)))"

definition downs :: "bool list \<Rightarrow> nat" where
  "downs us = length (filter Not us)"

text \<open>A run of \<open>l\<close> ups that ends at index \<open>j\<close>, the way the shifts of the code find it.\<close>

definition run_end :: "nat \<Rightarrow> bool list \<Rightarrow> nat \<Rightarrow> bool" where
  "run_end l us j \<longleftrightarrow> j < length us \<and> l \<le> j + 1 \<and> (\<forall>k<l. us ! (j - k))"

section \<open>Lemmas: the scan and its events\<close>

lemma final_run_Cons:
  "final_run s (u # us) = final_run (if u then s + 1 else 0) us"
proof (cases "list_all id us")
  case True
  then have "takeWhile id (rev us @ [False]) = rev us"
    by (subst takeWhile_append2) (auto simp: list_all_iff)
  with True show ?thesis by (auto simp: final_run_def)
next
  case False
  then obtain x where "x \<in> set (rev us)" "\<not> id x" by (auto simp: list_all_iff)
  then have "takeWhile id (rev us @ [u]) = takeWhile id (rev us)" by (rule takeWhile_append1)
  with False show ?thesis by (auto simp: final_run_def)
qed

lemma unat_add_one: "unat (x :: u16) < m \<Longrightarrow> m < 2 ^ 16 \<Longrightarrow> unat (x + 1) = unat x + 1"
  by (simp add: unat_word_ariths)

lemma slope_scan_events:
  assumes "unat o' < unat (skip_trigger c)" and "unat s < unat (sequence_length c)"
  shows "slope_scan c xs o' s n =
    (case (first_boundary (unat (sequence_length c)) (unat s) (map snd xs),
           first_skip (unat (skip_trigger c)) (unat o') (map snd xs)) of
       (Some b, Some k) \<Rightarrow> if k < b then Skip (fst (xs ! k)) else Boundary (fst (xs ! b))
     | (Some b, None) \<Rightarrow> Boundary (fst (xs ! b))
     | (None, Some k) \<Rightarrow> Skip (fst (xs ! k))
     | (None, None) \<Rightarrow> Advance (o' + of_nat (downs (map snd xs))) (of_nat (final_run (unat s) (map snd xs))) n)"
  using assms
proof (induction xs arbitrary: o' s)
  case Nil
  then show ?case by (simp add: downs_def final_run_def)
next
  case (Cons x xs)
  obtain lane up where x: "x = (lane, up)" by (cases x)
  have lt: "unat w < 2 ^ 16" for w :: u16 using unsigned_less [of w, where ?'a = nat] by simp
  show ?case
  proof (cases up)
    case True
    have s': "unat (s + 1) = unat s + 1" using unat_add_one [OF Cons.prems(2) lt] .
    then have eq: "s + 1 = sequence_length c \<longleftrightarrow> unat s + 1 = unat (sequence_length c)"
      by (simp add: word_unat_eq_iff)
    show ?thesis
      using Cons.prems s' eq x True Cons.IH [of o' "s + 1"]
      by (auto simp: Let_def downs_def final_run_Cons split: option.splits)
  next
    case False
    have o': "unat (o' + 1) = unat o' + 1" using unat_add_one [OF Cons.prems(1) lt] .
    then have eq: "o' + 1 = skip_trigger c \<longleftrightarrow> unat o' + 1 = unat (skip_trigger c)"
      by (simp add: word_unat_eq_iff)
    have zero: "0 \<noteq> sequence_length c" "unat (sequence_length c) \<noteq> 0" using Cons.prems(2) by auto
    show ?thesis
      using Cons.prems o' eq zero x False Cons.IH [of "o' + 1" 0]
      by (auto simp: Let_def downs_def final_run_Cons split: option.splits)
  qed
qed

section \<open>Lemmas: runs\<close>

lemma nth_after_down: "s < i \<Longrightarrow> (replicate s True @ False # us) ! i = us ! (i - (s + 1))"
  by (auto simp: nth_append nth_Cons')

lemma run_end_down:
  assumes "s < l"
  shows "run_end l (replicate s True @ False # us) j \<longleftrightarrow> s + 1 \<le> j \<and> run_end l us (j - (s + 1))"
proof (cases "s + l \<le> j")
  case True
  then have "(replicate s True @ False # us) ! (j - k) = us ! (j - (s + 1) - k)" if "k < l" for k
    using nth_after_down [of s "j - k" us] that by (simp add: add.commute)
  moreover have "s + 1 \<le> j" using True assms by simp
  ultimately show ?thesis using True by (auto simp: run_end_def)
next
  case False
  have "\<not> run_end l (replicate s True @ False # us) j"
  proof
    assume r: "run_end l (replicate s True @ False # us) j"
    then have "s \<le> j" using assms by (simp add: run_end_def)
    with False have "j - s < l" by simp
    with r have "(replicate s True @ False # us) ! (j - (j - s))" unfolding run_end_def by blast
    with \<open>s \<le> j\<close> show False by (simp add: nth_append)
  qed
  moreover have "\<not> (s + 1 \<le> j \<and> run_end l us (j - (s + 1)))" using False by (auto simp: run_end_def)
  ultimately show ?thesis by blast
qed

lemma first_boundary_run_end:
  assumes "s < l"
  shows "first_boundary l s us = Some e \<longleftrightarrow>
    run_end l (replicate s True @ us) (s + e) \<and> (\<forall>j < s + e. \<not> run_end l (replicate s True @ us) j)"
  using assms
proof (induction us arbitrary: s e)
  case Nil
  then show ?case by (auto simp: run_end_def)
next
  case (Cons u us)
  show ?case
  proof (cases u)
    case up: True
    have c: "replicate s True @ u # us = replicate (s + 1) True @ us"
      by (simp add: up replicate_append_same flip: replicate_Suc)
    show ?thesis
    proof (cases "s + 1 = l")
      case True
      then have first: "run_end l (replicate (s + 1) True @ us) s"
        by (auto simp: run_end_def nth_append)
      moreover have "\<not> run_end l (replicate (s + 1) True @ us) j" if "j < s" for j
        using that True by (auto simp: run_end_def)
      ultimately show ?thesis
        unfolding c using up True by (auto simp: Let_def) (metis add_gr_0 less_add_same_cancel1 not_gr_zero)
    next
      case False
      with Cons.prems have s': "s + 1 < l" by simp
      have "\<not> run_end l (replicate (s + 1) True @ us) s" using s' by (auto simp: run_end_def)
      then show ?thesis
        unfolding c using up False Cons.IH [OF s'] by (cases e) (auto simp: Let_def)
    qed
  next
    case False
    have down: "run_end l (replicate s True @ u # us) j \<longleftrightarrow> s + 1 \<le> j \<and> run_end l us (j - (s + 1))" for j
      using run_end_down [OF Cons.prems] False by simp
    have IH: "first_boundary l 0 us = Some e' \<longleftrightarrow> run_end l us e' \<and> (\<forall>j<e'. \<not> run_end l us j)" for e'
      using Cons.IH [of 0 e'] Cons.prems by simp
    have shift: "(\<forall>j < s + Suc e'. \<not> (s + 1 \<le> j \<and> run_end l us (j - (s + 1)))) \<longleftrightarrow> (\<forall>j<e'. \<not> run_end l us j)" for e'
      by (metis Suc_eq_plus1 add_Suc_right add_Suc_shift add_diff_cancel_left' le_add1 le_add_diff_inverse nat_add_left_cancel_less)
    have step: "first_boundary l s (u # us) = map_option Suc (first_boundary l 0 us)"
      using False Cons.prems by (simp add: Let_def)
    show ?thesis
    proof (cases e)
      case 0
      then show ?thesis unfolding down step by auto
    next
      case (Suc e')
      then have "s + 1 \<le> s + e" "s + e - (s + 1) = e'" by simp_all
      moreover have "first_boundary l s (u # us) = Some e \<longleftrightarrow> first_boundary l 0 us = Some e'"
        unfolding step Suc by auto
      ultimately show ?thesis unfolding down using shift [of e'] IH [of e'] Suc by simp
    qed
  qed
qed


section \<open>Lemmas: words as lists of bits\<close>

lemma bit_word_of_bits: "bit (word_of_bits bs :: 'a::len word) i \<longleftrightarrow> i < min LENGTH('a) (length bs) \<and> bs ! i"
  by (simp add: word_of_bits_def bit_horner_sum_bit_word_iff)

lemma bit_positions_mem: "i \<in> set (bit_positions w) \<longleftrightarrow> bit w i"
  by (auto simp: bit_positions_def dest: bit_imp_le_length)

lemma sorted_bit_positions [simp]: "sorted_wrt (<) (bit_positions w)"
  by (simp add: bit_positions_def sorted_wrt_filter)

lemma length_bit_positions: "length (bit_positions (w :: 'a::len word)) \<le> LENGTH('a)"
  unfolding bit_positions_def by (rule order.trans [OF length_filter_le]) simp

lemma bit_positions_Nil: "bit_positions w = [] \<longleftrightarrow> w = 0"
proof
  assume "bit_positions w = []"
  then have "\<not> bit w i" for i using bit_positions_mem [of i w] by simp
  then show "w = 0" by (auto intro: bit_word_eqI)
qed (simp add: bit_positions_def)

lemma bit_positions_zero [simp]: "bit_positions 0 = []"
  by (simp add: bit_positions_Nil)

lemma bit_positions_nth: "k < count_ones w \<Longrightarrow> bit w (bit_positions w ! k)"
  unfolding count_ones_def by (metis bit_positions_mem nth_mem)

lemma trailing_zeros_least:
  assumes "bit w n" and "\<And>m. m < n \<Longrightarrow> \<not> bit w m"
  shows "trailing_zeros w = n"
proof (cases "bit_positions w")
  case Nil
  then show ?thesis using assms(1) by (simp add: bit_positions_Nil)
next
  case (Cons i rest)
  then have i: "bit w i" "\<And>j. j \<in> set rest \<Longrightarrow> i < j"
    using bit_positions_mem [of i w] sorted_bit_positions [of w] by auto
  have "n \<in> set (i # rest)" using assms(1) Cons bit_positions_mem [of n w] by simp
  with i assms(2) have "i = n" by fastforce
  then show ?thesis by (simp add: trailing_zeros_def Cons)
qed

lemma trailing_zeros_bit: "w \<noteq> 0 \<Longrightarrow> bit w (trailing_zeros w) \<and> (\<forall>m<trailing_zeros w. \<not> bit w m)"
proof (cases "bit_positions w")
  case Nil
  then show "w \<noteq> 0 \<Longrightarrow> ?thesis" by (simp add: bit_positions_Nil)
next
  case (Cons i rest)
  then have "bit w i" "\<And>j. j \<in> set rest \<Longrightarrow> i < j"
    using bit_positions_mem [of i w] sorted_bit_positions [of w] by auto
  moreover have "bit w m \<Longrightarrow> m \<in> set (i # rest)" for m using Cons bit_positions_mem [of m w] by simp
  ultimately show ?thesis by (fastforce simp: trailing_zeros_def Cons)
qed

lemma bit_pext: "bit (pext_u32 src sel) k \<longleftrightarrow> k < count_ones sel \<and> bit src (bit_positions sel ! k)"
  using length_bit_positions [of sel] by (auto simp: pext_u32_def bit_word_of_bits count_ones_def)

text \<open>The rank of the \<open>k\<close>-th set bit is \<open>k\<close>.\<close>

lemma rank_bit_position:
  assumes "k < count_ones w"
  shows "length (filter (bit w) [0..<bit_positions w ! k]) = k"
proof -
  let ?xs = "bit_positions w" and ?p = "bit_positions w ! k"
  have p: "bit w ?p" "?p < LENGTH('a)"
    using bit_positions_nth [OF assms] bit_imp_le_length by (auto simp: bit_positions_def)
  have "[0..<LENGTH('a)] = [0..<?p] @ ?p # [Suc ?p..<LENGTH('a)]"
    using p(2) by (metis le_add_diff_inverse less_imp_le_nat upt_add_eq_append upt_conv_Cons zero_le)
  then have xs: "?xs = filter (bit w) [0..<?p] @ ?p # filter (bit w) [Suc ?p..<LENGTH('a)]"
    unfolding bit_positions_def using p(1) by (metis (lifting) bit_positions_def filter.simps(2) filter_append)
  then have "?xs ! length (filter (bit w) [0..<?p]) = ?xs ! k"
    by (metis nth_append_length)
  moreover have "distinct ?xs" by (simp add: bit_positions_def)
  moreover have "length (filter (bit w) [0..<?p]) < length ?xs" by (subst xs) simp
  ultimately show ?thesis
    using assms by (simp add: nth_eq_iff_index_eq count_ones_def)
qed

lemma bit_pdep_single: "bit (pdep_u32 (push_bit k 1) sel) i \<longleftrightarrow> bit sel i \<and> length (filter (bit sel) [0..<i]) = k"
proof (cases "i < 32")
  case True
  have "length (filter (bit sel) [0..<i]) < 32"
    using True by (intro le_less_trans [OF length_filter_le]) simp
  with True show ?thesis
    by (auto simp: pdep_u32_def bit_word_of_bits bit_simps simp del: push_bit_of_1)
next
  case False
  then have "\<not> bit sel i" using bit_imp_le_length [of sel i] by auto
  with False show ?thesis by (simp add: pdep_u32_def bit_word_of_bits)
qed

lemma trailing_zeros_pdep:
  assumes "k < count_ones sel"
  shows "trailing_zeros (pdep_u32 (push_bit k 1) sel) = bit_positions sel ! k"
proof (rule trailing_zeros_least)
  show "bit (pdep_u32 (push_bit k 1) sel) (bit_positions sel ! k)"
    using assms by (simp add: bit_pdep_single bit_positions_nth rank_bit_position del: push_bit_of_1)
  fix m assume "m < bit_positions sel ! k"
  show "\<not> bit (pdep_u32 (push_bit k 1) sel) m"
  proof
    assume "bit (pdep_u32 (push_bit k 1) sel) m"
    then have m: "bit sel m" "length (filter (bit sel) [0..<m]) = k" by (simp_all add: bit_pdep_single del: push_bit_of_1)
    then obtain j where "j < count_ones sel" "bit_positions sel ! j = m"
      by (metis bit_positions_mem count_ones_def in_set_conv_nth)
    with m rank_bit_position [of j sel] \<open>m < _\<close> show False by auto
  qed
qed

lemma bit_low_bits: "n < 64 \<Longrightarrow> bit (low_bits n) j \<longleftrightarrow> j < n"
proof -
  assume n: "n < 64"
  have "low_bits n = mask n" by (simp add: low_bits_def mask_eq_exp_minus_1)
  with n show ?thesis by (auto simp: bit_simps)
qed

lemma bit_fold_runs:
  "bit (fold (\<lambda>shift w. w AND push_bit shift (c :: u64)) shifts w0) j \<longleftrightarrow>
     bit w0 j \<and> (\<forall>k\<in>set shifts. k \<le> j \<and> j < 64 \<and> bit c (j - k))"
  by (induction shifts arbitrary: w0) (auto simp: bit_simps)

lemma bit_run_ends:
  assumes c: "\<And>j. bit (c :: u64) j \<longleftrightarrow> j < length us \<and> us ! j" and len: "length us \<le> 64" and l: "0 < l"
  shows "bit (fold (\<lambda>shift w. w AND push_bit shift c) [1..<l] c) j \<longleftrightarrow> run_end l us j"
proof
  assume r: "bit (fold (\<lambda>shift w. w AND push_bit shift c) [1..<l] c) j"
  then have j: "j < length us" "us ! j" and k: "\<And>k. 1 \<le> k \<Longrightarrow> k < l \<Longrightarrow> k \<le> j \<and> us ! (j - k)"
    unfolding bit_fold_runs c by auto
  have "l - 1 \<le> j" if "l \<noteq> 1" using k [of "l - 1"] l that by force
  then have "l \<le> j + 1" using l by force
  moreover have "us ! (j - k)" if "k < l" for k using k [of k] j that by (cases "k = 0") auto
  ultimately show "run_end l us j" using j by (simp add: run_end_def)
next
  assume r: "run_end l us j"
  then have "us ! (j - k)" if "k < l" for k using that by (simp add: run_end_def)
  from this [of 0] this r l len show "bit (fold (\<lambda>shift w. w AND push_bit shift c) [1..<l] c) j"
    unfolding bit_fold_runs c by (auto simp: run_end_def)
qed

lemma bit_combined:
  assumes "s < 32" and "length us \<le> 32" and pg: "\<And>j. bit (pg :: u32) j \<longleftrightarrow> j < length us \<and> us ! j"
  shows "bit (push_bit s (ucast pg :: u64) OR low_bits s) j \<longleftrightarrow>
    j < length (replicate s True @ us) \<and> (replicate s True @ us) ! j"
  using assms(1,2) by (auto simp: bit_simps bit_low_bits pg nth_append)

lemma packed_boundary:
  assumes s: "s < l" "l \<le> 32" and len: "length us \<le> 32"
    and pg: "\<And>j. bit (pg :: u32) j \<longleftrightarrow> j < length us \<and> us ! j"
    and run: "run_ends = fold (\<lambda>shift w. w AND push_bit shift c) [1..<l] c"
    and c: "c = push_bit s (ucast pg :: u64) OR low_bits s"
  shows "(if run_ends = 0 then None else Some (trailing_zeros run_ends - s)) = first_boundary l s us"
proof -
  let ?us = "replicate s True @ us"
  have bit: "bit run_ends j \<longleftrightarrow> run_end l ?us j" for j
    unfolding run using s len bit_combined [OF _ len pg, of s]
    by (intro bit_run_ends) (auto simp: c)
  have None: "first_boundary l s us = None" if "run_ends = 0"
  proof (rule ccontr)
    assume "first_boundary l s us \<noteq> None"
    then obtain e where "first_boundary l s us = Some e" by auto
    with s(1) have "run_end l ?us (s + e)" by (simp add: first_boundary_run_end)
    with bit that show False by simp
  qed
  have Some: "first_boundary l s us = Some (trailing_zeros run_ends - s)" if "run_ends \<noteq> 0"
  proof -
    have tz: "run_end l ?us (trailing_zeros run_ends)" "\<And>m. m < trailing_zeros run_ends \<Longrightarrow> \<not> run_end l ?us m"
      using trailing_zeros_bit [OF that] by (auto simp: bit)
    then have "s \<le> trailing_zeros run_ends" using s(1) by (simp add: run_end_def)
    then show ?thesis using tz s(1) by (simp add: first_boundary_run_end)
  qed
  show ?thesis using None Some by simp
qed

lemma first_boundary_less: "first_boundary l s us = Some e \<Longrightarrow> e < length us"
  by (induction us arbitrary: s e) (auto simp: Let_def split: if_splits)

lemma first_skip_less: "first_skip t k us = Some e \<Longrightarrow> e < length us"
  by (induction us arbitrary: k e) (auto simp: Let_def split: if_splits)

lemma first_skip_nth:
  assumes "k < t"
  shows "map_option ((!) xs) (first_skip t k (map P xs)) =
    (if t \<le> k + length (filter (\<lambda>x. \<not> P x) xs) then Some (filter (\<lambda>x. \<not> P x) xs ! (t - k - 1)) else None)"
  using assms
proof (induction xs arbitrary: k)
  case (Cons x xs)
  have shift: "map_option ((!) (x # xs)) (map_option Suc y) = map_option ((!) xs) y" for y
    by (cases y) simp_all
  consider (up) "P x" | (down) "\<not> P x" "Suc k < t" | (skip) "\<not> P x" "Suc k = t"
    using Cons.prems by fastforce
  then show ?case
  proof cases
    case up
    then have "first_skip t k (map P (x # xs)) = map_option Suc (first_skip t k (map P xs))"
      using Cons.prems by (simp add: Let_def)
    with up Cons.IH [OF Cons.prems] show ?thesis by (simp only: shift) simp
  next
    case down
    then have "first_skip t k (map P (x # xs)) = map_option Suc (first_skip t (Suc k) (map P xs))"
      by (simp add: Let_def)
    moreover have "t - k - 1 = Suc (t - Suc k - 1)" using down(2) by simp
    ultimately show ?thesis using down Cons.IH [OF down(2)] by (simp only: shift) simp
  next
    case skip
    then show ?thesis by (auto simp: Let_def)
  qed
qed simp

lemma length_takeWhile_map: "length (takeWhile P xs) = length (takeWhile id (map P xs))"
  by (simp add: takeWhile_map)

lemma takeWhile_falses: "takeWhile id (us @ replicate k False) = takeWhile id us"
  by (induction us) (cases k, simp_all)

lemma leading_ones_aligned:
  assumes len: "length us \<le> 32" and pg: "\<And>j. bit (pg :: u32) j \<longleftrightarrow> j < length us \<and> us ! j"
  shows "leading_ones (push_bit (32 - length us) pg) = length (takeWhile id (rev us))"
proof -
  let ?w = "push_bit (32 - length us) pg" and ?k = "32 - length us"
  have "map (bit ?w) [0..<32] = replicate ?k False @ us"
    using len by (intro nth_equalityI) (auto simp: bit_simps pg nth_append)
  then have "map (bit ?w) (rev [0..<32]) = rev us @ replicate ?k False"
    by (simp only: rev_map [symmetric] rev_append rev_replicate)
  then show ?thesis
    using length_takeWhile_map [of "bit ?w" "rev [0..<32]"] by (simp add: leading_ones_def takeWhile_falses)
qed

lemma packed_all_ups:
  assumes len: "length us \<le> 32" and pg: "\<And>j. bit (pg :: u32) j \<longleftrightarrow> j < length us \<and> us ! j"
  shows "pg = ucast (low_bits (length us)) \<longleftrightarrow> list_all id us"
proof -
  have "bit (ucast (low_bits (length us)) :: u32) j \<longleftrightarrow> j < length us" for j
    using len by (auto simp: bit_simps bit_low_bits)
  then have "pg = ucast (low_bits (length us)) \<longleftrightarrow> (\<forall>j. (j < length us \<and> us ! j) = (j < length us))"
    unfolding bit_eq_iff pg by (auto simp: bit_simps)
  also have "\<dots> \<longleftrightarrow> list_all id us" by (auto simp: list_all_length)
  finally show ?thesis .
qed

lemma lesser_positions:
  assumes "g AND l = (0 :: u32)"
  shows "bit_positions l = filter (\<lambda>i. \<not> bit g i) (bit_positions (g OR l))"
proof -
  have "bit l i \<longleftrightarrow> bit (g OR l) i \<and> \<not> bit g i" for i
    using arg_cong [OF assms, of "\<lambda>w. bit w i"] by (auto simp: bit_simps)
  then show ?thesis
    unfolding bit_positions_def filter_filter by (intro filter_cong) auto
qed

text \<open>What the two masks of one classification mean: the lanes \<open>ps\<close> with a slope, the directions \<open>us\<close>
  of the slopes, and the extracted word \<open>pg\<close>, which holds the directions as bits.\<close>

lemma bit_packed_greater:
  "bit (pext_u32 g sel) j \<longleftrightarrow> j < length (map (bit g) (bit_positions sel)) \<and> map (bit g) (bit_positions sel) ! j"
  by (auto simp: bit_pext count_ones_def)

lemma boundary_lane:
  fixes g l :: u32
  assumes s: "s < L" "L \<le> 32"
    and c: "c = push_bit s (ucast (pext_u32 g sel) :: u64) OR low_bits s"
    and run: "run_ends = fold (\<lambda>shift w. w AND push_bit shift c) [1..<L] c"
  shows "(if run_ends = 0 then None else Some (trailing_zeros (pdep_u32 (push_bit (trailing_zeros run_ends - s) 1) sel)))
    = map_option ((!) (bit_positions sel)) (first_boundary L s (map (bit g) (bit_positions sel)))"
proof -
  let ?us = "map (bit g) (bit_positions sel)"
  have len: "length ?us \<le> 32" using length_bit_positions [of sel] by simp
  have first: "(if run_ends = 0 then None else Some (trailing_zeros run_ends - s)) = first_boundary L s ?us"
    by (rule packed_boundary [OF s len bit_packed_greater run c])
  show ?thesis
  proof (cases "run_ends = 0")
    case True
    then show ?thesis using first by simp
  next
    case False
    then have fb: "first_boundary L s ?us = Some (trailing_zeros run_ends - s)" using first by simp
    then have "trailing_zeros run_ends - s < count_ones sel"
      using first_boundary_less [OF fb] by (simp add: count_ones_def)
    with False fb show ?thesis by (simp add: trailing_zeros_pdep del: push_bit_of_1)
  qed
qed

lemma skip_lane:
  assumes dis: "g AND l = (0 :: u32)" and t: "unat o' < unat (t :: u16)"
  shows "(if unat o' + count_ones l \<ge> unat t
      then Some (trailing_zeros (pdep_u32 (push_bit (unat (t - o') - 1) 1) l)) else None) =
    map_option ((!) (bit_positions (g OR l))) (first_skip (unat t) (unat o') (map (bit g) (bit_positions (g OR l))))"
proof -
  have needed: "unat (t - o') = unat t - unat o'" using t by (simp add: unat_sub word_le_nat_alt)
  have "unat t - unat o' - 1 < count_ones l" if "unat t \<le> unat o' + count_ones l"
    using that t by simp
  moreover have "count_ones l = length (filter (\<lambda>i. \<not> bit g i) (bit_positions (g OR l)))"
    by (simp add: count_ones_def lesser_positions [OF dis])
  ultimately show ?thesis
    using first_skip_nth [OF t, of "bit_positions (g OR l)" "bit g"]
    by (auto simp: needed trailing_zeros_pdep lesser_positions [OF dis] simp del: push_bit_of_1)
qed

lemma final_sequence:
  assumes "pg = pext_u32 g sel" and "n = count_ones sel"
  shows "(if pg = ucast (low_bits n) then s + of_nat n else of_nat (leading_ones (push_bit (32 - n) pg))) =
    (of_nat (final_run (unat s) (map (bit g) (bit_positions sel))) :: u16)"
proof -
  let ?us = "map (bit g) (bit_positions sel)"
  have len: "length ?us \<le> 32" using length_bit_positions [of sel] by simp
  show ?thesis
    using packed_all_ups [OF len bit_packed_greater [of g sel]] leading_ones_aligned [OF len bit_packed_greater [of g sel]]
    by (simp add: assms count_ones_def final_run_def)
qed

text \<open>The decision of the code is the decision of the scan.\<close>

lemma classify_masks_scan:
  assumes dis: "g AND l = (0 :: u32)" and o': "unat o' < unat (skip_trigger c)"
    and s: "unat s < unat (sequence_length c)" "unat (sequence_length c) \<le> 32"
  shows "classify_masks g l c o' s = slope_scan c (mask_slopes g l) o' s 32"
proof (cases "g OR l = 0")
  case True
  then show ?thesis
    by (simp add: classify_masks_def mask_slopes_def)
next
  case False
  define ps where "ps = bit_positions (g OR l)"
  define us where "us = map (bit g) ps"
  let ?b = "first_boundary (unat (sequence_length c)) (unat s) us"
  let ?k = "first_skip (unat (skip_trigger c)) (unat o') us"
  have downs: "count_ones l = downs us"
    by (simp add: count_ones_def lesser_positions [OF dis] downs_def us_def ps_def filter_map o_def)
  have mono: "ps ! k < ps ! b \<longleftrightarrow> k < b" if "k < length us" "b < length us" for k b
    using sorted_wrt_nth_less [OF sorted_bit_positions [of "g OR l"]] that
    by (metis linorder_neqE_nat length_map not_less_iff_gr_or_eq ps_def us_def)
  have code: "classify_masks g l c o' s =
      (case (map_option ((!) ps) ?b, map_option ((!) ps) ?k) of
         (Some boundary, Some skip) \<Rightarrow> if skip < boundary then Skip skip else Boundary boundary
       | (Some boundary, None) \<Rightarrow> Boundary boundary
       | (None, Some skip) \<Rightarrow> Skip skip
       | (None, None) \<Rightarrow> Advance (o' + of_nat (count_ones l)) (of_nat (final_run (unat s) us)) 32)"
    unfolding classify_masks_def Let_def boundary_lane [OF s refl refl] skip_lane [OF dis o'] final_sequence [OF refl refl]
      us_def ps_def
    using False by simp
  have scan: "map snd (mask_slopes g l) = us" "\<And>k. k < length us \<Longrightarrow> fst (mask_slopes g l ! k) = ps ! k"
    by (simp_all add: mask_slopes_def us_def ps_def o_def)
  show ?thesis
    unfolding code slope_scan_events [OF o' s(1)] scan(1)
    using first_boundary_less [of _ _ us] first_skip_less [of _ _ us] mono downs scan(2)
    by (auto split: option.splits)
qed

end
