(* ===== verification/Seqcdc.thy ===== *)
theory Seqcdc
  imports Seqcdc_Masks
begin

unbundle bit_operations_syntax

text \<open>
  The SeqCDC boundary scanner, \<open>crates/fastdup-store/src/seqcdc.rs\<close>: where the next chunk of a byte
  string ends. The scalar loop, the AVX2 and the AVX-512 loops, the dispatch between them and the scan
  of input that comes in segments.

  The result \<open>None\<close> stands for a panic (a failed assertion or an index out of range), for a vector
  load outside its slice, and for a loop that does not end. The detected processor features are
  arguments. The vector instructions are modelled on lists of bytes, the lane with index 0 first.

  \<open>lane_classifier\<close> is the contract between a vector loop and its classifier: the decision
  is that of a scan of the first lanes, one after the other. Both classifiers satisfy it, and every
  variant is shown to return what the scalar loop returns.
\<close>

definition usize_saturating_add :: "nat \<Rightarrow> nat \<Rightarrow> nat" where
  "usize_saturating_add a b = (if a + b < 2 ^ 64 then a + b else 2 ^ 64 - 1)"

text \<open>\<open>xs[i]\<close>, and \<open>xs[i - 1]\<close> with the check of the subtraction.\<close>

definition index_at :: "'a list \<Rightarrow> nat \<Rightarrow> 'a option" where
  "index_at xs i = (if i < length xs then Some (xs ! i) else None)"

definition index_before :: "'a list \<Rightarrow> nat \<Rightarrow> 'a option" where
  "index_before xs i = (if 0 < i \<and> i \<le> length xs then Some (xs ! (i - 1)) else None)"

definition flat_probe :: "bytes \<Rightarrow> nat \<Rightarrow> bool" where
  "flat_probe bytes offset =
     (let lane_end = usize_saturating_add offset 64
      in offset \<le> lane_end \<and> lane_end \<le> length bytes \<and>
         (let lane = slice offset (lane_end - offset) bytes in list_all (\<lambda>byte. byte = lane ! 0) lane))"

definition validate :: "seqcdc_config \<Rightarrow> bool" where
  "validate config \<longleftrightarrow>
     sequence_length config \<noteq> 0 \<and> sequence_length config \<le> 32 \<and>
     skip_trigger config \<noteq> 0 \<and>
     skip_bytes config \<noteq> 0 \<and>
     minimum_bytes config \<noteq> 0 \<and>
     minimum_bytes config \<le> maximum_bytes config"

partial_function (option) cut_scalar_from ::
  "bytes \<Rightarrow> nat \<Rightarrow> seqcdc_config \<Rightarrow> nat \<Rightarrow> u16 \<Rightarrow> u16 \<Rightarrow> nat option" where
  "cut_scalar_from bytes scan_size config position opposing_slopes sequence =
     (if position < scan_size then
        Option.bind (index_before bytes position) (\<lambda>previous.
        Option.bind (index_at bytes position) (\<lambda>current.
        let position = position + 1 in
        if current = previous then cut_scalar_from bytes scan_size config position opposing_slopes sequence
        else
          let opposing_slopes = (if current < previous then opposing_slopes + 1 else opposing_slopes);
              sequence = (if current < previous then 0 else sequence + 1)
          in if sequence = sequence_length config then Some (position - 1)
             else if opposing_slopes = skip_trigger config then
               cut_scalar_from bytes scan_size config (usize_saturating_add position (skip_bytes config)) 0 sequence
             else cut_scalar_from bytes scan_size config position opposing_slopes sequence))
      else Some scan_size)"

definition seqcdc_cut_scalar :: "bytes \<Rightarrow> seqcdc_config \<Rightarrow> nat option" where
  "seqcdc_cut_scalar bytes config =
     (if \<not> validate config then None
      else if length bytes < minimum_bytes config then Some (length bytes)
      else let scan_size = min (length bytes) (maximum_bytes config)
           in cut_scalar_from bytes scan_size config (minimum_bytes config) 0 0)"

definition loadu :: "nat \<Rightarrow> bytes \<Rightarrow> nat \<Rightarrow> bytes option" where
  "loadu width bytes offset =
     (if offset + width \<le> length bytes then Some (slice offset width bytes) else None)"

definition classify_avx2_bmi2 :: "bytes \<Rightarrow> bytes \<Rightarrow> seqcdc_config \<Rightarrow> u16 \<Rightarrow> u16 \<Rightarrow> vector_decision" where
  "classify_avx2_bmi2 previous current config opposing_slopes sequence =
     (let bias = 128;
          previous = map (\<lambda>byte. byte XOR bias) previous;
          current = map (\<lambda>byte. byte XOR bias) current;
          greater_lanes = word_of_bits (map2 (\<lambda>c p. p <s c) current previous);
          lesser = word_of_bits (map2 (\<lambda>p c. c <s p) previous current)
      in classify_masks greater_lanes lesser config opposing_slopes sequence)"

definition classify_avx512 :: "bytes \<Rightarrow> bytes \<Rightarrow> seqcdc_config \<Rightarrow> u16 \<Rightarrow> u16 \<Rightarrow> vector_decision" where
  "classify_avx512 previous current config opposing sequence =
     (let greater_lanes = word_of_bits (map2 (\<lambda>c p. p < c) current previous) :: u64;
          lesser = word_of_bits (map2 (\<lambda>p c. c < p) previous current) :: u64
      in if greater_lanes OR lesser = 0 then Advance opposing sequence 64
         else
           let low = (\<lambda>bits :: u64. ucast (bits AND 0xFFFFFFFF) :: u32)
           in case classify_masks (low greater_lanes) (low lesser) config opposing sequence of
                Advance opposing sequence _ \<Rightarrow>
                  Advance opposing sequence (if drop_bit 32 (greater_lanes OR lesser) = 0 then 64 else 32)
              | Boundary lane \<Rightarrow> Boundary lane
              | Skip lane \<Rightarrow> Skip lane)"

partial_function (option) cut_vector_from ::
  "nat \<Rightarrow> (bytes \<Rightarrow> bytes \<Rightarrow> seqcdc_config \<Rightarrow> u16 \<Rightarrow> u16 \<Rightarrow> vector_decision) \<Rightarrow>
   bytes \<Rightarrow> nat \<Rightarrow> seqcdc_config \<Rightarrow> nat \<Rightarrow> u16 \<Rightarrow> u16 \<Rightarrow> nat option" where
  "cut_vector_from width classify bytes scan_size config position opposing_slopes sequence =
     (if usize_saturating_add position width \<le> scan_size then
        Option.bind (if position = 0 then None else loadu width bytes (position - 1)) (\<lambda>previous.
        Option.bind (loadu width bytes position) (\<lambda>current.
        case classify previous current config opposing_slopes sequence of
          Boundary lane \<Rightarrow> Some (position + lane)
        | Skip lane \<Rightarrow>
            cut_vector_from width classify bytes scan_size config
              (usize_saturating_add (usize_saturating_add position (lane + 1)) (skip_bytes config)) 0 0
        | Advance opposing sequence consumed \<Rightarrow>
            cut_vector_from width classify bytes scan_size config (position + consumed) opposing sequence))
      else cut_scalar_from bytes scan_size config position opposing_slopes sequence)"

definition cut_avx2_bmi2 :: "bytes \<Rightarrow> seqcdc_config \<Rightarrow> nat option" where
  "cut_avx2_bmi2 bytes config =
     (if \<not> validate config then None
      else if length bytes < minimum_bytes config then Some (length bytes)
      else let scan_size = min (length bytes) (maximum_bytes config)
           in cut_vector_from 32 classify_avx2_bmi2 bytes scan_size config (minimum_bytes config) 0 0)"

definition cut_avx512 :: "bytes \<Rightarrow> seqcdc_config \<Rightarrow> nat option" where
  "cut_avx512 bytes config =
     (if \<not> validate config then None
      else if length bytes < minimum_bytes config then Some (length bytes)
      else let scan_size = min (length bytes) (maximum_bytes config)
           in cut_vector_from 64 classify_avx512 bytes scan_size config (minimum_bytes config) 0 0)"

definition seqcdc_cut :: "bool \<Rightarrow> bool \<Rightarrow> bytes \<Rightarrow> seqcdc_config \<Rightarrow> nat option" where
  "seqcdc_cut avx512_available avx2_bmi2_available bytes config =
     (if avx512_available \<and> flat_probe bytes (minimum_bytes config) then cut_avx512 bytes config
      else if avx2_bmi2_available then cut_avx2_bmi2 bytes config
      else seqcdc_cut_scalar bytes config)"

text \<open>A loop whose body is left with a result (\<open>Inl\<close>) or goes on with a new state (\<open>Inr\<close>).\<close>

partial_function (option) iterate :: "('st \<Rightarrow> ('r + 'st) option) \<Rightarrow> 'st \<Rightarrow> 'r option" where
  "iterate body st = Option.bind (body st) (\<lambda>out. case out of Inl r \<Rightarrow> Some r | Inr st \<Rightarrow> iterate body st)"

text \<open>The inner loop over one segment. Its state is the position in the input, the position in the
  segment, the byte before it and the two counters. It ends with the boundary (\<open>Inl\<close>), or with the
  position and the counters at which the segment is left (\<open>Inr\<close>).\<close>

type_synonym segment_exit = "nat + nat \<times> u16 \<times> u16"
type_synonym segment_state = "nat \<times> nat \<times> u8 \<times> u16 \<times> u16"

text \<open>Going on after a skip to \<open>position\<close>, inside the segment or behind it.\<close>

definition segment_skip ::
  "bytes \<Rightarrow> nat \<Rightarrow> nat \<Rightarrow> nat \<Rightarrow> nat \<Rightarrow> (segment_exit + segment_state) option" where
  "segment_skip segment segment_start segment_end scan_size position =
     (if position \<ge> scan_size then Some (Inl (Inl scan_size))
      else if position \<ge> segment_end then Some (Inl (Inr (position, 0, 0)))
      else
        let local = position - segment_start in
        Option.bind (index_before segment local) (\<lambda>previous. Some (Inr (position, local, previous, 0, 0))))"

definition segment_vector_step ::
  "seqcdc_config \<Rightarrow> bool \<Rightarrow> bytes \<Rightarrow> nat \<Rightarrow> nat \<Rightarrow> nat \<Rightarrow> nat \<Rightarrow> nat \<Rightarrow> u16 \<Rightarrow> u16 \<Rightarrow>
   (segment_exit + segment_state) option" where
  "segment_vector_step config wide segment segment_start segment_end scan_size position local opposing_slopes sequence =
     (let vector_width = (if wide then 64 else 32) in
      Option.bind (loadu vector_width segment (local - 1)) (\<lambda>before.
      Option.bind (loadu vector_width segment local) (\<lambda>after.
      case (if wide then classify_avx512 else classify_avx2_bmi2) before after config opposing_slopes sequence of
        Boundary lane \<Rightarrow> Some (Inl (Inl (position + lane)))
      | Skip lane \<Rightarrow>
          segment_skip segment segment_start segment_end scan_size
            (usize_saturating_add (usize_saturating_add position (lane + 1)) (skip_bytes config))
      | Advance opposing sequence consumed \<Rightarrow>
          Option.bind (index_before segment (local + consumed)) (\<lambda>previous.
            Some (Inr (position + consumed, local + consumed, previous, opposing, sequence))))))"

definition segment_scalar_step ::
  "seqcdc_config \<Rightarrow> bytes \<Rightarrow> nat \<Rightarrow> nat \<Rightarrow> nat \<Rightarrow> nat \<Rightarrow> nat \<Rightarrow> u8 \<Rightarrow> u16 \<Rightarrow> u16 \<Rightarrow>
   (segment_exit + segment_state) option" where
  "segment_scalar_step config segment segment_start segment_end scan_size position local previous opposing_slopes sequence =
     Option.bind (index_at segment local) (\<lambda>current.
     let position = position + 1;
         local = local + 1 in
     if current \<noteq> previous then
       let opposing_slopes = (if current < previous then opposing_slopes + 1 else opposing_slopes);
           sequence = (if current < previous then 0 else sequence + 1)
       in if sequence = sequence_length config then Some (Inl (Inl (position - 1)))
          else if opposing_slopes = skip_trigger config then
            segment_skip segment segment_start segment_end scan_size
              (usize_saturating_add position (skip_bytes config))
          else Some (Inr (position, local, current, opposing_slopes, sequence))
     else Some (Inr (position, local, current, opposing_slopes, sequence)))"

definition segment_body ::
  "seqcdc_config \<Rightarrow> bool \<Rightarrow> bool \<Rightarrow> bytes \<Rightarrow> nat \<Rightarrow> nat \<Rightarrow> nat \<Rightarrow> segment_state \<Rightarrow>
   (segment_exit + segment_state) option" where
  "segment_body config vector wide segment segment_start segment_end scan_size =
     (\<lambda>(position, local, previous, opposing_slopes, sequence).
      if position < segment_end \<and> position < scan_size then
        let vector_width = (if wide then 64 else 32) in
        if vector \<and> local \<noteq> 0 \<and> usize_saturating_add local vector_width \<le> length segment
             \<and> usize_saturating_add position vector_width \<le> scan_size
        then segment_vector_step config wide segment segment_start segment_end scan_size position local
               opposing_slopes sequence
        else segment_scalar_step config segment segment_start segment_end scan_size position local previous
               opposing_slopes sequence
      else Some (Inl (Inr (position, opposing_slopes, sequence))))"

fun cut_segments ::
  "bool \<Rightarrow> seqcdc_config \<Rightarrow> bool \<Rightarrow> nat \<Rightarrow> bytes list \<Rightarrow> nat \<Rightarrow> u16 \<Rightarrow> u16 \<Rightarrow> nat \<Rightarrow> u8 option \<Rightarrow> nat option" where
  "cut_segments avx512_available config vector scan_size [] position opposing_slopes sequence segment_start previous_segment_byte =
     (if segment_start \<ge> scan_size then Some scan_size else None)"
| "cut_segments avx512_available config vector scan_size (segment # segments) position opposing_slopes sequence segment_start
     previous_segment_byte =
     Option.bind (usize_checked_add segment_start (length segment)) (\<lambda>segment_end.
       let last_byte = (if segment = [] then previous_segment_byte else Some (last segment)) in
       if position \<ge> segment_end then
         cut_segments avx512_available config vector scan_size segments position opposing_slopes sequence segment_end last_byte
       else if position < segment_start then None
       else
         let local = position - segment_start in
         Option.bind (if local = 0 then previous_segment_byte else index_before segment local) (\<lambda>previous.
         let wide = vector \<and> avx512_available \<and> flat_probe segment local in
         Option.bind (iterate (segment_body config vector wide segment segment_start segment_end scan_size)
                        (position, local, previous, opposing_slopes, sequence)) (\<lambda>left.
         case left of
           Inl boundary \<Rightarrow> Some boundary
         | Inr (position, opposing_slopes, sequence) \<Rightarrow>
             if position \<ge> scan_size then Some scan_size
             else cut_segments avx512_available config vector scan_size segments position opposing_slopes sequence
                    segment_end last_byte)))"

definition cut_segmented :: "bool \<Rightarrow> bytes list \<Rightarrow> nat \<Rightarrow> seqcdc_config \<Rightarrow> bool \<Rightarrow> nat option" where
  "cut_segmented avx512_available segments total_bytes config vector =
     (if \<not> validate config then None
      else if total_bytes < minimum_bytes config then Some total_bytes
      else let scan_size = min total_bytes (maximum_bytes config)
           in cut_segments avx512_available config vector scan_size segments (minimum_bytes config) 0 0 0 None)"

definition seqcdc_cut_segmented :: "bool \<Rightarrow> bool \<Rightarrow> bytes list \<Rightarrow> nat \<Rightarrow> seqcdc_config \<Rightarrow> nat option" where
  "seqcdc_cut_segmented avx512_available avx2_bmi2_available segments total_bytes config =
     cut_segmented avx512_available segments total_bytes config avx2_bmi2_available"

definition seqcdc_cut_segmented_scalar :: "bytes list \<Rightarrow> nat \<Rightarrow> seqcdc_config \<Rightarrow> nat option" where
  "seqcdc_cut_segmented_scalar segments total_bytes config = cut_segmented False segments total_bytes config False"

section \<open>The scan of a window\<close>

text \<open>The lanes of a window, each with the byte before it, scanned one after the other.\<close>

fun lane_scan :: "seqcdc_config \<Rightarrow> nat \<Rightarrow> (u8 \<times> u8) list \<Rightarrow> u16 \<Rightarrow> u16 \<Rightarrow> vector_decision" where
  "lane_scan c i [] opp sqn = Advance opp sqn i"
| "lane_scan c i ((previous, current) # lanes) opp sqn =
     (if current = previous then lane_scan c (Suc i) lanes opp sqn
      else
        let opp = (if current < previous then opp + 1 else opp);
            sqn = (if current < previous then 0 else sqn + 1)
        in if sqn = sequence_length c then Boundary i
           else if opp = skip_trigger c then Skip i
           else lane_scan c (Suc i) lanes opp sqn)"

text \<open>The counters between two lanes: neither has reached its bound.\<close>

definition counters_ok :: "seqcdc_config \<Rightarrow> u16 \<Rightarrow> u16 \<Rightarrow> bool" where
  "counters_ok c opp sqn \<longleftrightarrow> opp < skip_trigger c \<and> sqn < sequence_length c"

fun lane_slopes :: "nat \<Rightarrow> (u8 \<times> u8) list \<Rightarrow> (nat \<times> bool) list" where
  "lane_slopes i [] = []"
| "lane_slopes i ((previous, current) # lanes) =
     (if current = previous then lane_slopes (Suc i) lanes else (i, previous < current) # lane_slopes (Suc i) lanes)"

text \<open>What the scalar loop does after a decision about the window at \<open>position\<close>.\<close>

definition after_decision :: "bytes \<Rightarrow> nat \<Rightarrow> seqcdc_config \<Rightarrow> nat \<Rightarrow> vector_decision \<Rightarrow> nat option" where
  "after_decision bytes scan_size c position d =
     (case d of
        Boundary lane \<Rightarrow> Some (position + lane)
      | Skip lane \<Rightarrow> cut_scalar_from bytes scan_size c (usize_saturating_add (position + lane + 1) (skip_bytes c)) 0 0
      | Advance opp sqn n \<Rightarrow> cut_scalar_from bytes scan_size c (position + n) opp sqn)"

definition window :: "bytes \<Rightarrow> nat \<Rightarrow> nat \<Rightarrow> (u8 \<times> u8) list" where
  "window bytes position n = zip (slice (position - 1) n bytes) (slice position n bytes)"

text \<open>What one pass through the inner loop makes of a decision about the window at \<open>position\<close>.\<close>

definition segment_decide ::
  "bytes \<Rightarrow> nat \<Rightarrow> nat \<Rightarrow> nat \<Rightarrow> seqcdc_config \<Rightarrow> nat \<Rightarrow> nat \<Rightarrow> vector_decision \<Rightarrow> (segment_exit + segment_state) option" where
  "segment_decide segment start seg_end scan_size c position local d =
     (case d of
        Boundary k \<Rightarrow> Some (Inl (Inl (position + k)))
      | Skip k \<Rightarrow> segment_skip segment start seg_end scan_size (usize_saturating_add (position + k + 1) (skip_bytes c))
      | Advance opp sqn n \<Rightarrow> Some (Inr (position + n, local + n, segment ! (local + n - 1), opp, sqn)))"

text \<open>How a segment is left: with what the scalar loop over the whole input returns, or behind the
  segment in a state from which the scalar loop returns the same.\<close>

definition exit_ok :: "bytes \<Rightarrow> nat \<Rightarrow> seqcdc_config \<Rightarrow> nat \<Rightarrow> nat option \<Rightarrow> segment_exit \<Rightarrow> bool" where
  "exit_ok bytes scan_size c seg_end r ex \<longleftrightarrow>
     (case ex of
        Inl boundary \<Rightarrow> r = Some boundary
      | Inr (p, opp, sqn) \<Rightarrow> r = cut_scalar_from bytes scan_size c p opp sqn \<and> counters_ok c opp sqn \<and>
          (seg_end \<le> p \<or> scan_size \<le> p) \<and> 0 < p)"

definition sample_config :: seqcdc_config where
  "sample_config = \<lparr>sequence_length = 3, skip_trigger = 2, skip_bytes = 2, minimum_bytes = 1, maximum_bytes = 64\<rparr>"

section \<open>Lemmas: the window and the scalar loop\<close>

lemma counters_ok_zero: "validate c \<Longrightarrow> counters_ok c 0 0"
  by (simp add: validate_def counters_ok_def word_neq_0_conv)

lemma counters_ok_next:
  assumes "counters_ok c opp sqn"
  shows "opp + 1 \<noteq> skip_trigger c \<Longrightarrow> 0 < sequence_length c \<Longrightarrow> counters_ok c (opp + 1) 0"
    and "sqn + 1 \<noteq> sequence_length c \<Longrightarrow> counters_ok c opp (sqn + 1)"
  using assms unfolding counters_ok_def
  by (auto simp: word_less_nat_alt unat_word_ariths word_unat_eq_iff mod_Suc)

lemma length_window [simp]: "position + n \<le> length bytes \<Longrightarrow> length (window bytes position n) = n"
  by (simp add: window_def slice_def)

lemma window_nth:
  assumes "0 < position" and "position + n \<le> length bytes" and "j < n"
  shows "window bytes position n ! j = (bytes ! (position + j - 1), bytes ! (position + j))"
  using assms by (simp add: window_def slice_def)

lemma lane_scan_lanes:
  "lane_scan c i lanes opp sqn = Boundary k \<Longrightarrow> i \<le> k \<and> k < i + length lanes"
  "lane_scan c i lanes opp sqn = Skip k \<Longrightarrow> i \<le> k \<and> k < i + length lanes"
  "lane_scan c i lanes opp sqn = Advance opp' sqn' n \<Longrightarrow> n = i + length lanes"
  by (induction c i lanes opp sqn rule: lane_scan.induct) (force simp: Let_def split: if_splits)+

lemma lane_scan_counters:
  "lane_scan c i lanes opp sqn = Advance opp' sqn' n \<Longrightarrow> counters_ok c opp sqn \<Longrightarrow> counters_ok c opp' sqn'"
proof (induction c i lanes opp sqn rule: lane_scan.induct)
  case (2 c i previous current lanes opp sqn)
  have pos: "0 < sequence_length c" using 2(4) by (auto simp: counters_ok_def intro: le_less_trans)
  show ?case
    using 2 counters_ok_next [OF 2(4)] pos by (auto simp: Let_def split: if_splits)
qed simp

lemma scalar_window:
  assumes "counters_ok c opp sqn" and "0 < position" and "position + length lanes \<le> scan_size" and "scan_size \<le> length bytes"
    and "\<And>j. j < length lanes \<Longrightarrow> lanes ! j = (bytes ! (position + j - 1), bytes ! (position + j))"
    and "i \<le> position"
  shows "cut_scalar_from bytes scan_size c position opp sqn =
    after_decision bytes scan_size c (position - i) (lane_scan c i lanes opp sqn)"
  using assms
proof (induction lanes arbitrary: position i opp sqn)
  case Nil
  then show ?case by (simp add: after_decision_def)
next
  case (Cons x lanes)
  obtain previous current where x: "x = (previous, current)" by (cases x)
  have bytes: "bytes ! (position - 1) = previous" "bytes ! position = current"
    using Cons.prems(5) [of 0] x by simp_all
  have rest: "lanes ! j = (bytes ! (position + 1 + j - 1), bytes ! (position + 1 + j))" if "j < length lanes" for j
    using Cons.prems(5) [of "Suc j"] that by simp
  have IH: "cut_scalar_from bytes scan_size c (position + 1) opp' sqn' =
      after_decision bytes scan_size c (position - i) (lane_scan c (Suc i) lanes opp' sqn')"
    if "counters_ok c opp' sqn'" for opp' sqn'
    using Cons.IH [OF that, of "position + 1" "Suc i"] Cons.prems rest by simp
  have run: "index_before bytes position = Some previous" "index_at bytes position = Some current" "position < scan_size"
    using Cons.prems bytes by (auto simp: index_before_def index_at_def)
  have pos: "0 < sequence_length c" using Cons.prems(1) by (auto simp: counters_ok_def intro: le_less_trans)
  show ?case
    using IH counters_ok_next [OF Cons.prems(1)] pos Cons.prems(1,6) run x
    by (subst cut_scalar_from.simps) (auto simp: Let_def after_decision_def counters_ok_def)
qed

lemma scalar_window_at:
  assumes "counters_ok c opp sqn" and "0 < position" and "position + n \<le> scan_size" and "scan_size \<le> length bytes"
  shows "cut_scalar_from bytes scan_size c position opp sqn =
    after_decision bytes scan_size c position (lane_scan c 0 (window bytes position n) opp sqn)"
  using scalar_window [OF assms(1,2), of "window bytes position n" scan_size bytes 0] assms
  by (simp add: window_nth)

text \<open>The scalar loop returns, and it returns a position from the start on and not behind the end.\<close>

lemma scalar_returns:
  assumes "validate c" and "scan_size \<le> length bytes" and "scan_size < 2 ^ 63"
  shows "counters_ok c opp sqn \<Longrightarrow> 0 < position \<Longrightarrow>
    \<exists>r. cut_scalar_from bytes scan_size c position opp sqn = Some r \<and> r \<le> scan_size \<and> (position \<le> scan_size \<longrightarrow> position \<le> r)"
proof (induction "scan_size - position" arbitrary: position opp sqn rule: less_induct)
  case less
  show ?case
  proof (cases "position < scan_size")
    case False
    then show ?thesis by (subst cut_scalar_from.simps) simp
  next
    case True
    have run: "cut_scalar_from bytes scan_size c position opp sqn =
        after_decision bytes scan_size c position (lane_scan c 0 (window bytes position 1) opp sqn)"
      using scalar_window_at [OF less.prems, of 1 scan_size bytes] True assms(2) by simp
    have len: "length (window bytes position 1) = 1" using True assms(2) by simp
    show ?thesis
    proof (cases "lane_scan c 0 (window bytes position 1) opp sqn")
      case (Boundary k)
      with lane_scan_lanes(1) [OF Boundary] len True run show ?thesis by (simp add: after_decision_def)
    next
      case (Skip k)
      let ?p = "usize_saturating_add (position + k + 1) (skip_bytes c)"
      have p: "position < ?p" using assms(3) True lane_scan_lanes(2) [OF Skip] len
        by (simp add: usize_saturating_add_def)
      have "scan_size - ?p < scan_size - position" using p True by simp
      from less.hyps [OF this counters_ok_zero [OF assms(1)]] p
      obtain r where r: "cut_scalar_from bytes scan_size c ?p 0 0 = Some r" "r \<le> scan_size" "?p \<le> scan_size \<longrightarrow> ?p \<le> r"
        by auto
      moreover have "r = scan_size" if "\<not> ?p \<le> scan_size"
        using r(1) that by (subst (asm) cut_scalar_from.simps) simp
      ultimately show ?thesis using Skip run p True by (auto simp: after_decision_def)
    next
      case (Advance opp' sqn' n)
      with lane_scan_lanes(3) [OF Advance] len have "n = 1" by simp
      have "scan_size - (position + 1) < scan_size - position" using True by simp
      from less.hyps [OF this lane_scan_counters [OF Advance less.prems(1)]] \<open>n = 1\<close> True Advance run
      show ?thesis by (force simp: after_decision_def)
    qed
  qed
qed

section \<open>Lemmas: the classifiers\<close>

lemma lane_scan_slopes:
  assumes "counters_ok c opp sqn"
  shows "lane_scan c i lanes opp sqn = slope_scan c (lane_slopes i lanes) opp sqn (i + length lanes)"
  using assms
proof (induction c i lanes opp sqn rule: lane_scan.induct)
  case (2 c i previous current lanes opp sqn)
  have pos: "0 < sequence_length c" using 2(3) by (auto simp: counters_ok_def intro: le_less_trans)
  then show ?case
    using 2 counters_ok_next [OF 2(3)] by (auto simp: Let_def)
qed simp

lemma lane_slopes_filter:
  "lane_slopes i lanes = map (\<lambda>j. (i + j, fst (lanes ! j) < snd (lanes ! j)))
     (filter (\<lambda>j. fst (lanes ! j) \<noteq> snd (lanes ! j)) [0..<length lanes])"
proof (induction i lanes rule: lane_slopes.induct)
  case (2 i previous current lanes)
  have "[0..<length ((previous, current) # lanes)] = 0 # map Suc [0..<length lanes]"
    by (simp add: upt_conv_Cons map_Suc_upt del: upt_Suc)
  then show ?case using 2 by (auto simp: filter_map o_def)
qed simp

text \<open>The two masks of a window of 32 lanes.\<close>

lemma mask_slopes_lanes:
  assumes len: "length lanes = 32"
    and g: "\<And>j. bit (g :: u32) j \<longleftrightarrow> j < 32 \<and> fst (lanes ! j) < snd (lanes ! j)"
    and l: "\<And>j. bit (l :: u32) j \<longleftrightarrow> j < 32 \<and> snd (lanes ! j) < fst (lanes ! j)"
  shows "g AND l = 0" and "mask_slopes g l = lane_slopes 0 lanes"
proof -
  show "g AND l = 0" by (rule bit_word_eqI) (auto simp: bit_simps g l)
  have "bit_positions (g OR l) = filter (\<lambda>j. fst (lanes ! j) \<noteq> snd (lanes ! j)) [0..<32]"
    unfolding bit_positions_def by (intro filter_cong) (auto simp: bit_simps g l)
  then show "mask_slopes g l = lane_slopes 0 lanes"
    by (auto simp: mask_slopes_def lane_slopes_filter len g)
qed

lemma classify_masks_lanes:
  assumes "validate c" and ok: "counters_ok c opp sqn" and len: "length lanes = 32"
    and g: "\<And>j. bit (g :: u32) j \<longleftrightarrow> j < 32 \<and> fst (lanes ! j) < snd (lanes ! j)"
    and l: "\<And>j. bit (l :: u32) j \<longleftrightarrow> j < 32 \<and> snd (lanes ! j) < fst (lanes ! j)"
  shows "classify_masks g l c opp sqn = lane_scan c 0 lanes opp sqn"
proof -
  have "unat (sequence_length c) \<le> 32"
    using assms(1) by (simp add: validate_def word_le_nat_alt)
  with ok show ?thesis
    by (simp add: classify_masks_scan mask_slopes_lanes [OF len g l] lane_scan_slopes len counters_ok_def word_less_nat_alt)
qed

lemma sint_bias: "sint (x XOR 128 :: u8) = uint x - 128"
proof -
  have "list_all (\<lambda>n. sint (word_of_nat n XOR 128 :: u8) = int n - 128) [0..<256]"
    by code_simp
  moreover have "unat x \<in> set [0..<256]" using unsigned_less [of x, where ?'a = nat] by simp
  ultimately have "sint (word_of_nat (unat x) XOR 128 :: u8) = int (unat x) - 128"
    unfolding list_all_iff by (rule bspec)
  then show ?thesis by simp
qed

lemma sless_bias: "(x XOR 128 :: u8) <s (y XOR 128) \<longleftrightarrow> x < y"
  by (simp add: word_sless_alt sint_bias word_less_def)

locale lane_classifier =
  fixes width :: nat and classify :: "bytes \<Rightarrow> bytes \<Rightarrow> seqcdc_config \<Rightarrow> u16 \<Rightarrow> u16 \<Rightarrow> vector_decision"
  assumes width_pos: "0 < width"
    and classify_lanes: "validate c \<Longrightarrow> counters_ok c opp sqn \<Longrightarrow> length before = width \<Longrightarrow> length after = width \<Longrightarrow>
      \<exists>n. 0 < n \<and> n \<le> width \<and> classify before after c opp sqn = lane_scan c 0 (take n (zip before after)) opp sqn"
begin

lemma classify_window:
  assumes "validate c" and "counters_ok c opp sqn" and "position + width \<le> length bytes"
  obtains n where "0 < n" and "n \<le> width"
    and "classify (slice (position - 1) width bytes) (slice position width bytes) c opp sqn =
      lane_scan c 0 (window bytes position n) opp sqn"
proof -
  have "length (slice (position - 1) width bytes) = width" "length (slice position width bytes) = width"
    using assms(3) by (simp_all add: slice_def)
  from classify_lanes [OF assms(1,2) this] obtain n where n: "0 < n" "n \<le> width"
    "classify (slice (position - 1) width bytes) (slice position width bytes) c opp sqn =
      lane_scan c 0 (take n (zip (slice (position - 1) width bytes) (slice position width bytes))) opp sqn" by blast
  moreover have "take n (zip (slice (position - 1) width bytes) (slice position width bytes)) = window bytes position n"
    using n(2) by (simp add: window_def slice_def take_zip min_absorb1)
  ultimately show ?thesis using that by simp
qed

text \<open>A vector loop returns what the scalar loop returns.\<close>

lemma cut_vector_scalar:
  assumes c: "validate c" and bytes: "scan_size \<le> length bytes" "scan_size < 2 ^ 63"
  shows "counters_ok c opp sqn \<Longrightarrow> 0 < position \<Longrightarrow>
    cut_vector_from width classify bytes scan_size c position opp sqn = cut_scalar_from bytes scan_size c position opp sqn"
proof (induction "scan_size - position" arbitrary: position opp sqn rule: less_induct)
  case less
  show ?case
  proof (cases "position + width \<le> scan_size")
    case False
    then have "\<not> usize_saturating_add position width \<le> scan_size"
      using bytes(2) by (simp add: usize_saturating_add_def)
    then show ?thesis by (subst cut_vector_from.simps) simp
  next
    case True
    have sat: "usize_saturating_add position width \<le> scan_size"
      using True bytes(2) by (simp add: usize_saturating_add_def)
    obtain n where n: "0 < n" "n \<le> width" "classify (slice (position - 1) width bytes) (slice position width bytes) c opp sqn =
        lane_scan c 0 (window bytes position n) opp sqn"
      using classify_window [OF c less.prems(1), of position bytes] True bytes(1) by auto
    have loads: "loadu width bytes (position - 1) = Some (slice (position - 1) width bytes)"
      "loadu width bytes position = Some (slice position width bytes)"
      using True bytes(1) by (simp_all add: loadu_def)
    have scalar: "cut_scalar_from bytes scan_size c position opp sqn =
        after_decision bytes scan_size c position (lane_scan c 0 (window bytes position n) opp sqn)"
      using scalar_window_at [OF less.prems, of n scan_size bytes] True n(2) bytes(1) by simp
    have len: "length (window bytes position n) = n" using True n(2) bytes(1) by simp
    show ?thesis
    proof (cases "lane_scan c 0 (window bytes position n) opp sqn")
      case (Boundary k)
      then show ?thesis using sat loads n(3) less.prems(2) scalar
        by (subst cut_vector_from.simps) (simp add: after_decision_def)
    next
      case (Skip k)
      then have k: "position + k + 1 \<le> scan_size" using lane_scan_lanes(2) [OF Skip] len True n(2) by simp
      let ?p = "usize_saturating_add (position + k + 1) (skip_bytes c)"
      have p: "usize_saturating_add (usize_saturating_add position (k + 1)) (skip_bytes c) = ?p" "position < ?p"
        using k bytes(2) by (simp_all add: usize_saturating_add_def)
      have "scan_size - ?p < scan_size - position" using p(2) k by simp
      from less.hyps [OF this counters_ok_zero [OF c]] p Skip sat loads n(3) less.prems(2) scalar show ?thesis
        by (subst cut_vector_from.simps) (simp add: after_decision_def)
    next
      case (Advance opp' sqn' m)
      with lane_scan_lanes(3) [OF Advance] len have m: "m = n" by simp
      have "scan_size - (position + n) < scan_size - position" using n True by simp
      from less.hyps [OF this lane_scan_counters [OF Advance less.prems(1)]] m Advance sat loads n(3) less.prems(2) scalar
      show ?thesis by (subst cut_vector_from.simps) (simp add: after_decision_def)
    qed
  qed
qed

end

interpretation avx2: lane_classifier 32 classify_avx2_bmi2
proof
  fix c opp sqn and before after :: bytes
  assume c: "validate c" "counters_ok c opp sqn" and len: "length before = 32" "length after = 32"
  have "classify_avx2_bmi2 before after c opp sqn = lane_scan c 0 (zip before after) opp sqn"
    unfolding classify_avx2_bmi2_def Let_def
    by (rule classify_masks_lanes [OF c]) (auto simp: len bit_word_of_bits sless_bias)
  then show "\<exists>n. 0 < n \<and> n \<le> 32 \<and> classify_avx2_bmi2 before after c opp sqn = lane_scan c 0 (take n (zip before after)) opp sqn"
    by (intro exI [of _ 32]) (simp add: len)
qed simp

lemma lane_scan_equal:
  "list_all (\<lambda>(previous, current). current = previous) lanes \<Longrightarrow> lane_scan c i lanes opp sqn = Advance opp sqn (i + length lanes)"
  by (induction c i lanes opp sqn rule: lane_scan.induct) auto

lemma lane_scan_append_equal:
  assumes "lane_scan c i xs opp sqn = Advance opp' sqn' n" and "list_all (\<lambda>(previous, current). current = previous) ys"
  shows "lane_scan c i (xs @ ys) opp sqn = Advance opp' sqn' (n + length ys)"
  using assms
  by (induction c i xs opp sqn rule: lane_scan.induct) (auto simp: Let_def lane_scan_equal split: if_splits)

lemma classify_avx512_lanes:
  assumes c: "validate c" "counters_ok c opp sqn" and len: "length before = 64" "length after = 64"
  shows "\<exists>n. 0 < n \<and> n \<le> 64 \<and> classify_avx512 before after c opp sqn = lane_scan c 0 (take n (zip before after)) opp sqn"
proof -
  define lanes where "lanes = zip before after"
  define g :: u64 where "g = word_of_bits (map2 (\<lambda>c p. p < c) after before)"
  define l :: u64 where "l = word_of_bits (map2 (\<lambda>p c. c < p) before after)"
  define low where "low = (\<lambda>bits :: u64. ucast (bits AND 0xFFFFFFFF) :: u32)"
  have lanes: "length lanes = 64" by (simp add: lanes_def len)
  have g: "bit g j \<longleftrightarrow> j < 64 \<and> fst (lanes ! j) < snd (lanes ! j)" for j
    by (auto simp: g_def bit_word_of_bits len lanes_def)
  have l: "bit l j \<longleftrightarrow> j < 64 \<and> snd (lanes ! j) < fst (lanes ! j)" for j
    by (auto simp: l_def bit_word_of_bits len lanes_def)
  have "low = (\<lambda>bits. ucast (bits AND mask 32))" by (simp add: low_def mask_numeral)
  then have low: "bit (low w) j \<longleftrightarrow> j < 32 \<and> bit w j" for w j
    by (auto simp: bit_simps)
  have half: "classify_masks (low g) (low l) c opp sqn = lane_scan c 0 (take 32 lanes) opp sqn"
    by (rule classify_masks_lanes [OF c]) (auto simp: low g l lanes)
  have code: "classify_avx512 before after c opp sqn =
      (if g OR l = 0 then Advance opp sqn 64
       else case classify_masks (low g) (low l) c opp sqn of
              Advance opposing sequence _ \<Rightarrow> Advance opposing sequence (if drop_bit 32 (g OR l) = 0 then 64 else 32)
            | Boundary lane \<Rightarrow> Boundary lane | Skip lane \<Rightarrow> Skip lane)"
    by (simp add: classify_avx512_def Let_def g_def [symmetric] l_def [symmetric] low_def)
  have equal: "(\<lambda>(p, q). q = p) (lanes ! j)" if "\<not> bit (g OR l) j" "j < 64" for j
    using that by (auto simp: bit_simps g l case_prod_beta)
  consider (flat) "g OR l = 0"
    | (early) "\<And>o' s' n. lane_scan c 0 (take 32 lanes) opp sqn \<noteq> Advance o' s' n" "g OR l \<noteq> 0"
    | (on) o' s' where "lane_scan c 0 (take 32 lanes) opp sqn = Advance o' s' 32" "g OR l \<noteq> 0"
    using lane_scan_lanes(3) [of c 0 "take 32 lanes" opp sqn] lanes by fastforce
  then have "\<exists>n. 0 < n \<and> n \<le> 64 \<and> classify_avx512 before after c opp sqn = lane_scan c 0 (take n lanes) opp sqn"
  proof cases
    case flat
    then have "list_all (\<lambda>(p, q). q = p) lanes" using equal by (simp add: list_all_length lanes)
    with flat show ?thesis by (intro exI [of _ 64]) (simp add: code lane_scan_equal lanes)
  next
    case early
    then show ?thesis by (intro exI [of _ 32]) (auto simp: code half split: vector_decision.splits)
  next
    case on
    show ?thesis
    proof (cases "drop_bit 32 (g OR l) = 0")
      case True
      have "list_all (\<lambda>(p, q). q = p) (drop 32 lanes)"
        unfolding list_all_length
      proof (intro allI impI)
        fix j assume j: "j < length (drop 32 lanes)"
        have "\<not> bit (drop_bit 32 (g OR l)) j" using True by simp
        then have "\<not> bit (g OR l) (32 + j)" by (simp add: bit_simps add.commute)
        from equal [OF this] j lanes show "case drop 32 lanes ! j of (p, q) \<Rightarrow> q = p" by simp
      qed
      from lane_scan_append_equal [OF on(1) this] on True show ?thesis
        by (intro exI [of _ 64]) (simp add: code half lanes)
    next
      case False
      with on show ?thesis by (intro exI [of _ 32]) (simp add: code half)
    qed
  qed
  then show ?thesis by (simp add: lanes_def)
qed

interpretation avx512: lane_classifier 64 classify_avx512
  by unfold_locales (simp_all add: classify_avx512_lanes)

section \<open>Lemmas: input in segments\<close>

lemma slice_middle:
  "local + n \<le> length segment \<Longrightarrow> slice (length pre + local) n (pre @ segment @ post) = slice local n segment"
  by (simp add: slice_def)

lemma nth_middle: "0 < l \<Longrightarrow> l \<le> length segment \<Longrightarrow> (pre @ segment @ post) ! (length pre + l - 1) = segment ! (l - 1)"
  by (cases l) (simp_all add: nth_append)

lemma segment_vector_step_decide:
  assumes c: "validate c" "counters_ok c opp sqn" and bytes: "bytes = pre @ segment @ post" "length bytes < 2 ^ 63"
    and local: "0 < local" "local + (if wide then 64 else 32) \<le> length segment" and position: "position = length pre + local"
  shows "\<exists>n. 0 < n \<and> local + n \<le> length segment \<and> n \<le> (if wide then 64 else 32) \<and>
    segment_vector_step c wide segment start seg_end scan_size position local opp sqn =
      segment_decide segment start seg_end scan_size c position local (lane_scan c 0 (window bytes position n) opp sqn)"
proof -
  define w where "w = (if wide then 64 else 32 :: nat)"
  define classify where "classify = (if wide then classify_avx512 else classify_avx2_bmi2)"
  have lane: "lane_classifier w classify"
    by (simp add: w_def classify_def avx2.lane_classifier_axioms avx512.lane_classifier_axioms)
  have fit: "local + w \<le> length segment" using local(2) by (simp add: w_def)
  have seg: "slice (position - 1) w bytes = slice (local - 1) w segment" "slice position w bytes = slice local w segment"
    using slice_middle [of "local - 1" w segment pre post] slice_middle [of local w segment pre post] fit local(1) position
    by (simp_all add: bytes(1))
  have "position + w \<le> length bytes" using fit by (simp add: position bytes(1))
  then obtain n where n: "0 < n" "n \<le> w" "classify (slice (local - 1) w segment) (slice local w segment) c opp sqn =
      lane_scan c 0 (window bytes position n) opp sqn"
    using lane_classifier.classify_window [OF lane c, of position bytes] seg by auto
  have loads: "loadu w segment (local - 1) = Some (slice (local - 1) w segment)" "loadu w segment local = Some (slice local w segment)"
    using fit by (simp_all add: loadu_def)
  have len: "length (window bytes position n) = n" using fit n(2) by (simp add: position bytes(1))
  have step: "segment_vector_step c wide segment start seg_end scan_size position local opp sqn =
      (case lane_scan c 0 (window bytes position n) opp sqn of
         Boundary lane \<Rightarrow> Some (Inl (Inl (position + lane)))
       | Skip lane \<Rightarrow> segment_skip segment start seg_end scan_size
           (usize_saturating_add (usize_saturating_add position (lane + 1)) (skip_bytes c))
       | Advance opposing sequence consumed \<Rightarrow>
           Option.bind (index_before segment (local + consumed)) (\<lambda>previous.
             Some (Inr (position + consumed, local + consumed, previous, opposing, sequence))))"
    by (simp add: segment_vector_step_def w_def [symmetric] classify_def [symmetric] loads n(3) del: One_nat_def)
  have "segment_vector_step c wide segment start seg_end scan_size position local opp sqn =
      segment_decide segment start seg_end scan_size c position local (lane_scan c 0 (window bytes position n) opp sqn)"
    unfolding step segment_decide_def
    using lane_scan_lanes [of c 0 "window bytes position n" opp sqn] len n(1,2) fit bytes position
    by (auto simp: index_before_def usize_saturating_add_def split: vector_decision.splits)
  with n fit show ?thesis by (auto simp: w_def)
qed

lemma segment_scalar_step_decide:
  assumes c: "counters_ok c opp sqn" and bytes: "bytes = pre @ segment @ post"
    and local: "local < length segment" and position: "position = length pre + local" "0 < position"
    and previous: "previous = bytes ! (position - 1)"
  shows "segment_scalar_step c segment start seg_end scan_size position local previous opp sqn =
      segment_decide segment start seg_end scan_size c position local (lane_scan c 0 (window bytes position 1) opp sqn)"
proof -
  have cur: "segment ! local = bytes ! position" using local by (simp add: bytes position nth_append)
  have "length (window bytes position 1) = 1" using local by (simp add: bytes position)
  moreover have "window bytes position 1 ! 0 = (previous, segment ! local)"
    using window_nth [of position 1 bytes 0] local position previous cur by (simp add: bytes)
  ultimately have "window bytes position 1 = [(previous, segment ! local)]"
    by (metis One_nat_def length_0_conv length_Suc_conv nth_Cons_0)
  then show ?thesis
    using local c
    by (auto simp: segment_scalar_step_def segment_decide_def index_at_def Let_def counters_ok_def)
qed

lemma scalar_end: "scan_size \<le> position \<Longrightarrow> cut_scalar_from bytes scan_size c position opp sqn = Some scan_size"
  by (subst cut_scalar_from.simps) simp

lemma segment_body_decide:
  assumes c: "validate c" "counters_ok c opp sqn" and bytes: "bytes = pre @ segment @ post" "length bytes < 2 ^ 63"
    and local: "local < length segment" and position: "position = length pre + local" "0 < position" "position < scan_size"
    and size: "scan_size \<le> length bytes" and previous: "previous = bytes ! (position - 1)"
  obtains n where "0 < n" and "local + n \<le> length segment" and "position + n \<le> scan_size"
    and "segment_body c vector wide segment (length pre) (length pre + length segment) scan_size
        (position, local, previous, opp, sqn) =
      segment_decide segment (length pre) (length pre + length segment) scan_size c position local
        (lane_scan c 0 (window bytes position n) opp sqn)"
proof -
  let ?w = "if wide then 64 else 32 :: nat"
  have inside: "position < length pre + length segment" using local position by simp
  have sat: "usize_saturating_add local ?w \<le> length segment \<longleftrightarrow> local + ?w \<le> length segment"
    "usize_saturating_add position ?w \<le> scan_size \<longleftrightarrow> position + ?w \<le> scan_size"
    using bytes size by (auto simp: usize_saturating_add_def)
  show ?thesis
  proof (cases "vector \<and> local \<noteq> 0 \<and> local + ?w \<le> length segment \<and> position + ?w \<le> scan_size")
    case True
    then obtain n where n: "0 < n" "local + n \<le> length segment" "n \<le> ?w"
      "segment_vector_step c wide segment (length pre) (length pre + length segment) scan_size position local opp sqn =
        segment_decide segment (length pre) (length pre + length segment) scan_size c position local
          (lane_scan c 0 (window bytes position n) opp sqn)"
      using segment_vector_step_decide [OF c bytes, of local wide position "length pre" "length pre + length segment" scan_size]
        position(1) by auto
    show ?thesis
    proof (rule that [OF n(1,2)])
      show "position + n \<le> scan_size" using n(3) True by linarith
      show "segment_body c vector wide segment (length pre) (length pre + length segment) scan_size
          (position, local, previous, opp, sqn) =
        segment_decide segment (length pre) (length pre + length segment) scan_size c position local
          (lane_scan c 0 (window bytes position n) opp sqn)"
        unfolding n(4) [symmetric] segment_body_def Let_def prod.case sat using True inside position(3) by (simp only: simp_thms if_True)
    qed
  next
    case False
    show ?thesis
    proof (rule that [of 1])
      show "segment_body c vector wide segment (length pre) (length pre + length segment) scan_size
          (position, local, previous, opp, sqn) =
        segment_decide segment (length pre) (length pre + length segment) scan_size c position local
          (lane_scan c 0 (window bytes position 1) opp sqn)"
        unfolding segment_scalar_step_decide [OF c(2) bytes(1) local position(1,2) previous, symmetric] segment_body_def Let_def
          prod.case sat
        using False inside position(3) by (simp only: simp_thms if_True if_False)
    qed (use local position in simp_all)
  qed
qed

lemma segment_iterate:
  assumes c: "validate c" and bytes: "bytes = pre @ segment @ post" "length bytes < 2 ^ 63" and size: "scan_size \<le> length bytes"
    and body_def: "body = segment_body c vector wide segment (length pre) (length pre + length segment) scan_size"
  shows "counters_ok c opp sqn \<Longrightarrow> position = length pre + local \<Longrightarrow> 0 < position \<Longrightarrow> local \<le> length segment \<Longrightarrow>
    previous = bytes ! (position - 1) \<Longrightarrow>
    \<exists>ex. iterate body (position, local, previous, opp, sqn) = Some ex \<and>
      exit_ok bytes scan_size c (length pre + length segment) (cut_scalar_from bytes scan_size c position opp sqn) ex"
proof (induction "length segment - local" arbitrary: position local previous opp sqn rule: less_induct)
  case less
  let ?e = "length pre + length segment"
  show ?case
  proof (cases "position < ?e \<and> position < scan_size")
    case False
    then have "body (position, local, previous, opp, sqn) = Some (Inl (Inr (position, opp, sqn)))"
      unfolding body_def segment_body_def prod.case by (simp only: if_False)
    then have "iterate body (position, local, previous, opp, sqn) = Some (Inr (position, opp, sqn))"
      by (subst iterate.simps) simp
    with False less.prems show ?thesis by (auto simp: exit_ok_def)
  next
    case True
    then have local: "local < length segment" using less.prems(2) by simp
    obtain n where n: "0 < n" "local + n \<le> length segment" "position + n \<le> scan_size"
      "body (position, local, previous, opp, sqn) =
        segment_decide segment (length pre) ?e scan_size c position local (lane_scan c 0 (window bytes position n) opp sqn)"
      using segment_body_decide [OF c less.prems(1) bytes local less.prems(2,3) _ size less.prems(5), of vector wide] True
      unfolding body_def by blast
    have scalar: "cut_scalar_from bytes scan_size c position opp sqn =
        after_decision bytes scan_size c position (lane_scan c 0 (window bytes position n) opp sqn)"
      by (rule scalar_window_at [OF less.prems(1,3) n(3) size])
    have len: "length (window bytes position n) = n" using n(3) size by simp
    show ?thesis
    proof (cases "lane_scan c 0 (window bytes position n) opp sqn")
      case (Boundary k)
      then show ?thesis
        by (subst iterate.simps) (simp add: n(4) segment_decide_def scalar after_decision_def exit_ok_def)
    next
      case (Skip k)
      let ?p = "usize_saturating_add (position + k + 1) (skip_bytes c)"
      have k: "position + k + 1 \<le> scan_size" using lane_scan_lanes(2) [OF Skip] len n(3) by simp
      then have p: "position < ?p" using bytes(2) size by (simp add: usize_saturating_add_def)
      have run: "cut_scalar_from bytes scan_size c position opp sqn = cut_scalar_from bytes scan_size c ?p 0 0"
        "body (position, local, previous, opp, sqn) = segment_skip segment (length pre) ?e scan_size ?p"
        using Skip scalar n(4) by (simp_all add: after_decision_def segment_decide_def)
      show ?thesis
      proof (cases "scan_size \<le> ?p \<or> ?e \<le> ?p")
        case True
        with p counters_ok_zero [OF c] show ?thesis
          by (subst iterate.simps) (auto simp: run segment_skip_def scalar_end exit_ok_def)
      next
        case False
        define l' where "l' = ?p - length pre"
        have l': "local < l'" "l' < length segment" "?p = length pre + l'"
          using False p less.prems(2) by (auto simp: l'_def)
        have prev: "segment ! (l' - 1) = bytes ! (?p - 1)"
          using nth_middle [of l' segment pre post] l' by (simp add: bytes(1))
        have "length segment - l' < length segment - local" using l' by simp
        from less.hyps [OF this counters_ok_zero [OF c] l'(3) _ _ prev] p l'(2)
        obtain ex where "iterate body (?p, l', segment ! (l' - 1), 0, 0) = Some ex"
          "exit_ok bytes scan_size c ?e (cut_scalar_from bytes scan_size c ?p 0 0) ex" by auto
        moreover have "segment_skip segment (length pre) ?e scan_size ?p = Some (Inr (?p, l', segment ! (l' - 1), 0, 0))"
          using False l' by (simp add: segment_skip_def index_before_def l'_def [symmetric])
        ultimately show ?thesis by (subst iterate.simps) (simp add: run)
      qed
    next
      case (Advance opp' sqn' m)
      with lane_scan_lanes(3) [OF Advance] len have m: "m = n" by simp
      have prev: "segment ! (local + n - 1) = bytes ! (position + n - 1)"
        using nth_middle [of "local + n" segment pre post] n(1,2) by (simp add: bytes(1) less.prems(2) add.assoc)
      have "length segment - (local + n) < length segment - local" using n(1,2) by simp
      from less.hyps [OF this lane_scan_counters [OF Advance less.prems(1)], of "position + n" "segment ! (local + n - 1)"]
      obtain ex where "iterate body (position + n, local + n, segment ! (local + n - 1), opp', sqn') = Some ex"
        "exit_ok bytes scan_size c ?e (cut_scalar_from bytes scan_size c (position + n) opp' sqn') ex"
        using less.prems(2,3) n(2) prev by auto
      with Advance m show ?thesis
        by (subst iterate.simps) (simp add: n(4) segment_decide_def scalar after_decision_def)
    qed
  qed
qed

lemma cut_segments_scalar:
  assumes c: "validate c" and bytes: "length bytes < 2 ^ 63" and size: "scan_size \<le> length bytes"
  shows "bytes = pre @ concat segments \<Longrightarrow> counters_ok c opp sqn \<Longrightarrow> 0 < position \<Longrightarrow> length pre \<le> position \<Longrightarrow>
    cut_segments avx512_available c vector scan_size segments position opp sqn (length pre)
      (if pre = [] then None else Some (last pre)) = cut_scalar_from bytes scan_size c position opp sqn"
proof (induction segments arbitrary: pre position opp sqn)
  case Nil
  with size have "scan_size \<le> position" "scan_size \<le> length pre" by simp_all
  then show ?case by (simp add: scalar_end)
next
  case (Cons segment segments)
  let ?e = "length pre + length segment" and ?prev = "if pre = [] then None else Some (last pre)"
  have split: "bytes = pre @ segment @ concat segments" using Cons.prems(1) by simp
  have add: "usize_checked_add (length pre) (length segment) = Some ?e"
    using bytes by (simp add: split)
  have last: "(if segment = [] then ?prev else Some (last segment)) =
      (if pre @ segment = [] then None else Some (last (pre @ segment)))" by simp
  note IH = Cons.IH [of "pre @ segment", unfolded length_append last [symmetric]]
  show ?case
  proof (cases "?e \<le> position")
    case True
    then have "cut_segments avx512_available c vector scan_size (segment # segments) position opp sqn (length pre) ?prev =
        cut_segments avx512_available c vector scan_size segments position opp sqn ?e
          (if segment = [] then ?prev else Some (last segment))"
      by (simp add: add Let_def split del: if_split)
    then show ?thesis using IH [of opp sqn position] Cons.prems True by simp
  next
    case False
    define local where "local = position - length pre"
    have position: "position = length pre + local" "local < length segment"
      using False Cons.prems(4) by (auto simp: local_def)
    have previous: "(if local = 0 then ?prev else index_before segment local) = Some (bytes ! (position - 1))"
    proof (cases "local = 0")
      case True
      then have "pre \<noteq> []" using position Cons.prems(3) by auto
      then show ?thesis using True position by (simp add: split nth_append last_conv_nth)
    next
      case False
      then show ?thesis
        using position nth_middle [of local segment pre "concat segments"] by (simp add: split index_before_def)
    qed
    define wide where "wide \<longleftrightarrow> vector \<and> avx512_available \<and> flat_probe segment local"
    obtain ex where ex: "iterate (segment_body c vector wide segment (length pre) ?e scan_size)
          (position, local, bytes ! (position - 1), opp, sqn) = Some ex"
      "exit_ok bytes scan_size c ?e (cut_scalar_from bytes scan_size c position opp sqn) ex"
      using segment_iterate [OF c split bytes size refl Cons.prems(2) position(1) Cons.prems(3) _ refl] position(2) by auto
    have run: "cut_segments avx512_available c vector scan_size (segment # segments) position opp sqn (length pre) ?prev =
        (case ex of Inl boundary \<Rightarrow> Some boundary
         | Inr (p, opp', sqn') \<Rightarrow> if p \<ge> scan_size then Some scan_size
             else cut_segments avx512_available c vector scan_size segments p opp' sqn' ?e
               (if segment = [] then ?prev else Some (last segment)))"
      using False Cons.prems(4)
      by (simp add: add Let_def local_def [symmetric] previous wide_def [symmetric] ex(1) del: One_nat_def split del: if_split)
    show ?thesis
      unfolding run using ex(2) IH Cons.prems(1)
      by (auto simp: exit_ok_def scalar_end split: sum.splits simp del: last_append)
  qed
qed

section \<open>Properties\<close>

lemma sample_cut: "seqcdc_cut_scalar [1, 2, 3, 4, 5] sample_config = Some 3"
  by (simp add: seqcdc_cut_scalar_def sample_config_def validate_def cut_scalar_from.simps index_at_def index_before_def)

lemma scalar_start:
  assumes "validate c" and "minimum_bytes c \<le> length bytes"
  shows "counters_ok c 0 0" and "0 < minimum_bytes c" and "minimum_bytes c \<le> min (length bytes) (maximum_bytes c)"
  using assms counters_ok_zero by (auto simp: validate_def)

lemma scalar_cut_from_minimum:
  assumes "validate c" and "minimum_bytes c \<le> length bytes" and "length bytes < 2 ^ 63"
  shows "\<exists>r. cut_scalar_from bytes (min (length bytes) (maximum_bytes c)) c (minimum_bytes c) 0 0 = Some r \<and>
    0 < minimum_bytes c \<and> minimum_bytes c \<le> r \<and> r \<le> length bytes \<and> r \<le> maximum_bytes c"
proof -
  have "min (length bytes) (maximum_bytes c) < 2 ^ 63" using assms(3) by (rule min.strict_coboundedI1)
  from scalar_returns [OF assms(1) min.cobounded1 this scalar_start(1,2) [OF assms(1,2)]] scalar_start(2,3) [OF assms(1,2)]
  show ?thesis by auto
qed

text \<open>
  C3: Whatever vector instructions the processor has, the boundary the dispatched scanner returns is
  the boundary of the scalar scanner, and it panics on the same configurations. In particular the
  bit-parallel classification of 32 or 64 lanes at a time loses no boundary and no skip, and no vector
  load leaves the slice. The bound on the length is that of every Rust slice.
\<close>

theorem seqcdc_cut_equals_scalar:
  assumes "length bytes < 2 ^ 63"
  shows "seqcdc_cut avx512_available avx2_bmi2_available bytes config = seqcdc_cut_scalar bytes config"
proof (cases "validate config \<and> minimum_bytes config \<le> length bytes")
  case True
  define n where "n = min (length bytes) (maximum_bytes config)"
  have n: "n \<le> length bytes" "n < 2 ^ 63" using assms by (auto simp: n_def)
  note start = scalar_start(1,2) [of config bytes]
  show ?thesis
    using True avx2.cut_vector_scalar [OF _ n start] avx512.cut_vector_scalar [OF _ n start]
    by (auto simp: seqcdc_cut_def cut_avx512_def cut_avx2_bmi2_def seqcdc_cut_scalar_def n_def [symmetric])
next
  case False
  then show ?thesis by (auto simp: seqcdc_cut_def cut_avx512_def cut_avx2_bmi2_def seqcdc_cut_scalar_def)
qed

theorem seqcdc_cut_equals_scalar_witness:
  "seqcdc_cut True True [1, 2, 3, 4, 5] sample_config = Some 3"
  using seqcdc_cut_equals_scalar [of "[1, 2, 3, 4, 5]" True True sample_config] sample_cut by simp

text \<open>
  C8: Scanning input that comes in segments gives the boundary of the joined input, however the input is
  split and with or without vector instructions: segment ends neither reset nor disturb the scan, a
  skip may cross any number of segments, and no assertion of the segmented scanner fails.
\<close>

theorem seqcdc_segmented_equals_scalar:
  assumes "length (concat segments) < 2 ^ 63"
  shows "seqcdc_cut_segmented avx512_available avx2_bmi2_available segments (length (concat segments)) config =
    seqcdc_cut_scalar (concat segments) config"
proof (cases "validate config \<and> minimum_bytes config \<le> length (concat segments)")
  case True
  define n where "n = min (length (concat segments)) (maximum_bytes config)"
  have n: "n \<le> length (concat segments)" by (simp add: n_def)
  note start = scalar_start(1,2) [of config "concat segments"]
  show ?thesis
    using True cut_segments_scalar [OF _ assms n, of config "[]" segments 0 0 "minimum_bytes config"] start
    by (simp add: seqcdc_cut_segmented_def cut_segmented_def seqcdc_cut_scalar_def n_def [symmetric] Let_def)
next
  case False
  then show ?thesis by (auto simp: seqcdc_cut_segmented_def cut_segmented_def seqcdc_cut_scalar_def)
qed

theorem seqcdc_segmented_equals_scalar_witness:
  "seqcdc_cut_segmented True True [[1], [], [2, 3], [4, 5]] (length (concat [[1], [], [2, 3], [4, 5 :: u8]])) sample_config
     = Some 3"
  using seqcdc_segmented_equals_scalar [of "[[1], [], [2, 3], [4, 5]]" True True sample_config] sample_cut
  by simp

text \<open>
  C23: The scanner returns exactly on the valid configurations: its loops end, no index is out of range
  and no assertion fails, for every input.
\<close>

theorem seqcdc_cut_returns:
  assumes "length bytes < 2 ^ 63"
  shows "(\<exists>cut. seqcdc_cut_scalar bytes config = Some cut) \<longleftrightarrow> validate config"
  using scalar_cut_from_minimum [of config bytes] assms
  by (cases "length bytes < minimum_bytes config") (auto simp: seqcdc_cut_scalar_def)

theorem seqcdc_cut_returns_witness:
  "\<exists>cut. seqcdc_cut_scalar [9, 8, 7, 6, 5, 4] sample_config = Some cut"
  using seqcdc_cut_returns [of "[9, 8, 7, 6, 5, 4]" sample_config] by (simp add: sample_config_def validate_def)

text \<open>
  C24: Every boundary is between the configured minimum and maximum: an input shorter than the minimum is
  one chunk, and otherwise the chunk has at least the minimum and at most the maximum and the length
  of the input. So a nonempty input always loses at least one byte.
\<close>

theorem seqcdc_cut_bounds:
  assumes "length bytes < 2 ^ 63" and "seqcdc_cut_scalar bytes config = Some boundary"
  shows "boundary \<le> length bytes \<and>
    (length bytes < minimum_bytes config \<longrightarrow> boundary = length bytes) \<and>
    (minimum_bytes config \<le> length bytes \<longrightarrow> minimum_bytes config \<le> boundary \<and> boundary \<le> maximum_bytes config) \<and>
    (bytes \<noteq> [] \<longrightarrow> 0 < boundary)"
  using scalar_cut_from_minimum [of config bytes] assms
  by (cases "length bytes < minimum_bytes config") (auto simp: seqcdc_cut_scalar_def split: if_splits)

theorem seqcdc_cut_bounds_witness:
  "seqcdc_cut_scalar [1, 2, 3, 4, 5] sample_config = Some 3 \<and>
   minimum_bytes sample_config \<le> 3 \<and> 3 \<le> maximum_bytes sample_config"
  using seqcdc_cut_bounds [of "[1, 2, 3, 4, 5]" sample_config 3] sample_cut by (simp add: sample_config_def)

end
