(* ===== verification/Entry_Table.thy ===== *)
theory Entry_Table
  imports Prelude
begin

text \<open>
  Payloads that are a 64-byte header followed by a table of 64-byte entries, as the Manifest leaves
  and inner nodes of \<open>crates/fastdup-format\<close> have them. The locale \<open>entry_table\<close> is the interface of such
  a table: the routines that write and read one entry, and the loops over all entries. From the laws
  of one entry it derives that reading the table is the inverse of writing it.
\<close>

definition u32_try_from :: "nat \<Rightarrow> u32 option" where
  "u32_try_from n = (if n < 2 ^ 32 then Some (of_nat n) else None)"

definition table_header :: "bytes \<Rightarrow> u16 \<Rightarrow> u64 \<Rightarrow> nat \<Rightarrow> nat \<Rightarrow> bytes" where
  "table_header magic level file_length entry_count payload_len =
     put_u32 (put_u32 (put_u64 (put_u16 (put_u16 (put_u16 (put_u16 (copy_at (zeros 64) 0 magic)
       8 2) 10 64) 12 64) 14 level) 24 file_length) 32 (of_nat entry_count)) 36 (of_nat payload_len)"

section \<open>Lemmas: words and single bytes\<close>

lemma u32_try_from_eq_Some [simp]: "u32_try_from n = Some w \<longleftrightarrow> n < 2 ^ 32 \<and> w = of_nat n"
  by (auto simp: u32_try_from_def)

lemma nth_copy_at_same: "off < length bs \<Longrightarrow> copy_at bs off [v] ! off = v"
  by (simp add: copy_at_def nth_append)

lemma slice_single: "off < length bs \<Longrightarrow> slice off 1 bs = [bs ! off]"
  by (simp add: slice_def take_Suc_conv_app_nth)

lemma slice_take: "off + n \<le> m \<Longrightarrow> slice off n (take m bs) = slice off n bs"
  by (simp add: slice_def drop_take)

lemma ucast_u32_u64: "unat w < 4294967296 \<Longrightarrow> (ucast (ucast w :: u32) :: u64) = w"
  by (simp add: word_unat_eq_iff unsigned_ucast_eq unsigned_take_bit_eq take_bit_nat_eq_self)

lemma unat_u32_u64 [simp]: "unat (ucast w :: u64) = unat w" for w :: u32
  by (simp add: unsigned_ucast_eq take_bit_nat_eq_self unsigned_less [THEN less_le_trans])

lemma ucast_u64_u32 [simp]: "(ucast (ucast w :: u64) :: u32) = w" for w :: u32
  by (simp add: word_unat_eq_iff unsigned_ucast_eq unsigned_take_bit_eq take_bit_nat_eq_self
      unsigned_less [THEN less_le_trans])

lemma unat_u32_less: "unat w < 4294967296" for w :: u32
  using unsigned_less [of w] by simp

lemma unat_of_nat_u32: "n < 4294967296 \<Longrightarrow> unat (of_nat n :: u32) = n"
  by (simp add: unat_of_nat)

section \<open>Lemmas: the header\<close>

lemma length_table_header [simp]: "length (table_header magic level fl n len) = 64"
  by (simp add: table_header_def)

lemma table_header_fields:
  assumes "length magic = 8"
  shows "slice 0 8 (table_header magic level fl n len) = magic"
    and "slice 8 2 (table_header magic level fl n len) = to_le_bytes 2 (2 :: u16)"
    and "slice 10 2 (table_header magic level fl n len) = to_le_bytes 2 (64 :: u16)"
    and "slice 12 2 (table_header magic level fl n len) = to_le_bytes 2 (64 :: u16)"
    and "slice 14 2 (table_header magic level fl n len) = to_le_bytes 2 level"
    and "slice 16 8 (table_header magic level fl n len) = zeros 8"
    and "slice 24 8 (table_header magic level fl n len) = to_le_bytes 8 fl"
    and "slice 32 4 (table_header magic level fl n len) = to_le_bytes 4 (of_nat n :: u32)"
    and "slice 36 4 (table_header magic level fl n len) = to_le_bytes 4 (of_nat len :: u32)"
    and "slice 40 24 (table_header magic level fl n len) = zeros 24"
  using assms by (simp_all add: table_header_def layout_simps)

lemma table_header_unique:
  assumes "length magic = 8" and "length h = 64"
    and "agree_on [8,2,2,2,2,8,8,4,4,24] 0 h (table_header magic level fl n len)"
  shows "h = table_header magic level fl n len"
  by (rule agree_on_eq [OF _ _ assms(3)]) (simp_all add: assms(2))

text \<open>The first 64 bytes of a payload are a header exactly when the checks of the decoders pass.\<close>

lemma table_header_iff:
  assumes "length magic = 8" "64 \<le> length payload" "n < 4294967296" "len < 4294967296"
  shows "take 64 payload = table_header magic level fl n len \<longleftrightarrow>
     slice 0 8 payload = magic \<and> get_u16 payload 8 = 2 \<and> unat (get_u16 payload 10) = 64 \<and>
     unat (get_u16 payload 12) = 64 \<and> get_u16 payload 14 = level \<and> get_u64 payload 16 = 0 \<and>
     \<not> any_nonzero (slice 40 24 payload) \<and> get_u64 payload 24 = fl \<and>
     unat (get_u32 payload 32) = n \<and> unat (get_u32 payload 36) = len" (is "?L \<longleftrightarrow> ?R")
proof
  note fields = table_header_fields [OF assms(1)]
  assume L: ?L
  have *: "slice off k payload = slice off k (table_header magic level fl n len)" if "off + k \<le> 64" for off k
    using that slice_take [of off k 64 payload] L by simp
  show ?R
    using assms(3,4) by (simp add: * fields get_u16_def get_u32_def get_u64_def layout_simps unat_of_nat_u32)
next
  note fields = table_header_fields [OF assms(1)]
  assume R: ?R
  then have w: "get_u16 payload 10 = 64" "get_u16 payload 12 = 64" "get_u32 payload 32 = of_nat n"
      "get_u32 payload 36 = of_nat len" "slice 40 24 payload = zeros 24"
    using assms(2) by (auto dest!: unat_eq_numeralD simp: any_nonzero_iff)
  show ?L
    using R w assms(1,2)
    by (intro table_header_unique) (simp_all add: slice_take fields slice_get_u16 slice_get_u32 slice_get_u64)
qed

section \<open>The table of entries\<close>

locale entry_table =
  fixes put_one :: "bytes \<Rightarrow> 's \<Rightarrow> 'x \<Rightarrow> 'e + bytes"
    and get_one :: "bytes \<Rightarrow> 's \<Rightarrow> 'e + 'x"
    and advance :: "'s \<Rightarrow> 'x \<Rightarrow> 'e + 's"
    and put_all :: "bytes \<Rightarrow> nat \<Rightarrow> 's \<Rightarrow> 'x list \<Rightarrow> 'e + bytes"
    and get_all :: "bytes \<Rightarrow> nat \<Rightarrow> nat \<Rightarrow> 's \<Rightarrow> 'e + 'x list"
    and valid :: "'x \<Rightarrow> bool"
  assumes length_put_one: "put_one e s x = Inr e' \<Longrightarrow> length e' = length e"
    and get_put_one: "valid x \<Longrightarrow> put_one (zeros 64) s x = Inr e \<Longrightarrow> get_one e s = Inr x"
    and put_get_one: "get_one e s = Inr x \<Longrightarrow> length e = 64 \<Longrightarrow> put_one (zeros 64) s x = Inr e"
    and get_one_valid: "get_one e s = Inr x \<Longrightarrow> length e = 64 \<Longrightarrow> valid x"
    and put_all_Nil: "put_all payload ordinal s [] = Inr payload"
    and put_all_Cons: "64 + ordinal * 64 < 2 ^ 64 \<Longrightarrow> put_all payload ordinal s (x # xs) =
      and_then (put_one (slice (64 + ordinal * 64) 64 payload) s x) (\<lambda>e. and_then (advance s x) (\<lambda>s.
        put_all (copy_at payload (64 + ordinal * 64) e) (ordinal + 1) s xs))"
    and get_all_0: "get_all payload ordinal 0 s = Inr []"
    and get_all_Suc: "64 + ordinal * 64 < 2 ^ 64 \<Longrightarrow> get_all payload ordinal (Suc n) s =
      and_then (get_one (slice (64 + ordinal * 64) 64 payload) s) (\<lambda>x. and_then (advance s x) (\<lambda>s.
        and_then (get_all payload (ordinal + 1) n s) (\<lambda>xs. Inr (x # xs))))"
begin

lemma put_all_prefix:
  assumes "length pre \<le> 64 + ordinal * 64" "64 + (ordinal + length xs) * 64 < 2 ^ 64"
  shows "put_all payload ordinal s xs = Inr payload' \<Longrightarrow> take (length pre) payload = pre \<Longrightarrow>
           length payload' = length payload \<and> take (length pre) payload' = pre"
  using assms
proof (induction xs arbitrary: payload ordinal s)
  case Nil
  then show ?case by (simp add: put_all_Nil)
next
  case (Cons x xs)
  let ?start = "64 + ordinal * 64"
  from Cons.prems(1,4) obtain e s' where
    *: "put_all (copy_at payload ?start e) (ordinal + 1) s' xs = Inr payload'"
    by (auto simp: put_all_Cons)
  have "take (length pre) (copy_at payload ?start e) = take (length pre) payload"
    using slice_copy_at_other [of 0 "length pre" ?start e payload] Cons.prems(3) by (simp add: slice_def)
  with Cons.IH [OF *] Cons.prems(2-4) show ?case by simp
qed

lemma put_all_step:
  assumes "length pre = 64 + ordinal * 64" "64 + (ordinal + Suc (length xs)) * 64 < 2 ^ 64" "length e = 64"
  shows "put_all (pre @ zeros 64 @ zeros n) ordinal s (x # xs) = Inr (pre @ e @ rest) \<longleftrightarrow>
    put_one (zeros 64) s x = Inr e \<and> (\<exists>s'. advance s x = Inr s' \<and>
      put_all ((pre @ e) @ zeros n) (ordinal + 1) s' xs = Inr ((pre @ e) @ rest))" (is "?L \<longleftrightarrow> ?R")
proof -
  let ?start = "64 + ordinal * 64"
  have sl: "slice ?start 64 (pre @ e @ r) = e" if "length e = 64" for e r :: bytes
    using that assms(1) by (simp add: slice_def)
  have cp: "copy_at (pre @ zeros 64 @ zeros n) ?start e = (pre @ e) @ zeros n" if "length e = 64" for e
    using that assms(1) by (simp add: copy_at_def)
  have start: "?start < 2 ^ 64" using assms(2) by simp
  show ?thesis
  proof
    assume ?L
    then obtain f s' where f: "put_one (zeros 64) s x = Inr f" "advance s x = Inr s'"
        "put_all (copy_at (pre @ zeros 64 @ zeros n) ?start f) (ordinal + 1) s' xs = Inr (pre @ e @ rest)"
      by (auto simp: put_all_Cons [OF start] sl)
    then have lf: "length f = 64" using length_put_one by fastforce
    then have "take (length (pre @ f)) (pre @ e @ rest) = pre @ f"
      using put_all_prefix [OF _ _ f(3), of "pre @ f"] cp assms(1,2) by simp
    then have "f = e" using lf assms(3) by simp
    with f lf show ?R by (simp add: cp)
  next
    assume ?R
    then show ?L using assms(3) by (auto simp: put_all_Cons [OF start] sl cp)
  qed
qed

lemma put_get_all:
  assumes "length pre = 64 + ordinal * 64" "length rest = 64 * length xs" "list_all valid xs"
    "64 + (ordinal + length xs) * 64 < 2 ^ 64"
  shows "put_all (pre @ zeros (64 * length xs)) ordinal s xs = Inr (pre @ rest) \<longleftrightarrow>
         get_all (pre @ rest) ordinal (length xs) s = Inr xs"
  using assms
proof (induction xs arbitrary: pre ordinal s rest)
  case Nil
  then show ?case by (simp add: zeros_def put_all_Nil get_all_0)
next
  case (Cons x xs)
  let ?e = "take 64 rest" and ?rest = "drop 64 rest" and ?n = "64 * length xs"
  have rest: "rest = ?e @ ?rest" "length ?e = 64" "length ?rest = ?n" using Cons.prems(2) by simp_all
  have zeros: "zeros (64 * length (x # xs)) = zeros 64 @ zeros ?n"
    by (simp add: zeros_def flip: replicate_add)
  have sl: "slice (64 + ordinal * 64) 64 (pre @ ?e @ ?rest) = ?e"
    using rest(2) Cons.prems(1) by (simp add: slice_def)
  have bound: "64 + ordinal * 64 < 2 ^ 64" "64 + (ordinal + Suc (length xs)) * 64 < 2 ^ 64"
    using Cons.prems(4) by simp_all
  have IH: "put_all ((pre @ ?e) @ zeros ?n) (ordinal + 1) s' xs = Inr ((pre @ ?e) @ ?rest) \<longleftrightarrow>
      get_all ((pre @ ?e) @ ?rest) (ordinal + 1) (length xs) s' = Inr xs" for s'
    using Cons.prems(1,3,4) rest(2,3) by (intro Cons.IH) auto
  have one: "put_one (zeros 64) s x = Inr ?e \<longleftrightarrow> get_one ?e s = Inr x"
    using get_put_one [of x s ?e] put_get_one [of ?e s x] Cons.prems(3) rest(2) by auto
  have "put_all (pre @ zeros (64 * length (x # xs))) ordinal s (x # xs) = Inr (pre @ ?e @ ?rest) \<longleftrightarrow>
      get_one ?e s = Inr x \<and> (\<exists>s'. advance s x = Inr s' \<and>
        get_all ((pre @ ?e) @ ?rest) (ordinal + 1) (length xs) s' = Inr xs)"
    unfolding zeros put_all_step [OF Cons.prems(1) bound(2) rest(2)] one IH ..
  also have "\<dots> \<longleftrightarrow> get_all (pre @ ?e @ ?rest) ordinal (length (x # xs)) s = Inr (x # xs)"
    using sl by (auto simp: get_all_Suc [OF bound(1)])
  finally show ?case using rest(1) by simp
qed

lemma get_all_valid:
  assumes "64 + (ordinal + n) * 64 \<le> length payload" "64 + (ordinal + n) * 64 < 2 ^ 64"
  shows "get_all payload ordinal n s = Inr xs \<Longrightarrow> length xs = n \<and> list_all valid xs"
  using assms
proof (induction n arbitrary: ordinal s xs)
  case 0
  then show ?case by (simp add: get_all_0)
next
  case (Suc n)
  then obtain x ys s' where x: "xs = x # ys" "get_one (slice (64 + ordinal * 64) 64 payload) s = Inr x"
      "get_all payload (ordinal + 1) n s' = Inr ys"
    by (auto simp: get_all_Suc)
  with Suc.IH [OF x(3)] Suc.prems(2,3) get_one_valid [OF x(2)] show ?case by simp
qed

text \<open>A payload is what the writer produces exactly when the reader gets its entries back.\<close>

lemma table_iff:
  assumes "list_all valid xs" "length header = 64" "64 + 64 * length xs < 2 ^ 64"
  shows "put_all (header @ zeros (64 * length xs)) 0 s xs = Inr payload \<longleftrightarrow>
     length payload = 64 + 64 * length xs \<and> take 64 payload = header \<and>
     get_all payload 0 (length xs) s = Inr xs" (is "?L \<longleftrightarrow> ?R")
proof
  assume L: ?L
  have *: "length payload = 64 + 64 * length xs \<and> take 64 payload = header"
    using put_all_prefix [OF _ _ L, of header] assms(2,3) by simp
  then have "header @ drop 64 payload = payload" using append_take_drop_id [of 64 payload] by simp
  with * show ?R
    using put_get_all [of header 0 "drop 64 payload" xs s] assms L by simp
next
  assume R: ?R
  then have "header @ drop 64 payload = payload" using append_take_drop_id [of 64 payload] by simp
  with R show ?L
    using put_get_all [of header 0 "drop 64 payload" xs s] assms by simp
qed

end

end
