(* ===== verification/Manifest_Leaf.thy ===== *)
theory Manifest_Leaf
  imports Metadata_Object Entry_Table
begin

text \<open>
  The leaves of a file's Manifest, \<open>crates/fastdup-format/src/manifest.rs\<close>: the extents of a byte
  range (data of a chunk, a slice of a chunk, a hole, a fill), their validation as a partition of the
  range, and the encoding of a leaf as a Metadata Object with one 64-byte entry per extent.

  Shown: a partition is accepted exactly when the extents are well formed and their lengths add up to
  the length of the range, and decoding is the exact inverse of encoding.
\<close>

abbreviation MANIFEST_HEADER_BYTES :: nat where "MANIFEST_HEADER_BYTES \<equiv> 64"
abbreviation MANIFEST_ENTRY_BYTES :: nat where "MANIFEST_ENTRY_BYTES \<equiv> 64"
abbreviation MAX_LOGICAL_CHUNK_BYTES :: nat where "MAX_LOGICAL_CHUNK_BYTES \<equiv> 262144"

definition MANIFEST_MAGIC :: bytes where
  "MANIFEST_MAGIC = ascii ''FDMANL01''"

datatype manifest_extent =
    Data u64 bytes
  | DataSlice u64 bytes u32 u32
  | Hole u64
  | Fill u64 u8

fun logical_length :: "manifest_extent \<Rightarrow> u64" where
  "logical_length (Data len _) = len"
| "logical_length (DataSlice len _ _ _) = len"
| "logical_length (Hole len) = len"
| "logical_length (Fill len _) = len"

record manifest_layout =
  layout_file_length :: u64
  layout_extents :: "manifest_extent list"

record manifest_leaf =
  ml_file_length :: u64
  ml_extents :: "manifest_extent list"

fun validate_extent :: "manifest_extent \<Rightarrow> metadata_format_error + unit" where
  "validate_extent (Data len _) = (if unat len > MAX_LOGICAL_CHUNK_BYTES then Inl InvalidExtent else Inr ())"
| "validate_extent (DataSlice len _ chunk_length chunk_offset) =
     (let chunk_length = (ucast chunk_length :: u64) in
      and_then (ok_or (checked_add (ucast chunk_offset) len) ArithmeticOverflow) (\<lambda>slice_end.
        if chunk_length = 0 \<or> unat chunk_length > MAX_LOGICAL_CHUNK_BYTES \<or> slice_end > chunk_length
        then Inl InvalidExtent else Inr ()))"
| "validate_extent (Hole _) = Inr ()"
| "validate_extent (Fill _ _) = Inr ()"

fun validate_extents :: "u64 \<Rightarrow> manifest_extent list \<Rightarrow> metadata_format_error + u64" where
  "validate_extents position [] = Inr position"
| "validate_extents position (extent # extents) =
     (if logical_length extent = 0 then Inl InvalidExtent
      else and_then (validate_extent extent) (\<lambda>_.
        and_then (ok_or (checked_add position (logical_length extent)) ArithmeticOverflow) (\<lambda>position.
          validate_extents position extents)))"

definition validate_partition :: "u64 \<Rightarrow> manifest_extent list \<Rightarrow> metadata_format_error + unit" where
  "validate_partition file_length extents =
     and_then (validate_extents 0 extents) (\<lambda>position.
       if position \<noteq> file_length \<or> (file_length = 0) \<noteq> (extents = []) then Inl InvalidPartition
       else Inr ())"

definition payload_length :: "nat \<Rightarrow> metadata_format_error + nat" where
  "payload_length extent_count =
     and_then (ok_or (usize_checked_mul extent_count MANIFEST_ENTRY_BYTES) ArithmeticOverflow) (\<lambda>entries.
     and_then (ok_or (usize_checked_add MANIFEST_HEADER_BYTES entries) ArithmeticOverflow) (\<lambda>len.
       if len > MAX_METADATA_OBJECT_BYTES - METADATA_HEADER_BYTES then Inl (InvalidObjectLength len)
       else Inr len))"

definition ManifestLayout_new :: "u64 \<Rightarrow> manifest_extent list \<Rightarrow> metadata_format_error + manifest_layout" where
  "ManifestLayout_new file_length extents =
     and_then (validate_partition file_length extents) (\<lambda>_.
       Inr \<lparr>layout_file_length = file_length, layout_extents = extents\<rparr>)"

definition ManifestLeaf_new :: "u64 \<Rightarrow> manifest_extent list \<Rightarrow> metadata_format_error + manifest_leaf" where
  "ManifestLeaf_new file_length extents =
     and_then (validate_partition file_length extents) (\<lambda>_.
     and_then (payload_length (length extents)) (\<lambda>_.
       Inr \<lparr>ml_file_length = file_length, ml_extents = extents\<rparr>))"

text \<open>One entry, written into its 64 bytes of the payload.\<close>

fun put_extent :: "bytes \<Rightarrow> manifest_extent \<Rightarrow> metadata_format_error + bytes" where
  "put_extent entry (Data len chunk_id) =
     (let entry = put_u16 entry 16 1 in
      and_then (ok_or (u32_try_from (unat len)) ArithmeticOverflow) (\<lambda>chunk_length.
        Inr (copy_at (put_u32 entry 20 chunk_length) 24 chunk_id)))"
| "put_extent entry (DataSlice _ chunk_id chunk_length chunk_offset) =
     (let entry = put_u16 entry 16 4;
          entry = put_u32 entry 20 chunk_length;
          entry = copy_at entry 24 chunk_id
      in Inr (put_u32 entry 56 chunk_offset))"
| "put_extent entry (Hole _) = Inr (put_u16 entry 16 2)"
| "put_extent entry (Fill _ value) = Inr (copy_at (put_u16 entry 16 3) 56 [value])"

definition put_entry :: "bytes \<Rightarrow> u64 \<Rightarrow> manifest_extent \<Rightarrow> metadata_format_error + bytes" where
  "put_entry entry logical_offset extent =
     (let entry = put_u64 entry 0 logical_offset;
          entry = put_u64 entry 8 (logical_length extent)
      in put_extent entry extent)"

fun put_entries :: "bytes \<Rightarrow> nat \<Rightarrow> u64 \<Rightarrow> manifest_extent list \<Rightarrow> metadata_format_error + bytes" where
  "put_entries payload ordinal logical_offset [] = Inr payload"
| "put_entries payload ordinal logical_offset (extent # extents) =
     (let start = MANIFEST_HEADER_BYTES + ordinal * MANIFEST_ENTRY_BYTES in
      and_then (put_entry (slice start MANIFEST_ENTRY_BYTES payload) logical_offset extent) (\<lambda>entry.
      and_then (ok_or (checked_add logical_offset (logical_length extent)) ArithmeticOverflow) (\<lambda>logical_offset.
        put_entries (copy_at payload start entry) (ordinal + 1) logical_offset extents)))"

definition ManifestLeaf_encode :: "digest_lib \<Rightarrow> manifest_leaf \<Rightarrow> metadata_format_error + bytes" where
  "ManifestLeaf_encode L leaf =
     and_then (validate_partition (ml_file_length leaf) (ml_extents leaf)) (\<lambda>_.
     and_then (payload_length (length (ml_extents leaf))) (\<lambda>payload_len.
       let payload = zeros payload_len;
           payload = copy_at payload 0 MANIFEST_MAGIC;
           payload = put_u16 payload 8 2;
           payload = put_u16 payload 10 64;
           payload = put_u16 payload 12 64;
           payload = put_u64 payload 16 0;
           payload = put_u64 payload 24 (ml_file_length leaf)
       in and_then (ok_or (u32_try_from (length (ml_extents leaf))) ArithmeticOverflow) (\<lambda>extent_count.
       let payload = put_u32 payload 32 extent_count in
       and_then (ok_or (u32_try_from payload_len) ArithmeticOverflow) (\<lambda>payload_len32.
       let payload = put_u32 payload 36 payload_len32 in
       and_then (put_entries payload 0 0 (ml_extents leaf)) (\<lambda>payload.
         encode_metadata_object L MANIFEST_LEAF_KIND payload)))))"

definition get_entry :: "bytes \<Rightarrow> u64 \<Rightarrow> metadata_format_error + manifest_extent" where
  "get_entry entry expected_offset =
     (let logical_offset = get_u64 entry 0;
          len = get_u64 entry 8;
          chunk_length = get_u32 entry 20;
          chunk_id = slice 24 32 entry;
          kind = get_u16 entry 16
      in if logical_offset \<noteq> expected_offset \<or> get_u16 entry 18 \<noteq> 0 then Inl InvalidExtent
         else if kind = 1 \<and> ucast chunk_length = len \<and> \<not> any_nonzero (slice 56 8 entry) then Inr (Data len chunk_id)
         else if kind = 2 \<and> chunk_length = 0 \<and> chunk_id = zeros 32 \<and> \<not> any_nonzero (slice 56 8 entry)
           then Inr (Hole len)
         else if kind = 3 \<and> chunk_length = 0 \<and> chunk_id = zeros 32 \<and> \<not> any_nonzero (slice 57 7 entry)
           then Inr (Fill len (entry ! 56))
         else if kind = 4 \<and> \<not> any_nonzero (slice 60 4 entry)
           then Inr (DataSlice len chunk_id chunk_length (get_u32 entry 56))
         else Inl InvalidExtent)"

fun get_entries :: "bytes \<Rightarrow> nat \<Rightarrow> nat \<Rightarrow> u64 \<Rightarrow> metadata_format_error + manifest_extent list" where
  "get_entries payload ordinal 0 expected_offset = Inr []"
| "get_entries payload ordinal (Suc remaining) expected_offset =
     (let start = MANIFEST_HEADER_BYTES + ordinal * MANIFEST_ENTRY_BYTES in
      and_then (get_entry (slice start MANIFEST_ENTRY_BYTES payload) expected_offset) (\<lambda>extent.
      and_then (ok_or (checked_add expected_offset (logical_length extent)) ArithmeticOverflow) (\<lambda>expected_offset.
      and_then (get_entries payload (ordinal + 1) remaining expected_offset) (\<lambda>extents.
        Inr (extent # extents)))))"

definition decode_leaf_payload :: "bytes \<Rightarrow> metadata_format_error + manifest_leaf" where
  "decode_leaf_payload payload =
     (if length payload < MANIFEST_HEADER_BYTES \<or> slice 0 8 payload \<noteq> MANIFEST_MAGIC then Inl InvalidPayload
      else if get_u16 payload 8 \<noteq> 2
           \<or> unat (get_u16 payload 10) \<noteq> MANIFEST_HEADER_BYTES
           \<or> unat (get_u16 payload 12) \<noteq> MANIFEST_ENTRY_BYTES
           \<or> get_u16 payload 14 \<noteq> 0
           \<or> get_u64 payload 16 \<noteq> 0
           \<or> any_nonzero (slice 40 24 payload) then Inl InvalidPayload
      else let extent_count = unat (get_u32 payload 32) in
        and_then (payload_length extent_count) (\<lambda>len.
        if len \<noteq> length payload \<or> unat (get_u32 payload 36) \<noteq> length payload then Inl InvalidPayload
        else and_then (get_entries payload 0 extent_count 0) (\<lambda>extents.
          ManifestLeaf_new (get_u64 payload 24) extents)))"

definition ManifestLeaf_decode :: "digest_lib \<Rightarrow> bytes \<Rightarrow> metadata_format_error + manifest_leaf" where
  "ManifestLeaf_decode L bs =
     and_then (decode_metadata_object L (Some MANIFEST_LEAF_KIND) bs) (\<lambda>object.
       decode_leaf_payload (mo_payload object))"

text \<open>A chunk identity is an array of 32 bytes.\<close>

fun valid_extent :: "manifest_extent \<Rightarrow> bool" where
  "valid_extent (Data _ chunk_id) \<longleftrightarrow> length chunk_id = 32"
| "valid_extent (DataSlice _ chunk_id _ _) \<longleftrightarrow> length chunk_id = 32"
| "valid_extent (Hole _) \<longleftrightarrow> True"
| "valid_extent (Fill _ _) \<longleftrightarrow> True"

text \<open>The bounds of an extent, as a predicate on numbers.\<close>

fun extent_bounded :: "manifest_extent \<Rightarrow> bool" where
  "extent_bounded (Data len _) \<longleftrightarrow> 0 < len \<and> unat len \<le> MAX_LOGICAL_CHUNK_BYTES"
| "extent_bounded (DataSlice len _ chunk_length chunk_offset) \<longleftrightarrow>
     0 < len \<and> unat chunk_offset + unat len \<le> unat chunk_length \<and> unat chunk_length \<le> MAX_LOGICAL_CHUNK_BYTES"
| "extent_bounded (Hole len) \<longleftrightarrow> 0 < len"
| "extent_bounded (Fill len _) \<longleftrightarrow> 0 < len"

definition sample_leaf :: manifest_leaf where
  "sample_leaf = \<lparr>ml_file_length = 4106, ml_extents =
     [Data 4096 (replicate 32 1), Hole 3, Fill 2 7, DataSlice 5 (replicate 32 2) 100 95]\<rparr>"

section \<open>Lemmas: entries\<close>

lemma length_MANIFEST_MAGIC [simp]: "length MANIFEST_MAGIC = 8"
  by (simp add: MANIFEST_MAGIC_def)

lemma length_put_entry: "put_entry entry off extent = Inr entry' \<Longrightarrow> length entry' = length entry"
  by (cases extent) (auto simp: put_entry_def Let_def)

lemmas entry_simps = put_entry_def get_entry_def Let_def layout_simps get_u16_def get_u32_def get_u64_def

lemma get_put_entry:
  assumes "valid_extent extent" and "put_entry (zeros 64) off extent = Inr entry"
  shows "get_entry entry off = Inr extent"
  using assms
  by (cases extent) (clarsimp simp: entry_simps nth_copy_at_same ucast_u32_u64)+

text \<open>The fields of an entry that was read successfully.\<close>

lemma get_entry_fields:
  assumes "get_entry entry off = Inr extent" and "length entry = 64"
  shows "slice 0 8 entry = to_le_bytes 8 off"
    and "slice 8 8 entry = to_le_bytes 8 (logical_length extent)"
    and "slice 18 2 entry = zeros 2"
proof -
  have "get_u64 entry 0 = off" and "get_u64 entry 8 = logical_length extent" and "get_u16 entry 18 = 0"
    using assms(1) by (auto simp: get_entry_def Let_def split: if_splits)
  then show "slice 0 8 entry = to_le_bytes 8 off"
    and "slice 8 8 entry = to_le_bytes 8 (logical_length extent)"
    and "slice 18 2 entry = zeros 2"
    using assms(2) by (simp_all add: slice_get_u64 slice_get_u16)
qed

lemma put_get_entry:
  assumes got: "get_entry entry off = Inr extent" and len: "length entry = 64"
  shows "put_entry (zeros 64) off extent = Inr entry"
proof -
  note fields = get_entry_fields [OF assms]
  note slices = slice_get_u32 [of 20 entry] slice_get_u16 [of 16 entry]
  have zero: "\<not> any_nonzero (slice p n entry) \<longleftrightarrow> slice p n entry = zeros n" if "p + n \<le> 64" for p n
    using that len by (simp add: any_nonzero_iff)
  show ?thesis
  proof (cases extent)
    case (Data l c)
    then have f: "get_u16 entry 16 = 1" "ucast (get_u32 entry 20) = l" "c = slice 24 32 entry" "slice 56 8 entry = zeros 8"
      using got by (auto simp: get_entry_def Let_def zero split: if_splits)
    let ?e = "copy_at (put_u32 (put_u16 (put_u64 (put_u64 (zeros 64) 0 off) 8 l) 16 1) 20 (get_u32 entry 20)) 24 c"
    have "?e = entry"
      by (rule agree_on_eq [where ns = "[8,8,2,2,4,32,8]"])
        (use Data f(1,3,4) fields len in \<open>simp_all add: layout_simps slices\<close>)
    then show ?thesis
      using Data f(2) unat_u32_less [of "get_u32 entry 20"] by (auto simp: put_entry_def)
  next
    case (Hole l)
    then have "get_u16 entry 16 = 2" "get_u32 entry 20 = 0" "slice 24 32 entry = zeros 32" "slice 56 8 entry = zeros 8"
      using got by (auto simp: get_entry_def Let_def zero split: if_splits)
    then show ?thesis
      using Hole fields slices len
      by (auto simp: put_entry_def Let_def layout_simps intro!: agree_on_eq [where ns = "[8,8,2,2,4,32,8]"])
  next
    case (Fill l v)
    then have "get_u16 entry 16 = 3" "get_u32 entry 20 = 0" "slice 24 32 entry = zeros 32" "slice 57 7 entry = zeros 7" "v = entry ! 56"
      using got len by (auto simp: get_entry_def Let_def zero split: if_splits)
    then show ?thesis
      using Fill fields slices len slice_single [of 56 entry]
      by (auto simp: put_entry_def Let_def layout_simps intro!: agree_on_eq [where ns = "[8,8,2,2,4,32,1,7]"])
  next
    case (DataSlice l c cl co)
    then have "get_u16 entry 16 = 4" "get_u32 entry 20 = cl" "c = slice 24 32 entry" "get_u32 entry 56 = co" "slice 60 4 entry = zeros 4"
      using got by (auto simp: get_entry_def Let_def zero split: if_splits)
    then show ?thesis
      using DataSlice fields slices slice_get_u32 [of 56 entry] len
      by (auto simp: put_entry_def Let_def layout_simps intro!: agree_on_eq [where ns = "[8,8,2,2,4,32,4,4]"])
  qed
qed

lemma get_entry_valid: "get_entry entry off = Inr extent \<Longrightarrow> length entry = 64 \<Longrightarrow> valid_extent extent"
  by (auto simp: get_entry_def Let_def split: if_splits)

section \<open>Lemmas: payloads\<close>

interpretation leaf_table: entry_table put_entry get_entry
  "\<lambda>offset extent. ok_or (checked_add offset (logical_length extent)) ArithmeticOverflow"
  put_entries get_entries valid_extent
  by unfold_locales
    (blast intro: length_put_entry get_put_entry put_get_entry get_entry_valid
      | simp only: put_entries.simps get_entries.simps Let_def)+

lemma payload_length_eq [simp]:
  "payload_length n = Inr len \<longleftrightarrow> len = 64 + 64 * n \<and> 64 + 64 * n \<le> 16773120"
  by (auto simp: payload_length_def usize_checked_mul_def usize_checked_add_def)

lemma leaf_header:
  "put_u32 (put_u32 (put_u64 (put_u64 (put_u16 (put_u16 (put_u16 (copy_at (zeros 64) 0 MANIFEST_MAGIC)
     8 2) 10 64) 12 64) 16 0) 24 fl) 32 (of_nat n)) 36 (of_nat len) = table_header MANIFEST_MAGIC 0 fl n len"
  by (rule table_header_unique) (simp_all add: table_header_fields layout_simps)

lemma encode_leaf_eq:
  "ManifestLeaf_encode L leaf = Inr bs \<longleftrightarrow>
     (\<exists>payload. validate_partition (ml_file_length leaf) (ml_extents leaf) = Inr () \<and>
        64 + 64 * length (ml_extents leaf) \<le> 16773120 \<and>
        put_entries (table_header MANIFEST_MAGIC 0 (ml_file_length leaf) (length (ml_extents leaf)) (64 + 64 * length (ml_extents leaf))
          @ zeros (64 * length (ml_extents leaf))) 0 0 (ml_extents leaf) = Inr payload \<and>
        encode_metadata_object L MANIFEST_LEAF_KIND payload = Inr bs)"
proof -
  let ?n = "length (ml_extents leaf)"
  have "zeros (64 + 64 * ?n) = zeros 64 @ zeros (64 * ?n)"
    by (simp add: zeros_def replicate_add)
  then show ?thesis
    unfolding ManifestLeaf_encode_def Let_def
    by (auto simp: put_append copy_at_append leaf_header simp del: of_nat_add)
qed

lemma decode_leaf_payload_eq:
  "decode_leaf_payload payload = Inr leaf \<longleftrightarrow>
     validate_partition (ml_file_length leaf) (ml_extents leaf) = Inr () \<and>
     64 + 64 * length (ml_extents leaf) \<le> 16773120 \<and>
     length payload = 64 + 64 * length (ml_extents leaf) \<and>
     take 64 payload = table_header MANIFEST_MAGIC 0 (ml_file_length leaf) (length (ml_extents leaf)) (64 + 64 * length (ml_extents leaf)) \<and>
     get_entries payload 0 (length (ml_extents leaf)) 0 = Inr (ml_extents leaf)" (is "_ \<longleftrightarrow> ?R")
proof
  assume "decode_leaf_payload payload = Inr leaf"
  then show ?R
    using leaf_table.get_all_valid [of 0 "unat (get_u32 payload 32)" payload 0 "ml_extents leaf"]
      table_header_iff [of MANIFEST_MAGIC payload "length (ml_extents leaf)" "64 + 64 * length (ml_extents leaf)" 0 "ml_file_length leaf"]
    by (auto simp: decode_leaf_payload_def Let_def ManifestLeaf_new_def split: if_splits)
next
  assume R: ?R
  then show "decode_leaf_payload payload = Inr leaf"
    using table_header_iff [of MANIFEST_MAGIC payload "length (ml_extents leaf)" "64 + 64 * length (ml_extents leaf)" 0 "ml_file_length leaf"]
    by (simp add: decode_leaf_payload_def Let_def ManifestLeaf_new_def)
qed

lemma decode_leaf_eq:
  assumes "digest_laws L"
  shows "ManifestLeaf_decode L bs = Inr leaf \<longleftrightarrow>
    (\<exists>payload. encode_metadata_object L MANIFEST_LEAF_KIND payload = Inr bs \<and> decode_leaf_payload payload = Inr leaf)"
  unfolding ManifestLeaf_decode_def and_then_eq_Inr
  by (rule decode_metadata_payload [OF assms])

lemma decode_leaf_iff:
  assumes "digest_laws L"
  shows "ManifestLeaf_decode L bs = Inr leaf \<longleftrightarrow>
           list_all valid_extent (ml_extents leaf) \<and> ManifestLeaf_encode L leaf = Inr bs"
proof -
  let ?xs = "ml_extents leaf"
  have valid: "list_all valid_extent ?xs"
    if "64 + 64 * length ?xs \<le> 16773120" "length payload = 64 + 64 * length ?xs"
      "get_entries payload 0 (length ?xs) 0 = Inr ?xs" for payload
    using leaf_table.get_all_valid [OF _ _ that(3)] that(1,2) by simp
  show ?thesis
  proof (cases "list_all valid_extent ?xs \<and> 64 + 64 * length ?xs \<le> 16773120")
    case True
    then have table: "put_entries (table_header MANIFEST_MAGIC 0 (ml_file_length leaf) (length ?xs) (64 + 64 * length ?xs)
        @ zeros (64 * length ?xs)) 0 0 ?xs = Inr payload \<longleftrightarrow>
        length payload = 64 + 64 * length ?xs \<and>
        take 64 payload = table_header MANIFEST_MAGIC 0 (ml_file_length leaf) (length ?xs) (64 + 64 * length ?xs) \<and>
        get_entries payload 0 (length ?xs) 0 = Inr ?xs" for payload
      by (intro leaf_table.table_iff) auto
    show ?thesis
      unfolding decode_leaf_eq [OF assms] encode_leaf_eq decode_leaf_payload_eq table
      using True by blast
  next
    case False
    with valid show ?thesis
      unfolding decode_leaf_eq [OF assms] encode_leaf_eq decode_leaf_payload_eq by blast
  qed
qed

section \<open>Lemmas: partitions\<close>

lemma validate_extent_iff:
  "logical_length x \<noteq> 0 \<and> validate_extent x = Inr () \<longleftrightarrow> extent_bounded x"
proof (cases x)
  case (DataSlice len c cl co)
  have bound: "unat co < 4294967296" "unat cl < 4294967296" by (rule unat_u32_less)+
  have add: "checked_add (ucast co) len = Some e \<Longrightarrow> unat e = unat co + unat len" for e
    by (drule checked_add_unat) simp
  have none: "checked_add (ucast co) len = None \<Longrightarrow> 2 ^ 64 \<le> unat co + unat len"
    by (simp add: checked_add_eq_None)
  have zero: "ucast cl = (0 :: u64) \<longleftrightarrow> cl = 0" "len \<noteq> 0 \<longleftrightarrow> 0 < unat len"
    using unat_u32_u64 [of cl] by (metis unsigned_eq_0_iff) (metis unsigned_eq_0_iff gr0I less_irrefl)
  show ?thesis
    using DataSlice bound add none zero
    by (cases "checked_add (ucast co) len") (auto simp: Let_def word_less_nat_alt)
qed (auto simp: word_gt_0)

lemma validate_extents_iff:
  "validate_extents pos xs = Inr e \<longleftrightarrow>
     list_all extent_bounded xs \<and> unat e = unat pos + sum_list (map (unat \<circ> logical_length) xs)"
proof (induction xs arbitrary: pos)
  case Nil
  then show ?case by (auto simp: word_unat_eq_iff)
next
  case (Cons x xs)
  have "validate_extents pos (x # xs) = Inr e \<longleftrightarrow> extent_bounded x \<and>
      (\<exists>p. checked_add pos (logical_length x) = Some p \<and> validate_extents p xs = Inr e)"
    using validate_extent_iff [of x] by auto
  also have "\<dots> \<longleftrightarrow> extent_bounded x \<and> (\<exists>p. checked_add pos (logical_length x) = Some p \<and>
      list_all extent_bounded xs \<and> unat e = unat p + sum_list (map (unat \<circ> logical_length) xs))"
    by (simp only: Cons.IH)
  also have "\<dots> \<longleftrightarrow> list_all extent_bounded (x # xs) \<and>
      unat e = unat pos + sum_list (map (unat \<circ> logical_length) (x # xs))"
    using unsigned_less [of e, where 'a = nat] checked_add_unat [of pos "logical_length x"]
      checked_add_eq_None [of pos "logical_length x"]
    by (cases "checked_add pos (logical_length x)") auto
  finally show ?case .
qed

lemma extent_bounded_pos: "extent_bounded x \<Longrightarrow> 0 < unat (logical_length x)"
  by (cases x) (auto simp: word_less_nat_alt)

lemma sum_list_pos: "\<forall>x\<in>set xs. 0 < (f x :: nat) \<Longrightarrow> sum_list (map f xs) = 0 \<longleftrightarrow> xs = []"
  by (cases xs) auto

lemma validate_partition_eq:
  "validate_partition fl xs = Inr () \<longleftrightarrow>
     list_all extent_bounded xs \<and> sum_list (map (unat \<circ> logical_length) xs) = unat fl"
proof -
  have "validate_partition fl xs = Inr () \<longleftrightarrow> validate_extents 0 xs = Inr fl \<and> (fl = 0 \<longleftrightarrow> xs = [])"
    by (auto simp: validate_partition_def simp del: validate_extents.simps)
  moreover have "xs = [] \<longleftrightarrow> unat fl = 0"
    if "list_all extent_bounded xs" "unat fl = sum_list (map (unat \<circ> logical_length) xs)"
    using sum_list_pos [of xs "unat \<circ> logical_length"] that extent_bounded_pos by (auto simp: list_all_iff)
  moreover have "fl = 0 \<longleftrightarrow> unat fl = 0" by (rule unsigned_eq_0_iff [symmetric])
  ultimately show ?thesis
    unfolding validate_extents_iff by (metis add_0 unsigned_0)
qed

lemma put_entry_total: "extent_bounded x \<Longrightarrow> \<exists>e. put_entry entry off x = Inr e"
  by (cases x) (auto simp: put_entry_def Let_def u32_try_from_def)

lemma put_entries_total:
  assumes "list_all extent_bounded xs" "unat off + sum_list (map (unat \<circ> logical_length) xs) < 2 ^ 64"
  shows "\<exists>payload'. put_entries payload ordinal off xs = Inr payload'"
  using assms
proof (induction xs arbitrary: payload ordinal off)
  case Nil
  then show ?case by simp
next
  case (Cons x xs)
  let ?start = "64 + ordinal * 64"
  obtain e where e: "put_entry (slice ?start 64 payload) off x = Inr e"
    using put_entry_total Cons.prems(1) by fastforce
  obtain off' where off': "checked_add off (logical_length x) = Some off'"
    using Cons.prems(2) by (cases "checked_add off (logical_length x)") (simp_all add: checked_add_eq_None)
  have "unat off' + sum_list (map (unat \<circ> logical_length) xs) < 2 ^ 64"
    using Cons.prems(2) checked_add_unat [OF off'] by (simp add: o_def)
  then show ?case
    using Cons.IH [of off' "copy_at payload ?start e" "ordinal + 1"] Cons.prems(1) e off' by (simp add: o_def)
qed

lemma encode_leaf_reference:
  assumes "validate_partition (ml_file_length leaf) (ml_extents leaf) = Inr ()"
    and "metadata_file_length (64 + 64 * length (ml_extents leaf)) \<le> MAX_METADATA_OBJECT_BYTES"
  shows "\<exists>bs. ManifestLeaf_encode reference_digests leaf = Inr bs"
proof -
  let ?n = "length (ml_extents leaf)"
  let ?header = "table_header MANIFEST_MAGIC 0 (ml_file_length leaf) ?n (64 + 64 * ?n)"
  obtain payload where payload: "put_entries (?header @ zeros (64 * ?n)) 0 0 (ml_extents leaf) = Inr payload"
    using put_entries_total [of "ml_extents leaf" 0] assms(1) unsigned_less [of "ml_file_length leaf", where 'a = nat]
    by (auto simp: validate_partition_eq)
  then have "length payload = 64 + 64 * ?n"
    using leaf_table.put_all_prefix [OF _ _ payload, of "[]"] assms(2) metadata_file_length_bounds(1) [of "64 + 64 * ?n"]
    by simp
  then obtain bs where "encode_metadata_object reference_digests MANIFEST_LEAF_KIND payload = Inr bs"
    using encode_metadata_object_reference assms(2) by metis
  moreover have "64 + 64 * ?n \<le> 16773120"
    using assms(2) metadata_file_length_bounds(1) [of "64 + 64 * ?n"] by linarith
  ultimately show ?thesis
    using payload assms(1) unfolding encode_leaf_eq by blast
qed

lemma sample_leaf_encodes: "\<exists>bs. ManifestLeaf_encode reference_digests sample_leaf = Inr bs"
proof (rule encode_leaf_reference)
  show "validate_partition (ml_file_length sample_leaf) (ml_extents sample_leaf) = Inr ()"
    by (simp add: validate_partition_eq sample_leaf_def)
  show "metadata_file_length (64 + 64 * length (ml_extents sample_leaf)) \<le> MAX_METADATA_OBJECT_BYTES"
    by (simp add: sample_leaf_def metadata_file_length_def)
qed

section \<open>Properties\<close>

text \<open>
  C37: A list of extents is accepted as the partition of a range exactly when every extent is
  nonempty, data extents are at most 256 KiB long, slices lie within their chunk, and the lengths
  add up to the length of the range, without overflow of the 64-bit position.
\<close>

theorem validate_partition_iff:
  "validate_partition file_length extents = Inr () \<longleftrightarrow>
     list_all extent_bounded extents \<and>
     sum_list (map (unat \<circ> logical_length) extents) = unat file_length"
  by (rule validate_partition_eq)



text \<open>
  C28: Every leaf that a reader obtains from bytes is well formed: its extents are valid and bounded,
  they tile the range of the leaf without gap or overlap, and there are at most 262079 of them.
\<close>

theorem manifest_leaf_decode_type:
  assumes "ManifestLeaf_decode L bs = Inr leaf"
  shows "list_all valid_extent (ml_extents leaf) \<and> list_all extent_bounded (ml_extents leaf) \<and>
         sum_list (map (unat \<circ> logical_length) (ml_extents leaf)) = unat (ml_file_length leaf) \<and>
         length (ml_extents leaf) \<le> 262079"
proof -
  obtain payload where p: "decode_leaf_payload payload = Inr leaf"
    using assms by (auto simp: ManifestLeaf_decode_def)
  then show ?thesis
    using leaf_table.get_all_valid [of 0 "length (ml_extents leaf)" payload 0 "ml_extents leaf"]
    by (auto simp: decode_leaf_payload_eq validate_partition_eq)
qed

theorem manifest_leaf_decode_type_witness:
  "\<exists>bs. ManifestLeaf_decode reference_digests bs = Inr sample_leaf \<and>
     length (ml_extents sample_leaf) = 4 \<and> list_all extent_bounded (ml_extents sample_leaf)"
proof -
  obtain bs where "ManifestLeaf_decode reference_digests bs = Inr sample_leaf"
    using sample_leaf_encodes decode_leaf_iff [OF reference.digest_laws_axioms, of _ sample_leaf]
    by (auto simp: sample_leaf_def)
  with manifest_leaf_decode_type [OF this] show ?thesis by (auto simp: sample_leaf_def)
qed

end
