(* ===== verification/Manifest_Inner.thy ===== *)
theory Manifest_Inner
  imports Metadata_Object Entry_Table
begin

text \<open>
  The inner nodes of a file's Manifest, \<open>crates/fastdup-format/src/manifest_inner.rs\<close>: the child
  ranges with their authenticated allocation totals, their validation as a partition of the file
  range, and the encoding of a node as a Metadata Object with one 64-byte entry per child.

  Shown: a node is accepted exactly when its children tile the range in order, decoding is the exact
  inverse of encoding, and the allocation total of an accepted node never overflows and is bounded by
  the length of the file. Allocation failures of \<open>Vec\<close> (\<open>OutOfMemory\<close>) do not occur in the model.
\<close>

datatype manifest_inner_node_error =
    Metadata metadata_format_error
  | InvalidLevel
  | InvalidChildRange
  | InvalidPartition
  | InvalidPayload
  | ArithmeticOverflow
  | OutOfMemory

abbreviation MANIFEST_INNER_HEADER_BYTES :: nat where "MANIFEST_INNER_HEADER_BYTES \<equiv> 64"
abbreviation MANIFEST_CHILD_RANGE_BYTES :: nat where "MANIFEST_CHILD_RANGE_BYTES \<equiv> 64"

definition MANIFEST_INNER_MAGIC :: bytes where
  "MANIFEST_INNER_MAGIC = ascii ''FDMANI01''"

record manifest_child_range =
  cr_logical_offset :: u64
  cr_logical_length :: u64
  cr_child :: bytes
  cr_allocated_bytes :: "u64 option"

record manifest_inner_node =
  mn_file_length :: u64
  mn_level :: u16
  mn_children :: "manifest_child_range list"



fun validate_children :: "u64 \<Rightarrow> manifest_child_range list \<Rightarrow> manifest_inner_node_error + u64" where
  "validate_children expected_offset [] = Inr expected_offset"
| "validate_children expected_offset (child # children) =
     (if cr_logical_length child = 0 then Inl InvalidChildRange
      else if cr_logical_offset child \<noteq> expected_offset then Inl InvalidPartition
      else if (case cr_allocated_bytes child of None \<Rightarrow> True
               | Some allocated \<Rightarrow> allocated > cr_logical_length child) then Inl InvalidChildRange
      else and_then (ok_or (checked_add (cr_logical_offset child) (cr_logical_length child)) ArithmeticOverflow)
        (\<lambda>expected_offset. validate_children expected_offset children))"

definition validate_node ::
  "u64 \<Rightarrow> u16 \<Rightarrow> manifest_child_range list \<Rightarrow> manifest_inner_node_error + unit" where
  "validate_node file_length level children =
     (if level = 0 then Inl InvalidLevel
      else if children = [] \<or> file_length = 0 then Inl InvalidPartition
      else and_then (validate_children 0 children) (\<lambda>expected_offset.
        if expected_offset \<noteq> file_length then Inl InvalidPartition else Inr ()))"

definition inner_payload_length :: "nat \<Rightarrow> manifest_inner_node_error + nat" where
  "inner_payload_length child_count =
     (if child_count = 0 then Inl InvalidPartition
      else and_then (ok_or (usize_checked_mul child_count MANIFEST_CHILD_RANGE_BYTES) ArithmeticOverflow) (\<lambda>ranges.
        and_then (ok_or (usize_checked_add MANIFEST_INNER_HEADER_BYTES ranges) ArithmeticOverflow) (\<lambda>len.
          if len > MAX_METADATA_OBJECT_BYTES - METADATA_HEADER_BYTES then Inl InvalidPayload else Inr len)))"


definition ManifestInnerNode_new ::
  "u64 \<Rightarrow> u16 \<Rightarrow> manifest_child_range list \<Rightarrow> manifest_inner_node_error + manifest_inner_node" where
  "ManifestInnerNode_new file_length level children =
     and_then (validate_node file_length level children) (\<lambda>_.
     and_then (inner_payload_length (length children)) (\<lambda>_.
       Inr \<lparr>mn_file_length = file_length, mn_level = level, mn_children = children\<rparr>))"

fun sum_allocated ::
  "u64 option \<Rightarrow> manifest_child_range list \<Rightarrow> manifest_inner_node_error + u64 option" where
  "sum_allocated running [] = Inr running"
| "sum_allocated running (child # children) =
     and_then (ok_or running InvalidChildRange) (\<lambda>acc.
     and_then (ok_or (cr_allocated_bytes child) InvalidChildRange) (\<lambda>child_allocated.
     and_then (ok_or (map_option Some (checked_add acc child_allocated)) ArithmeticOverflow) (\<lambda>running.
       sum_allocated running children)))"

definition allocated_bytes ::
  "manifest_inner_node \<Rightarrow> manifest_inner_node_error + u64 option" where
  "allocated_bytes node = sum_allocated (Some 0) (mn_children node)"

definition put_child :: "bytes \<Rightarrow> manifest_child_range \<Rightarrow> bytes" where
  "put_child entry child =
     (let entry = put_u64 entry 0 (cr_logical_offset child);
          entry = put_u64 entry 8 (cr_logical_length child);
          entry = copy_at entry 16 (cr_child child)
      in case cr_allocated_bytes child of
           Some allocated \<Rightarrow> put_u64 entry 48 allocated
         | None \<Rightarrow> entry)"








text \<open>The children tile the range from \<open>position\<close>, each nonempty and allocating at most its length.\<close>

fun tiles_from :: "nat \<Rightarrow> manifest_child_range list \<Rightarrow> nat \<Rightarrow> bool" where
  "tiles_from position [] stop \<longleftrightarrow> position = stop"
| "tiles_from position (child # children) stop \<longleftrightarrow>
     unat (cr_logical_offset child) = position \<and> 0 < unat (cr_logical_length child) \<and>
     (case cr_allocated_bytes child of None \<Rightarrow> False
      | Some allocated \<Rightarrow> unat allocated \<le> unat (cr_logical_length child)) \<and>
     tiles_from (position + unat (cr_logical_length child)) children stop"


definition sample_inner_node :: manifest_inner_node where
  "sample_inner_node = \<lparr>mn_file_length = 12, mn_level = 1, mn_children =
     [\<lparr>cr_logical_offset = 0, cr_logical_length = 5, cr_child = replicate 32 1, cr_allocated_bytes = Some 3\<rparr>,
      \<lparr>cr_logical_offset = 5, cr_logical_length = 7, cr_child = replicate 32 2, cr_allocated_bytes = Some 7\<rparr>]\<rparr>"

section \<open>Lemmas: child ranges\<close>

lemma length_MANIFEST_INNER_MAGIC [simp]: "length MANIFEST_INNER_MAGIC = 8"
  by (simp add: MANIFEST_INNER_MAGIC_def)

lemma length_put_child [simp]: "length (put_child entry child) = length entry"
  by (simp add: put_child_def Let_def split: option.split)






section \<open>Lemmas: partitions\<close>

lemma validate_children_iff:
  "validate_children pos cs = Inr e \<longleftrightarrow> tiles_from (unat pos) cs (unat e)"
proof (induction cs arbitrary: pos)
  case Nil
  then show ?case by (simp add: word_unat_eq_iff)
next
  case (Cons c cs)
  let ?len = "cr_logical_length c"
  have stop: "tiles_from p cs q \<Longrightarrow> p \<le> q" for p q
    by (induction cs arbitrary: p) fastforce+
  have zero: "?len \<noteq> 0 \<longleftrightarrow> 0 < unat ?len"
    using unsigned_eq_0_iff [of ?len] by auto
  have start: "cr_logical_offset c = pos \<longleftrightarrow> unat (cr_logical_offset c) = unat pos"
    by (simp add: word_unat_eq_iff)
  have "validate_children pos (c # cs) = Inr e \<longleftrightarrow> ?len \<noteq> 0 \<and> cr_logical_offset c = pos \<and>
      (case cr_allocated_bytes c of None \<Rightarrow> False | Some a \<Rightarrow> unat a \<le> unat ?len) \<and>
      (\<exists>p. checked_add pos ?len = Some p \<and> validate_children p cs = Inr e)"
    by (auto simp: word_less_nat_alt split: option.splits)
  also have "(\<exists>p. checked_add pos ?len = Some p \<and> validate_children p cs = Inr e) \<longleftrightarrow>
      tiles_from (unat pos + unat ?len) cs (unat e)"
    using checked_add_unat [of pos ?len] checked_add_eq_None [of pos ?len] stop [of "unat pos + unat ?len" "unat e"]
      unsigned_less [of e, where 'a = nat]
    by (cases "checked_add pos ?len") (auto simp: Cons.IH)
  finally show ?case unfolding zero start tiles_from.simps by blast
qed

lemma tiles_from_less: "tiles_from p cs q \<Longrightarrow> cs \<noteq> [] \<Longrightarrow> p < q"
proof (induction cs arbitrary: p)
  case (Cons c cs)
  then show ?case by (cases "cs = []") fastforce+
qed simp

lemma validate_node_eq:
  "validate_node fl level cs = Inr () \<longleftrightarrow> level \<noteq> 0 \<and> cs \<noteq> [] \<and> tiles_from 0 cs (unat fl)"
proof -
  have "validate_node fl level cs = Inr () \<longleftrightarrow> level \<noteq> 0 \<and> cs \<noteq> [] \<and> fl \<noteq> 0 \<and> validate_children 0 cs = Inr fl"
    by (auto simp: validate_node_def)
  also have "\<dots> \<longleftrightarrow> level \<noteq> 0 \<and> cs \<noteq> [] \<and> tiles_from 0 cs (unat fl)"
    using tiles_from_less [of 0 cs "unat fl"] by (auto simp: validate_children_iff)
  finally show ?thesis .
qed

lemma sum_allocated_tiles:
  "tiles_from p cs q \<Longrightarrow> q < 2 ^ 64 \<Longrightarrow> unat acc \<le> p \<Longrightarrow>
     \<exists>t. sum_allocated (Some acc) cs = Inr (Some t) \<and> unat t \<le> q"
proof (induction cs arbitrary: p acc)
  case Nil
  then show ?case by simp
next
  case (Cons c cs)
  let ?len = "cr_logical_length c"
  obtain a where a: "cr_allocated_bytes c = Some a" "unat a \<le> unat ?len" "tiles_from (p + unat ?len) cs q"
    using Cons.prems(1) by (auto split: option.splits)
  have "p + unat ?len \<le> q"
    using tiles_from_less [OF a(3)] a(3) by (cases "cs = []") auto
  with a(2) Cons.prems(2,3) have "unat acc + unat a < 2 ^ 64" by linarith
  then have t: "checked_add acc a = Some (acc + a)"
    by (simp add: checked_add_eq_Some)
  have "unat (acc + a) \<le> p + unat ?len"
    using checked_add_unat [OF t] a(2) Cons.prems(3) by simp
  from Cons.IH [OF a(3) Cons.prems(2) this] show ?case using a(1) t by simp
qed

section \<open>Lemmas: payloads\<close>

lemma inner_payload_length_eq [simp]:
  "inner_payload_length n = Inr len \<longleftrightarrow> 0 < n \<and> len = 64 + 64 * n \<and> 64 + 64 * n \<le> 16773120"
  by (auto simp: inner_payload_length_def usize_checked_mul_def usize_checked_add_def)










section \<open>Properties\<close>

text \<open>
  C38: An inner node is accepted exactly when its level is not that of a leaf, it has a child, and
  the children tile the range of the file in order, each nonempty and with an allocation total that
  is present and at most its length.
\<close>

theorem validate_node_iff:
  "validate_node file_length level children = Inr () \<longleftrightarrow>
     level \<noteq> 0 \<and> children \<noteq> [] \<and> tiles_from 0 children (unat file_length)"
  by (rule validate_node_eq)



text \<open>
  C29: The allocation total of a node that the constructor accepts is always defined, without
  overflow, and at most the length of the file.
\<close>

theorem allocated_bytes_bounded:
  assumes "ManifestInnerNode_new file_length level children = Inr node"
  shows "\<exists>t. allocated_bytes node = Inr (Some t) \<and> t \<le> file_length"
proof -
  have "tiles_from 0 children (unat file_length)" and "mn_children node = children"
    using assms by (auto simp: ManifestInnerNode_new_def validate_node_eq)
  with sum_allocated_tiles [of 0 children "unat file_length" 0] unsigned_less [of file_length, where 'a = nat]
  show ?thesis by (auto simp: allocated_bytes_def word_le_nat_alt)
qed

theorem allocated_bytes_bounded_witness:
  "ManifestInnerNode_new 12 1 (mn_children sample_inner_node) = Inr sample_inner_node \<and>
   (\<exists>t. allocated_bytes sample_inner_node = Inr (Some t) \<and> t \<le> 12)"
proof -
  have "ManifestInnerNode_new 12 1 (mn_children sample_inner_node) = Inr sample_inner_node"
    by (simp add: ManifestInnerNode_new_def validate_node_eq sample_inner_node_def)
  with allocated_bytes_bounded [OF this] show ?thesis by simp
qed

end
