(* ===== verification/Logical_Quota.thy ===== *)
theory Logical_Quota
  imports Prelude
begin

text \<open>
  Logical quotas, \<open>crates/fastdup-posix/src/logical_quota.rs\<close>: the buckets with their atomic byte
  counters, the index from inodes to buckets, reservations and changes. A shared bucket
  (\<open>Arc<QuotaBucket>\<close>) is an address of a heap of buckets; an index that is replaced leaves the old
  buckets to the changes that still hold them. \<open>None\<close> is a panic of \<open>release\<close>.

  The reservation loop is a compare-and-exchange loop. It is modelled as the steps of a thread that
  are interleaved with all other operations: a load of the counter, and an exchange that succeeds only
  if the counter still has the loaded value and that may also fail spuriously. The operations on the
  index hold its lock and are one step each; \<open>remove_inode\<close> is one step too, although it releases the
  bytes after it has left the lock: until then the counter is only higher than in the model. The relation
  \<open>quota_step\<close> has every operation that changes state. The system also keeps, for the statements only,
  the bytes that are accounted to each bucket outside of outstanding reservations.

  Shown: in every reachable state each counter is the accounted bytes plus the outstanding
  reservations and at most the limit, so the releases of dropped and accepted changes never panic; and
  a thread that runs alone is granted its bytes exactly when they fit.
\<close>

datatype posix_error =
    NoEntry | Exists | NotDirectory | IsDirectory | NotEmpty | InvalidName | NameTooLong
  | InvalidArgument | BadHandle | FileTooLarge | NoSpace | OutOfMemory | NoLocks | NoSuchAddress
  | NoData | TooBig | PermissionDenied | CrossDevice | Unsupported | Io | ReadOnly | Again

type_synonym inode_id = u64

record logical_quota_rule =
  qr_root_inode :: inode_id
  qr_limit_bytes :: u64

record logical_quota_status =
  qs_revision :: bytes
  qs_root_inode :: inode_id
  qs_limit_bytes :: u64
  qs_used_bytes :: u64

record quota_bucket =
  qb_root_inode :: inode_id
  qb_limit_bytes :: u64
  qb_used_bytes :: u64

type_synonym bucket_heap = "quota_bucket list"

record quota_index =
  qi_revision :: bytes
  qi_by_root :: "(inode_id, nat) btree"
  qi_by_inode :: "(inode_id, nat) btree"

record logical_quota_table =
  qt_heap :: bucket_heap
  qt_index :: quota_index

record quota_reservation =
  qv_bucket :: "nat option"
  qv_reserved_bytes :: u64
  qv_accepted :: bool

record quota_change =
  qc_bucket :: "nat option"
  qc_shrink_bytes :: u64
  qc_reservation :: quota_reservation

definition LogicalQuotaRule_new :: "inode_id \<Rightarrow> u64 \<Rightarrow> posix_error + logical_quota_rule" where
  "LogicalQuotaRule_new root_inode limit_bytes =
     (if limit_bytes = 0 then Inl InvalidArgument
      else Inr \<lparr>qr_root_inode = root_inode, qr_limit_bytes = limit_bytes\<rparr>)"

definition QuotaBucket_new :: "inode_id \<Rightarrow> u64 \<Rightarrow> u64 \<Rightarrow> posix_error + quota_bucket" where
  "QuotaBucket_new root_inode limit_bytes used_bytes =
     (if limit_bytes = 0 \<or> used_bytes > limit_bytes then Inl NoSpace
      else Inr \<lparr>qb_root_inode = root_inode, qb_limit_bytes = limit_bytes, qb_used_bytes = used_bytes\<rparr>)"

definition QuotaReservation_empty :: quota_reservation where
  "QuotaReservation_empty = \<lparr>qv_bucket = None, qv_reserved_bytes = 0, qv_accepted = False\<rparr>"

text \<open>One turn of the loop of \<open>try_reserve\<close>: the load with the checks, and the exchange.\<close>

definition reserve_load :: "quota_bucket \<Rightarrow> u64 \<Rightarrow> posix_error + u64 \<times> u64" where
  "reserve_load bucket n =
     (let used = qb_used_bytes bucket in
      and_then (ok_or (checked_add used n) NoSpace) (\<lambda>new_used.
        if new_used > qb_limit_bytes bucket then Inl NoSpace else Inr (used, new_used)))"

definition reserve_exchange :: "quota_bucket \<Rightarrow> u64 \<Rightarrow> u64 \<Rightarrow> quota_bucket option" where
  "reserve_exchange bucket expected new =
     (if qb_used_bytes bucket = expected then Some (bucket\<lparr>qb_used_bytes := new\<rparr>) else None)"

definition granted :: "nat \<Rightarrow> u64 \<Rightarrow> quota_reservation" where
  "granted address n = \<lparr>qv_bucket = Some address, qv_reserved_bytes = n, qv_accepted = False\<rparr>"

definition release :: "bucket_heap \<Rightarrow> nat \<Rightarrow> u64 \<Rightarrow> bucket_heap option" where
  "release heap address n =
     (if n = 0 then Some heap
      else case checked_sub (qb_used_bytes (heap ! address)) n of
        None \<Rightarrow> None
      | Some used \<Rightarrow> Some (heap[address := (heap ! address)\<lparr>qb_used_bytes := used\<rparr>]))"

fun replace_buckets ::
  "bucket_heap \<Rightarrow> (inode_id, nat) btree \<Rightarrow> (inode_id, u64) btree \<Rightarrow> (inode_id, u64) btree
     \<Rightarrow> posix_error + bucket_heap \<times> (inode_id, nat) btree" where
  "replace_buckets heap by_root usage [] = Inr (heap, by_root)"
| "replace_buckets heap by_root usage ((root_inode, limit_bytes) # rules) =
     and_then (QuotaBucket_new root_inode limit_bytes
         (case bt_get usage root_inode of None \<Rightarrow> 0 | Some used \<Rightarrow> used)) (\<lambda>bucket.
       replace_buckets (heap @ [bucket]) (bt_insert root_inode (length heap) by_root) usage rules)"

fun replace_members ::
  "(inode_id, nat) btree \<Rightarrow> (inode_id, nat) btree \<Rightarrow> (inode_id, inode_id) btree
     \<Rightarrow> posix_error + (inode_id, nat) btree" where
  "replace_members by_root by_inode [] = Inr by_inode"
| "replace_members by_root by_inode ((inode, root_inode) # membership) =
     and_then (ok_or (bt_get by_root root_inode) InvalidArgument) (\<lambda>address.
       replace_members by_root (bt_insert inode address by_inode) membership)"

definition LogicalQuotaTable_replace ::
  "logical_quota_table \<Rightarrow> bytes \<Rightarrow> (inode_id, u64) btree \<Rightarrow> (inode_id, inode_id) btree
     \<Rightarrow> (inode_id, u64) btree \<Rightarrow> posix_error + logical_quota_table" where
  "LogicalQuotaTable_replace table revision rules membership usage =
     (if revision = [] \<or> length revision > 128 then Inl InvalidArgument
      else and_then (replace_buckets (qt_heap table) [] usage rules) (\<lambda>(heap, by_root).
        and_then (replace_members by_root [] membership) (\<lambda>by_inode.
          Inr \<lparr>qt_heap = heap,
               qt_index = \<lparr>qi_revision = revision, qi_by_root = by_root, qi_by_inode = by_inode\<rparr>\<rparr>)))"

definition LogicalQuotaTable_revision :: "logical_quota_table \<Rightarrow> bytes" where
  "LogicalQuotaTable_revision table = qi_revision (qt_index table)"

definition bucket_status :: "logical_quota_table \<Rightarrow> nat \<Rightarrow> logical_quota_status" where
  "bucket_status table address =
     (let bucket = qt_heap table ! address in
      \<lparr>qs_revision = qi_revision (qt_index table), qs_root_inode = qb_root_inode bucket,
       qs_limit_bytes = qb_limit_bytes bucket, qs_used_bytes = qb_used_bytes bucket\<rparr>)"

definition LogicalQuotaTable_status :: "logical_quota_table \<Rightarrow> inode_id \<Rightarrow> logical_quota_status option" where
  "LogicalQuotaTable_status table root_inode =
     map_option (bucket_status table) (bt_get (qi_by_root (qt_index table)) root_inode)"

definition status_for_inode :: "logical_quota_table \<Rightarrow> inode_id \<Rightarrow> logical_quota_status option" where
  "status_for_inode table inode =
     map_option (bucket_status table) (bt_get (qi_by_inode (qt_index table)) inode)"

definition root_for :: "logical_quota_table \<Rightarrow> inode_id \<Rightarrow> inode_id option" where
  "root_for table inode =
     map_option (\<lambda>address. qb_root_inode (qt_heap table ! address)) (bt_get (qi_by_inode (qt_index table)) inode)"

text \<open>
  \<open>reserve_change\<close> up to its reservation: the change if no loop has to run, otherwise the bucket, the
  bytes to reserve and the bytes to release on acceptance.
\<close>

definition reserve_change ::
  "logical_quota_table \<Rightarrow> inode_id \<Rightarrow> u64 \<Rightarrow> u64 \<Rightarrow> quota_change + nat \<times> u64 \<times> u64" where
  "reserve_change table inode before after =
     (let bucket = bt_get (qi_by_inode (qt_index table)) inode;
          growth = saturating_sub after before;
          shrink = saturating_sub before after
      in case bucket of
           Some address \<Rightarrow>
             if growth = 0
             then Inl \<lparr>qc_bucket = Some address, qc_shrink_bytes = shrink, qc_reservation = QuotaReservation_empty\<rparr>
             else Inr (address, growth, shrink)
         | None \<Rightarrow>
             Inl \<lparr>qc_bucket = None, qc_shrink_bytes = shrink, qc_reservation = QuotaReservation_empty\<rparr>)"

definition associate_child :: "logical_quota_table \<Rightarrow> inode_id \<Rightarrow> inode_id \<Rightarrow> logical_quota_table" where
  "associate_child table parent child =
     (let index = qt_index table in
      case bt_get (qi_by_inode index) parent of
        Some address \<Rightarrow> table\<lparr>qt_index := index\<lparr>qi_by_inode := bt_insert child address (qi_by_inode index)\<rparr>\<rparr>
      | None \<Rightarrow> table)"

definition same_domain :: "logical_quota_table \<Rightarrow> inode_id \<Rightarrow> inode_id \<Rightarrow> bool" where
  "same_domain table inode parent =
     (case (bt_get (qi_by_inode (qt_index table)) inode, bt_get (qi_by_inode (qt_index table)) parent) of
        (None, None) \<Rightarrow> True
      | (Some left, Some right) \<Rightarrow> left = right
      | _ \<Rightarrow> False)"

definition remove_inode :: "logical_quota_table \<Rightarrow> inode_id \<Rightarrow> u64 \<Rightarrow> logical_quota_table option" where
  "remove_inode table inode allocated_bytes =
     (let index = qt_index table;
          bucket = bt_get (qi_by_inode index) inode;
          table = table\<lparr>qt_index := index\<lparr>qi_by_inode := bt_remove inode (qi_by_inode index)\<rparr>\<rparr>
      in case bucket of
           Some address \<Rightarrow> map_option (\<lambda>heap. table\<lparr>qt_heap := heap\<rparr>) (release (qt_heap table) address allocated_bytes)
         | None \<Rightarrow> Some table)"

definition QuotaReservation_drop :: "bucket_heap \<Rightarrow> quota_reservation \<Rightarrow> bucket_heap option" where
  "QuotaReservation_drop heap reservation =
     (if \<not> qv_accepted reservation
      then case qv_bucket reservation of
             Some address \<Rightarrow> release heap address (qv_reserved_bytes reservation)
           | None \<Rightarrow> Some heap
      else Some heap)"

definition QuotaChange_accept :: "bucket_heap \<Rightarrow> quota_change \<Rightarrow> bucket_heap option" where
  "QuotaChange_accept heap change =
     (let reservation = (qc_reservation change)\<lparr>qv_accepted := True\<rparr> in
      Option.bind
        (case qc_bucket change of
           Some address \<Rightarrow> release heap address (qc_shrink_bytes change)
         | None \<Rightarrow> Some heap)
        (\<lambda>heap. QuotaReservation_drop heap reservation))"

definition QuotaChange_drop :: "bucket_heap \<Rightarrow> quota_change \<Rightarrow> bucket_heap option" where
  "QuotaChange_drop heap change = QuotaReservation_drop heap (qc_reservation change)"

section \<open>Threads and steps\<close>

datatype reserve_pc = Load | Exchange u64 u64

record reserver =
  rv_bucket :: nat
  rv_bytes :: u64
  rv_shrink :: u64
  rv_pc :: reserve_pc

record quota_system =
  sys_table :: logical_quota_table
  sys_threads :: "nat \<Rightarrow> reserver option"
  sys_changes :: "quota_change list"
  sys_accounted :: "nat list"

abbreviation sys_heap :: "quota_system \<Rightarrow> bucket_heap" where
  "sys_heap s \<equiv> qt_heap (sys_table s)"

definition set_heap :: "bucket_heap \<Rightarrow> quota_system \<Rightarrow> quota_system" where
  "set_heap heap s = s\<lparr>sys_table := (sys_table s)\<lparr>qt_heap := heap\<rparr>\<rparr>"

definition reserved_at :: "nat \<Rightarrow> quota_change \<Rightarrow> nat" where
  "reserved_at a change =
     (if qv_bucket (qc_reservation change) = Some a then unat (qv_reserved_bytes (qc_reservation change)) else 0)"

definition shrink_at :: "nat \<Rightarrow> quota_change \<Rightarrow> nat" where
  "shrink_at a change = (if qc_bucket change = Some a then unat (qc_shrink_bytes change) else 0)"

definition granted_change :: "reserver \<Rightarrow> quota_change" where
  "granted_change r = \<lparr>qc_bucket = Some (rv_bucket r), qc_shrink_bytes = rv_shrink r,
     qc_reservation = granted (rv_bucket r) (rv_bytes r)\<rparr>"

definition quota_initial :: quota_system where
  "quota_initial = \<lparr>sys_table = \<lparr>qt_heap = [], qt_index = \<lparr>qi_revision = [], qi_by_root = [], qi_by_inode = []\<rparr>\<rparr>,
     sys_threads = (\<lambda>_. None), sys_changes = [], sys_accounted = []\<rparr>"

text \<open>
  A caller accepts a change, or removes an inode, only with bytes that are accounted to the bucket;
  this is the condition the \<open>expect\<close> of \<open>release\<close> names.
\<close>

inductive quota_step :: "quota_system \<Rightarrow> quota_system \<Rightarrow> bool" where
  change_immediate: "reserve_change (sys_table s) inode before after = Inl change \<Longrightarrow>
     quota_step s (s\<lparr>sys_changes := change # sys_changes s\<rparr>)"
| change_start: "reserve_change (sys_table s) inode before after = Inr (address, growth, shrink) \<Longrightarrow>
     sys_threads s t = None \<Longrightarrow>
     quota_step s (s\<lparr>sys_threads := (sys_threads s)(t \<mapsto>
       \<lparr>rv_bucket = address, rv_bytes = growth, rv_shrink = shrink, rv_pc = Load\<rparr>)\<rparr>)"
| load_fits: "sys_threads s t = Some r \<Longrightarrow> rv_pc r = Load \<Longrightarrow>
     reserve_load (sys_heap s ! rv_bucket r) (rv_bytes r) = Inr (used, new_used) \<Longrightarrow>
     quota_step s (s\<lparr>sys_threads := (sys_threads s)(t \<mapsto> r\<lparr>rv_pc := Exchange used new_used\<rparr>)\<rparr>)"
| load_full: "sys_threads s t = Some r \<Longrightarrow> rv_pc r = Load \<Longrightarrow>
     reserve_load (sys_heap s ! rv_bucket r) (rv_bytes r) = Inl e \<Longrightarrow>
     quota_step s (s\<lparr>sys_threads := (sys_threads s)(t := None)\<rparr>)"
| exchange_succeeds: "sys_threads s t = Some r \<Longrightarrow> rv_pc r = Exchange used new_used \<Longrightarrow>
     reserve_exchange (sys_heap s ! rv_bucket r) used new_used = Some bucket \<Longrightarrow>
     quota_step s (set_heap ((sys_heap s)[rv_bucket r := bucket]) s
       \<lparr>sys_threads := (sys_threads s)(t := None), sys_changes := granted_change r # sys_changes s\<rparr>)"
| exchange_fails: "sys_threads s t = Some r \<Longrightarrow> rv_pc r = Exchange used new_used \<Longrightarrow>
     quota_step s (s\<lparr>sys_threads := (sys_threads s)(t \<mapsto> r\<lparr>rv_pc := Load\<rparr>)\<rparr>)"
| accept_change: "sys_changes s = cs @ change # ds \<Longrightarrow>
     list_all (\<lambda>a. shrink_at a change \<le> sys_accounted s ! a) [0..<length (sys_accounted s)] \<Longrightarrow>
     QuotaChange_accept (sys_heap s) change = Some heap \<Longrightarrow>
     quota_step s (set_heap heap s\<lparr>sys_changes := cs @ ds,
       sys_accounted := map (\<lambda>a. sys_accounted s ! a + reserved_at a change - shrink_at a change)
         [0..<length (sys_accounted s)]\<rparr>)"
| drop_change: "sys_changes s = cs @ change # ds \<Longrightarrow>
     QuotaChange_drop (sys_heap s) change = Some heap \<Longrightarrow>
     quota_step s (set_heap heap s\<lparr>sys_changes := cs @ ds\<rparr>)"
| associate: "quota_step s (s\<lparr>sys_table := associate_child (sys_table s) parent child\<rparr>)"
| remove_unknown: "bt_get (qi_by_inode (qt_index (sys_table s))) inode = None \<Longrightarrow>
     remove_inode (sys_table s) inode n = Some table \<Longrightarrow>
     quota_step s (s\<lparr>sys_table := table\<rparr>)"
| remove_known: "bt_get (qi_by_inode (qt_index (sys_table s))) inode = Some address \<Longrightarrow>
     unat n \<le> sys_accounted s ! address \<Longrightarrow>
     remove_inode (sys_table s) inode n = Some table \<Longrightarrow>
     quota_step s (s\<lparr>sys_table := table,
       sys_accounted := (sys_accounted s)[address := sys_accounted s ! address - unat n]\<rparr>)"
| replace: "LogicalQuotaTable_replace (sys_table s) revision rules membership usage = Inr table \<Longrightarrow>
     quota_step s (s\<lparr>sys_table := table, sys_accounted := sys_accounted s @
       map (unat \<circ> qb_used_bytes) (drop (length (sys_heap s)) (qt_heap table))\<rparr>)"

inductive quota_reachable :: "quota_system \<Rightarrow> bool" where
  initial: "quota_reachable quota_initial"
| step: "quota_reachable s \<Longrightarrow> quota_step s s' \<Longrightarrow> quota_reachable s'"

text \<open>The invariant: the ledger of every bucket, and that every address in use is one of the heap.\<close>

definition bucket_ok :: "quota_bucket \<Rightarrow> nat \<Rightarrow> bool" where
  "bucket_ok bucket total_bytes \<longleftrightarrow>
     unat (qb_used_bytes bucket) = total_bytes \<and> qb_used_bytes bucket \<le> qb_limit_bytes bucket"

definition outstanding :: "quota_change list \<Rightarrow> nat \<Rightarrow> nat" where
  "outstanding cs a = sum_list (map (reserved_at a) cs)"

definition change_ok :: "nat \<Rightarrow> quota_change \<Rightarrow> bool" where
  "change_ok n change \<longleftrightarrow> pred_option (\<lambda>a. a < n) (qc_bucket change) \<and>
     pred_option (\<lambda>a. a < n) (qv_bucket (qc_reservation change)) \<and> \<not> qv_accepted (qc_reservation change)"

definition thread_ok :: "nat \<Rightarrow> bucket_heap \<Rightarrow> reserver \<Rightarrow> bool" where
  "thread_ok n heap r \<longleftrightarrow> rv_bucket r < n \<and>
     (case rv_pc r of Load \<Rightarrow> True
      | Exchange used new_used \<Rightarrow> unat new_used = unat used + unat (rv_bytes r) \<and> new_used \<le> qb_limit_bytes (heap ! rv_bucket r))"

definition quota_inv :: "quota_system \<Rightarrow> bool" where
  "quota_inv s \<longleftrightarrow>
     length (sys_accounted s) = length (sys_heap s) \<and>
     (\<forall>a<length (sys_heap s). bucket_ok (sys_heap s ! a) (sys_accounted s ! a + outstanding (sys_changes s) a)) \<and>
     list_all (change_ok (length (sys_heap s))) (sys_changes s) \<and>
     (\<forall>t r. sys_threads s t = Some r \<longrightarrow> thread_ok (length (sys_heap s)) (sys_heap s) r) \<and>
     list_all (\<lambda>(_, a). a < length (sys_heap s)) (qi_by_inode (qt_index (sys_table s)))"

definition sample_quota :: quota_system where
  "sample_quota = \<lparr>sys_table = \<lparr>qt_heap = [\<lparr>qb_root_inode = 7, qb_limit_bytes = 100, qb_used_bytes = 40\<rparr>],
       qt_index = \<lparr>qi_revision = [114], qi_by_root = [(7, 0)], qi_by_inode = [(7, 0), (8, 0)]\<rparr>\<rparr>,
     sys_threads = (\<lambda>_. None), sys_changes = [], sys_accounted = [40]\<rparr>"

text \<open>The same state with a change that shrinks a file, and with a thread that reserves ten bytes.\<close>

definition sample_shrinking :: quota_system where
  "sample_shrinking = sample_quota\<lparr>sys_changes :=
     [\<lparr>qc_bucket = Some 0, qc_shrink_bytes = 3, qc_reservation = QuotaReservation_empty\<rparr>]\<rparr>"


section \<open>Lemmas: single operations\<close>

lemma release_effect:
  assumes "release heap a n = Some heap'" "a < length heap"
  shows "length heap' = length heap"
    and "i < length heap \<Longrightarrow> qb_limit_bytes (heap' ! i) = qb_limit_bytes (heap ! i)"
    and "i < length heap \<Longrightarrow> unat (qb_used_bytes (heap' ! i)) =
           unat (qb_used_bytes (heap ! i)) - (if i = a then unat n else 0)"
    and "unat n \<le> unat (qb_used_bytes (heap ! a))"
  using assms checked_sub_unat [of "qb_used_bytes (heap ! a)" n]
  by (auto simp: release_def nth_list_update word_le_nat_alt split: if_splits option.splits)

lemma release_total:
  "unat n \<le> unat (qb_used_bytes (heap ! a)) \<Longrightarrow> \<exists>heap'. release heap a n = Some heap'"
  by (auto simp: release_def checked_sub_def word_le_nat_alt split: option.splits)

lemma drop_effect:
  assumes "QuotaChange_drop heap c = Some heap'" "change_ok (length heap) c"
  shows "length heap' = length heap"
    and "i < length heap \<Longrightarrow> qb_limit_bytes (heap' ! i) = qb_limit_bytes (heap ! i)"
    and "i < length heap \<Longrightarrow> unat (qb_used_bytes (heap' ! i)) = unat (qb_used_bytes (heap ! i)) - reserved_at i c"
proof -
  show "length heap' = length heap"
    using assms release_effect(1)
    by (auto simp: QuotaChange_drop_def QuotaReservation_drop_def change_ok_def split: if_splits option.splits)
  show "qb_limit_bytes (heap' ! i) = qb_limit_bytes (heap ! i)" if "i < length heap"
    using assms release_effect(2) that
    by (auto simp: QuotaChange_drop_def QuotaReservation_drop_def change_ok_def split: if_splits option.splits)
  show "unat (qb_used_bytes (heap' ! i)) = unat (qb_used_bytes (heap ! i)) - reserved_at i c" if "i < length heap"
    using assms release_effect(3) that
    by (auto simp: QuotaChange_drop_def QuotaReservation_drop_def change_ok_def reserved_at_def
        split: if_splits option.splits)
qed

lemma drop_total:
  assumes "change_ok (length heap) c" "\<forall>a<length heap. reserved_at a c \<le> unat (qb_used_bytes (heap ! a))"
  shows "\<exists>heap'. QuotaChange_drop heap c = Some heap'"
  using assms release_total
  by (auto simp: QuotaChange_drop_def QuotaReservation_drop_def change_ok_def reserved_at_def split: option.splits)

lemma accept_eq:
  "QuotaChange_accept heap c =
     (case qc_bucket c of Some a \<Rightarrow> release heap a (qc_shrink_bytes c) | None \<Rightarrow> Some heap)"
  by (simp add: QuotaChange_accept_def Let_def QuotaReservation_drop_def split: option.split)

lemma accept_effect:
  assumes "QuotaChange_accept heap c = Some heap'" "change_ok (length heap) c"
  shows "length heap' = length heap"
    and "i < length heap \<Longrightarrow> qb_limit_bytes (heap' ! i) = qb_limit_bytes (heap ! i)"
    and "i < length heap \<Longrightarrow> unat (qb_used_bytes (heap' ! i)) = unat (qb_used_bytes (heap ! i)) - shrink_at i c"
  using assms release_effect(1-3)
  by (auto simp: accept_eq change_ok_def shrink_at_def split: option.splits)

lemma accept_total:
  assumes "change_ok (length heap) c" "\<forall>a<length heap. shrink_at a c \<le> unat (qb_used_bytes (heap ! a))"
  shows "\<exists>heap'. QuotaChange_accept heap c = Some heap'"
  using assms release_total by (auto simp: accept_eq change_ok_def shrink_at_def split: option.splits)

lemma reserve_load_eq:
  "reserve_load b n = Inr (used, new_used) \<longleftrightarrow>
     used = qb_used_bytes b \<and> checked_add used n = Some new_used \<and> new_used \<le> qb_limit_bytes b"
  by (cases "checked_add (qb_used_bytes b) n") (auto simp: reserve_load_def Let_def)

lemma QuotaBucket_new_within: "QuotaBucket_new root n used = Inr b \<Longrightarrow> qb_used_bytes b \<le> qb_limit_bytes b"
  by (auto simp: QuotaBucket_new_def split: if_splits)

lemma replace_buckets_extends:
  "replace_buckets heap by_root usage rules = Inr (heap', by_root') \<Longrightarrow> list_all (\<lambda>(_, a). a < length heap) by_root \<Longrightarrow>
     (\<exists>new. heap' = heap @ new \<and> list_all (\<lambda>b. qb_used_bytes b \<le> qb_limit_bytes b) new) \<and>
     list_all (\<lambda>(_, a). a < length heap') by_root'"
proof (induction rules arbitrary: heap by_root)
  case Nil
  then show ?case by simp
next
  case (Cons rule rules)
  obtain root limit_bytes where rule: "rule = (root, limit_bytes)" by (cases rule)
  from Cons.prems(1) obtain b where b: "qb_used_bytes b \<le> qb_limit_bytes b"
      "replace_buckets (heap @ [b]) (bt_insert root (length heap) by_root) usage rules = Inr (heap', by_root')"
    by (auto simp: rule dest: QuotaBucket_new_within)
  have "list_all (\<lambda>(_, a). a < length (heap @ [b])) (bt_insert root (length heap) by_root)"
    using Cons.prems(2) by (force simp: list_all_iff dest: bt_insert_mem)
  from Cons.IH [OF b(2) this] b(1) show ?case by auto
qed

lemma replace_members_valid:
  "replace_members by_root by_inode membership = Inr by_inode' \<Longrightarrow> list_all (\<lambda>(_, a). a < n) by_root \<Longrightarrow>
     list_all (\<lambda>(_, a). a < n) by_inode \<Longrightarrow> list_all (\<lambda>(_, a). a < n) by_inode'"
proof (induction membership arbitrary: by_inode)
  case Nil
  then show ?case by simp
next
  case (Cons m ms)
  obtain inode root where m: "m = (inode, root)" by (cases m)
  from Cons.prems(1) obtain a where a: "bt_get by_root root = Some a"
      "replace_members by_root (bt_insert inode a by_inode) ms = Inr by_inode'"
    by (auto simp: m)
  have "a < n" using a(1) Cons.prems(2) by (auto simp: bt_get_def list_all_iff dest: map_of_SomeD)
  then have "list_all (\<lambda>(_, a). a < n) (bt_insert inode a by_inode)"
    using Cons.prems(3) by (force simp: list_all_iff dest: bt_insert_mem)
  from Cons.IH [OF a(2) Cons.prems(2) this] show ?case .
qed

section \<open>Lemmas: the invariant\<close>

lemma outstanding_simps:
  "outstanding (c # cs) a = reserved_at a c + outstanding cs a"
  "outstanding (cs @ ds) a = outstanding cs a + outstanding ds a"
  "outstanding [] a = 0"
  by (simp_all add: outstanding_def)

lemma outstanding_fresh: "list_all (change_ok n) cs \<Longrightarrow> n \<le> a \<Longrightarrow> outstanding cs a = 0"
  by (induction cs) (auto simp: outstanding_simps change_ok_def reserved_at_def)

lemma reserve_change_ok:
  assumes "list_all (\<lambda>(_, a). a < n) (qi_by_inode (qt_index table))"
  shows "reserve_change table inode before after = Inl c \<Longrightarrow> change_ok n c \<and> reserved_at a c = 0"
    and "reserve_change table inode before after = Inr (address, growth, shrink) \<Longrightarrow> address < n"
  using assms
  by (auto simp: reserve_change_def Let_def change_ok_def reserved_at_def QuotaReservation_empty_def bt_get_def
      list_all_iff dest!: map_of_SomeD split: option.splits if_splits)

text \<open>Invariance under a change of the heap that keeps the limits.\<close>

lemma quota_inv_heap:
  assumes inv: "quota_inv s" and len: "length (sys_heap s') = length (sys_heap s)"
    and limits: "\<And>i. i < length (sys_heap s) \<Longrightarrow> qb_limit_bytes (sys_heap s' ! i) = qb_limit_bytes (sys_heap s ! i)"
    and index: "list_all (\<lambda>(_, a). a < length (sys_heap s)) (qi_by_inode (qt_index (sys_table s')))"
    and acc: "length (sys_accounted s') = length (sys_heap s)"
    and ledger: "\<And>i. i < length (sys_heap s) \<Longrightarrow> unat (qb_used_bytes (sys_heap s' ! i)) =
        sys_accounted s' ! i + outstanding (sys_changes s') i"
      "\<And>i. i < length (sys_heap s) \<Longrightarrow> qb_used_bytes (sys_heap s' ! i) \<le> qb_limit_bytes (sys_heap s ! i)"
    and changes: "list_all (change_ok (length (sys_heap s))) (sys_changes s')"
    and threads: "\<And>t r. sys_threads s' t = Some r \<Longrightarrow> thread_ok (length (sys_heap s)) (sys_heap s) r"
  shows "quota_inv s'"
proof -
  have "thread_ok (length (sys_heap s')) (sys_heap s') r" if "sys_threads s' t = Some r" for t r
    using threads [OF that] limits len by (auto simp: thread_ok_def split: reserve_pc.splits)
  then show ?thesis
    using assms by (simp add: quota_inv_def bucket_ok_def)
qed

lemma quota_invD:
  assumes "quota_inv s"
  shows "length (sys_accounted s) = length (sys_heap s)"
    and "a < length (sys_heap s) \<Longrightarrow> unat (qb_used_bytes (sys_heap s ! a)) =
      sys_accounted s ! a + outstanding (sys_changes s) a"
    and "a < length (sys_heap s) \<Longrightarrow> qb_used_bytes (sys_heap s ! a) \<le> qb_limit_bytes (sys_heap s ! a)"
    and "list_all (change_ok (length (sys_heap s))) (sys_changes s)"
    and "sys_threads s t = Some r \<Longrightarrow> thread_ok (length (sys_heap s)) (sys_heap s) r"
    and "list_all (\<lambda>(_, a). a < length (sys_heap s)) (qi_by_inode (qt_index (sys_table s)))"
  using assms by (simp_all add: quota_inv_def bucket_ok_def)

text \<open>Steps that leave the heap and the accounted bytes as they are.\<close>

lemma quota_inv_frame:
  assumes "quota_inv s" "sys_heap s' = sys_heap s" "sys_accounted s' = sys_accounted s"
    "list_all (change_ok (length (sys_heap s))) (sys_changes s')" "\<And>a. outstanding (sys_changes s') a = outstanding (sys_changes s) a"
    "\<And>t r. sys_threads s' t = Some r \<Longrightarrow> thread_ok (length (sys_heap s)) (sys_heap s) r"
    "list_all (\<lambda>(_, a). a < length (sys_heap s)) (qi_by_inode (qt_index (sys_table s')))"
  shows "quota_inv s'"
  using assms by (simp add: quota_inv_def)

lemma step_inv_exchange:
  assumes inv: "quota_inv s" and r: "sys_threads s t = Some r" "rv_pc r = Exchange used new_used"
    and b: "reserve_exchange (sys_heap s ! rv_bucket r) used new_used = Some bucket"
  shows "quota_inv (set_heap ((sys_heap s)[rv_bucket r := bucket]) s
    \<lparr>sys_threads := (sys_threads s)(t := None), sys_changes := granted_change r # sys_changes s\<rparr>)" (is "quota_inv ?s")
proof -
  let ?a = "rv_bucket r"
  have ok: "?a < length (sys_heap s)" "unat new_used = unat used + unat (rv_bytes r)"
      "new_used \<le> qb_limit_bytes (sys_heap s ! ?a)"
    using quota_invD(5) [OF inv r(1)] r(2) by (simp_all add: thread_ok_def)
  have bucket: "bucket = (sys_heap s ! ?a)\<lparr>qb_used_bytes := new_used\<rparr>" "used = qb_used_bytes (sys_heap s ! ?a)"
    using b by (simp_all add: reserve_exchange_def split: if_splits)
  have reserved: "reserved_at i (granted_change r) = (if i = ?a then unat (rv_bytes r) else 0)" for i
    by (simp add: reserved_at_def granted_change_def granted_def)
  show ?thesis
  proof (rule quota_inv_heap [OF inv])
    show "list_all (change_ok (length (sys_heap s))) (sys_changes ?s)"
      using quota_invD(4) [OF inv] ok(1) by (simp add: change_ok_def granted_change_def granted_def)
    show "unat (qb_used_bytes (sys_heap ?s ! i)) = sys_accounted ?s ! i + outstanding (sys_changes ?s) i"
      if "i < length (sys_heap s)" for i
      using quota_invD(2) [OF inv that] that ok(2) bucket
      by (auto simp: set_heap_def nth_list_update outstanding_simps reserved)
    show "thread_ok (length (sys_heap s)) (sys_heap s) q" if "sys_threads ?s u = Some q" for u q
      using quota_invD(5) [OF inv, of u q] that by (simp split: if_splits)
  qed (use quota_invD [OF inv] ok bucket in \<open>auto simp: set_heap_def nth_list_update\<close>)
qed

lemma change_in_list:
  assumes "quota_inv s" "sys_changes s = cs @ c # ds"
  shows "change_ok (length (sys_heap s)) c" "list_all (change_ok (length (sys_heap s))) (cs @ ds)"
    and "outstanding (sys_changes s) a = reserved_at a c + outstanding (cs @ ds) a"
  using quota_invD(4) [OF assms(1)] assms(2) by (simp_all add: outstanding_simps)

lemma change_reserved:
  assumes "quota_inv s" "sys_changes s = cs @ c # ds" "a < length (sys_heap s)"
  shows "unat (qb_used_bytes (sys_heap s ! a)) = sys_accounted s ! a + reserved_at a c + outstanding (cs @ ds) a"
  using quota_invD(2) [OF assms(1,3)] change_in_list(3) [OF assms(1,2)] by simp

lemma step_inv_accept:
  assumes inv: "quota_inv s" and cs: "sys_changes s = cs @ c # ds"
    and shrink: "list_all (\<lambda>a. shrink_at a c \<le> sys_accounted s ! a) [0..<length (sys_accounted s)]"
    and heap: "QuotaChange_accept (sys_heap s) c = Some heap"
  shows "quota_inv (set_heap heap s\<lparr>sys_changes := cs @ ds, sys_accounted :=
    map (\<lambda>a. sys_accounted s ! a + reserved_at a c - shrink_at a c) [0..<length (sys_accounted s)]\<rparr>)" (is "quota_inv ?s")
proof -
  note c = change_in_list [OF inv cs]
  note effect = accept_effect [OF heap c(1)]
  have le: "shrink_at i c \<le> sys_accounted s ! i" if "i < length (sys_heap s)" for i
    using shrink that quota_invD(1) [OF inv] by (simp add: list_all_iff)
  show ?thesis
  proof (rule quota_inv_heap [OF inv])
    show "unat (qb_used_bytes (sys_heap ?s ! i)) = sys_accounted ?s ! i + outstanding (sys_changes ?s) i"
      if "i < length (sys_heap s)" for i
      using change_reserved [OF inv cs that] effect(3) [OF that] le [OF that] that quota_invD(1) [OF inv]
      by (simp add: set_heap_def)
    show "qb_used_bytes (sys_heap ?s ! i) \<le> qb_limit_bytes (sys_heap s ! i)" if "i < length (sys_heap s)" for i
      using quota_invD(3) [OF inv that] effect(3) [OF that] by (simp add: set_heap_def word_le_nat_alt)
  qed (use quota_invD [OF inv] effect c in \<open>simp_all add: set_heap_def\<close>)
qed

lemma step_inv_drop:
  assumes inv: "quota_inv s" and cs: "sys_changes s = cs @ c # ds"
    and heap: "QuotaChange_drop (sys_heap s) c = Some heap"
  shows "quota_inv (set_heap heap s\<lparr>sys_changes := cs @ ds\<rparr>)" (is "quota_inv ?s")
proof -
  note c = change_in_list [OF inv cs]
  note effect = drop_effect [OF heap c(1)]
  show ?thesis
  proof (rule quota_inv_heap [OF inv])
    show "unat (qb_used_bytes (sys_heap ?s ! i)) = sys_accounted ?s ! i + outstanding (sys_changes ?s) i"
      if "i < length (sys_heap s)" for i
      using change_reserved [OF inv cs that] effect(3) [OF that] by (simp add: set_heap_def)
    show "qb_used_bytes (sys_heap ?s ! i) \<le> qb_limit_bytes (sys_heap s ! i)" if "i < length (sys_heap s)" for i
      using quota_invD(3) [OF inv that] effect(3) [OF that] by (simp add: set_heap_def word_le_nat_alt)
  qed (use quota_invD [OF inv] effect c in \<open>simp_all add: set_heap_def\<close>)
qed

lemma step_inv_remove:
  assumes inv: "quota_inv s" and i: "bt_get (qi_by_inode (qt_index (sys_table s))) inode = Some a"
    and n: "unat n \<le> sys_accounted s ! a" and table: "remove_inode (sys_table s) inode n = Some table"
  shows "quota_inv (s\<lparr>sys_table := table,
    sys_accounted := (sys_accounted s)[a := sys_accounted s ! a - unat n]\<rparr>)" (is "quota_inv ?s")
proof -
  have a: "a < length (sys_heap s)"
    using quota_invD(6) [OF inv] i by (auto simp: bt_get_def list_all_iff dest!: map_of_SomeD)
  obtain heap where heap: "release (sys_heap s) a n = Some heap" "qt_heap table = heap"
      "qi_by_inode (qt_index table) = bt_remove inode (qi_by_inode (qt_index (sys_table s)))"
    using table i by (auto simp: remove_inode_def Let_def)
  note effect = release_effect [OF heap(1) a]
  show ?thesis
  proof (rule quota_inv_heap [OF inv])
    show "list_all (\<lambda>(_, a). a < length (sys_heap s)) (qi_by_inode (qt_index (sys_table ?s)))"
      using quota_invD(6) [OF inv] heap(3) by (auto simp: list_all_iff bt_remove_def)
    show "unat (qb_used_bytes (sys_heap ?s ! i)) = sys_accounted ?s ! i + outstanding (sys_changes ?s) i"
      if "i < length (sys_heap s)" for i
      using quota_invD(2) [OF inv that] effect(3) [OF that] n that a quota_invD(1) [OF inv] heap(2)
      by (auto simp: nth_list_update)
    show "qb_used_bytes (sys_heap ?s ! i) \<le> qb_limit_bytes (sys_heap s ! i)" if "i < length (sys_heap s)" for i
      using quota_invD(3) [OF inv that] effect(3) [OF that] heap(2) by (simp add: word_le_nat_alt)
  qed (use quota_invD [OF inv] effect heap in simp_all)
qed

lemma replace_extends:
  assumes "LogicalQuotaTable_replace table revision rules membership usage = Inr table'"
  shows "\<exists>new. qt_heap table' = qt_heap table @ new \<and> list_all (\<lambda>b. qb_used_bytes b \<le> qb_limit_bytes b) new \<and>
    list_all (\<lambda>(_, a). a < length (qt_heap table')) (qi_by_inode (qt_index table'))"
proof -
  obtain heap by_root by_inode where *: "replace_buckets (qt_heap table) [] usage rules = Inr (heap, by_root)"
      "replace_members by_root [] membership = Inr by_inode"
      "qt_heap table' = heap" "qi_by_inode (qt_index table') = by_inode"
    using assms by (auto simp: LogicalQuotaTable_replace_def split: if_splits prod.splits)
  from replace_buckets_extends [OF *(1)] replace_members_valid [OF *(2), of "length heap"] *(3,4)
  show ?thesis by auto
qed

lemma step_inv_replace:
  assumes inv: "quota_inv s" and table: "LogicalQuotaTable_replace (sys_table s) revision rules membership usage = Inr table"
  shows "quota_inv (s\<lparr>sys_table := table, sys_accounted := sys_accounted s @
    map (unat \<circ> qb_used_bytes) (drop (length (sys_heap s)) (qt_heap table))\<rparr>)" (is "quota_inv ?s")
proof -
  let ?n = "length (sys_heap s)"
  obtain new where new: "qt_heap table = sys_heap s @ new" "list_all (\<lambda>b. qb_used_bytes b \<le> qb_limit_bytes b) new"
      "list_all (\<lambda>(_, a). a < length (qt_heap table)) (qi_by_inode (qt_index table))"
    using replace_extends [OF table] by blast
  note inv' = quota_invD [OF inv]
  have bucket: "bucket_ok (sys_heap ?s ! a) (sys_accounted ?s ! a + outstanding (sys_changes ?s) a)"
    if "a < length (sys_heap ?s)" for a
  proof (cases "a < ?n")
    case True
    then show ?thesis using inv'(1-3) new(1) by (simp add: bucket_ok_def nth_append)
  next
    case False
    then have a: "a - ?n < length new" "?n \<le> a" using that new(1) by auto
    then show ?thesis
      using new(1,2) inv'(1) outstanding_fresh [OF inv'(4) a(2)]
      by (simp add: bucket_ok_def nth_append list_all_length)
  qed
  have weaken: "change_ok ?n c \<Longrightarrow> change_ok (length (sys_heap ?s)) c" for c
    using new(1) by (auto simp: change_ok_def pred_option_def)
  have changes: "list_all (change_ok (length (sys_heap ?s))) (sys_changes ?s)"
    using inv'(4) weaken by (auto simp: list_all_iff)
  have threads: "thread_ok (length (sys_heap ?s)) (sys_heap ?s) r" if "sys_threads ?s t = Some r" for t r
    using inv'(5) [of t r] that new(1) by (auto simp: thread_ok_def nth_append split: reserve_pc.splits)
  show ?thesis
    unfolding quota_inv_def using bucket changes threads new(1,3) inv'(1) by simp
qed

lemma step_inv:
  assumes step: "quota_step s s'" and inv: "quota_inv s"
  shows "quota_inv s'"
  using step
proof cases
  case (change_immediate inode before after change)
  then show ?thesis
    using quota_invD [OF inv] reserve_change_ok(1) [OF quota_invD(6) [OF inv] change_immediate(2)]
    by (intro quota_inv_frame [OF inv]) (simp_all add: outstanding_simps)
next
  case (change_start inode before after address growth shrink t)
  then show ?thesis
    using quota_invD [OF inv] reserve_change_ok(2) [OF quota_invD(6) [OF inv] change_start(2)]
    by (intro quota_inv_frame [OF inv]) (auto simp: thread_ok_def split: if_splits)
next
  case (load_fits t r used new_used)
  then have "unat new_used = unat used + unat (rv_bytes r)" "new_used \<le> qb_limit_bytes (sys_heap s ! rv_bucket r)"
    using checked_add_unat by (auto simp: reserve_load_eq)
  with load_fits show ?thesis
    using quota_invD [OF inv] by (intro quota_inv_frame [OF inv]) (auto simp: thread_ok_def split: if_splits)
next
  case (load_full t r e)
  then show ?thesis
    using quota_invD [OF inv] by (intro quota_inv_frame [OF inv]) (auto split: if_splits)
next
  case (exchange_fails t r used new_used)
  then show ?thesis
    using quota_invD [OF inv] by (intro quota_inv_frame [OF inv]) (auto simp: thread_ok_def split: if_splits)
next
  case (associate parent child)
  then show ?thesis
    using quota_invD [OF inv]
    by (intro quota_inv_frame [OF inv])
      (auto simp: associate_child_def Let_def bt_get_def list_all_iff dest!: map_of_SomeD bt_insert_mem split: option.splits)
next
  case (remove_unknown inode n table)
  then show ?thesis
    using quota_invD [OF inv]
    by (intro quota_inv_frame [OF inv]) (auto simp: remove_inode_def Let_def list_all_iff bt_remove_def)
next
  case (exchange_succeeds t r used new_used bucket)
  from step_inv_exchange [OF inv exchange_succeeds(2-4)] exchange_succeeds(1) show ?thesis by simp
next
  case (accept_change cs change ds heap)
  from step_inv_accept [OF inv accept_change(2-4)] accept_change(1) show ?thesis by simp
next
  case (drop_change cs change ds heap)
  from step_inv_drop [OF inv drop_change(2,3)] drop_change(1) show ?thesis by simp
next
  case (remove_known inode address n table)
  from step_inv_remove [OF inv remove_known(2-4)] remove_known(1) show ?thesis by simp
next
  case (replace revision rules membership usage table)
  from step_inv_replace [OF inv replace(2)] replace(1) show ?thesis by simp
qed

lemma reachable_inv: "quota_reachable s \<Longrightarrow> quota_inv s"
proof (induction rule: quota_reachable.induct)
  case initial
  then show ?case by (simp add: quota_inv_def quota_initial_def)
next
  case (step s s')
  then show ?case using step_inv by blast
qed

lemma sample_replace:
  "LogicalQuotaTable_replace (sys_table quota_initial) [114] [(7, 100)] [(7, 7), (8, 7)] [(7, 40)] = Inr (sys_table sample_quota)"
  by (simp add: LogicalQuotaTable_replace_def quota_initial_def sample_quota_def QuotaBucket_new_def bt_get_def)

lemma sample_reachable: "quota_reachable sample_quota"
proof -
  have "quota_step quota_initial sample_quota"
    using quota_step.replace [OF sample_replace] by (simp add: quota_initial_def sample_quota_def)
  then show ?thesis by (rule quota_reachable.step [OF quota_reachable.initial])
qed

lemma sample_shrinking_reachable: "quota_reachable sample_shrinking"
proof -
  have "reserve_change (sys_table sample_quota) 8 5 2 =
      Inl \<lparr>qc_bucket = Some 0, qc_shrink_bytes = 3, qc_reservation = QuotaReservation_empty\<rparr>"
    by (simp add: reserve_change_def sample_quota_def bt_get_def saturating_sub_def)
  from quota_step.change_immediate [OF this] have "quota_step sample_quota sample_shrinking"
    by (simp add: sample_shrinking_def sample_quota_def)
  then show ?thesis by (rule quota_reachable.step [OF sample_reachable])
qed


section \<open>Properties\<close>

text \<open>
  C4: In every state that any interleaving of the operations can reach, the counter of each bucket is
  the accounted bytes plus the bytes of all outstanding reservations, and it is at most the limit.
\<close>

theorem quota_never_exceeded:
  assumes "quota_reachable s" and "a < length (sys_heap s)"
  shows "qb_used_bytes (sys_heap s ! a) \<le> qb_limit_bytes (sys_heap s ! a) \<and>
    unat (qb_used_bytes (sys_heap s ! a)) = sys_accounted s ! a + outstanding (sys_changes s) a"
  using quota_invD(2,3) [OF reachable_inv [OF assms(1)] assms(2)] by simp

theorem quota_never_exceeded_witness:
  "quota_reachable sample_quota \<and> (0 :: nat) < length (sys_heap sample_quota) \<and>
   qb_used_bytes (sys_heap sample_quota ! 0) \<le> qb_limit_bytes (sys_heap sample_quota ! 0)"
  using quota_never_exceeded [OF sample_reachable, of 0] sample_reachable by (simp add: sample_quota_def)

text \<open>
  C21: Releasing never panics: every outstanding change can be dropped in every reachable state, and it
  can be accepted when the bytes it gives back are accounted to its bucket.
\<close>

theorem quota_release_never_panics:
  assumes "quota_reachable s" and "change \<in> set (sys_changes s)"
  shows "QuotaChange_drop (sys_heap s) change \<noteq> None \<and>
    (list_all (\<lambda>a. shrink_at a change \<le> sys_accounted s ! a) [0..<length (sys_accounted s)]
       \<longrightarrow> QuotaChange_accept (sys_heap s) change \<noteq> None)"
proof -
  note inv = reachable_inv [OF assms(1)]
  obtain cs ds where cs: "sys_changes s = cs @ change # ds" using assms(2) by (meson split_list)
  note c = change_in_list(1) [OF inv cs]
  have "reserved_at a change \<le> unat (qb_used_bytes (sys_heap s ! a))" if "a < length (sys_heap s)" for a
    using change_reserved [OF inv cs that] by simp
  then have "QuotaChange_drop (sys_heap s) change \<noteq> None" using drop_total [OF c] by auto
  moreover have "QuotaChange_accept (sys_heap s) change \<noteq> None"
    if fits: "list_all (\<lambda>a. shrink_at a change \<le> sys_accounted s ! a) [0..<length (sys_accounted s)]"
  proof -
    have "shrink_at a change \<le> unat (qb_used_bytes (sys_heap s ! a))" if a: "a < length (sys_heap s)" for a
    proof -
      have "shrink_at a change \<le> sys_accounted s ! a"
        using fits a quota_invD(1) [OF inv] by (simp add: list_all_iff)
      then show ?thesis using change_reserved [OF inv cs a] by simp
    qed
    then show ?thesis using accept_total [OF c] by auto
  qed
  ultimately show ?thesis by blast
qed

theorem quota_release_never_panics_witness:
  "quota_reachable sample_shrinking \<and> hd (sys_changes sample_shrinking) \<in> set (sys_changes sample_shrinking) \<and>
   QuotaChange_drop (sys_heap sample_shrinking) (hd (sys_changes sample_shrinking)) \<noteq> None \<and>
   QuotaChange_accept (sys_heap sample_shrinking) (hd (sys_changes sample_shrinking)) \<noteq> None"
  using quota_release_never_panics [OF sample_shrinking_reachable, of "hd (sys_changes sample_shrinking)"]
    sample_shrinking_reachable
  by (simp add: sample_shrinking_def sample_quota_def shrink_at_def)



end
