(* ===== verification/Commit_Capacity.thy ===== *)
theory Commit_Capacity
  imports Logical_Quota
begin


type_synonym commit_token = u64

record commit_capacity_claim =
  cc_metadata_bytes :: u64
  cc_data_bytes :: u64
  cc_small_file_bytes :: u64

record commit_capacity_snapshot =
  cs_metadata_available_bytes :: u64
  cs_data_available_bytes :: u64
  cs_small_file_available_bytes :: u64

record frozen_claim =
  fc_metadata_bytes :: u64
  fc_data_bytes :: u64
  fc_small_file_bytes :: u64
  fc_completed_after_observation :: "u64 option"

record uncheckpointed_physical_claim =
  up_data_bytes :: u64
  up_small_file_bytes :: u64
  up_completed_after_observation :: "u64 option"

record commit_capacity_governor =
  cg_metadata_limit :: u64
  cg_data_limit :: u64
  cg_small_file_limit :: u64
  cg_metadata_reserved :: u64
  cg_data_reserved :: u64
  cg_small_file_reserved :: u64
  cg_active_metadata :: u64
  cg_active_data :: u64
  cg_active_small_file :: u64
  cg_observation_epoch :: u64
  cg_frozen :: "(commit_token, frozen_claim) btree"
  cg_uncheckpointed :: uncheckpointed_physical_claim

record commit_capacity_status =
  st_metadata_limit_bytes :: u64
  st_data_limit_bytes :: u64
  st_small_file_limit_bytes :: u64
  st_reserved_metadata_bytes :: u64
  st_reserved_data_bytes :: u64
  st_reserved_small_file_bytes :: u64
  st_active_metadata_bytes :: u64
  st_active_data_bytes :: u64
  st_active_small_file_bytes :: u64
  st_frozen_generations :: nat


definition with_small_file_bytes :: "u64 \<Rightarrow> u64 \<Rightarrow> commit_capacity_claim" where
  "with_small_file_bytes metadata_bytes small_file_bytes =
     \<lparr>cc_metadata_bytes = metadata_bytes, cc_data_bytes = 0, cc_small_file_bytes = small_file_bytes\<rparr>"


definition with_small_file_available_bytes ::
  "commit_capacity_snapshot \<Rightarrow> u64 \<Rightarrow> commit_capacity_snapshot" where
  "with_small_file_available_bytes snapshot available_bytes =
     snapshot\<lparr>cs_small_file_available_bytes := available_bytes\<rparr>"












definition CommitCapacityGovernor_status :: "commit_capacity_governor \<Rightarrow> commit_capacity_status" where
  "CommitCapacityGovernor_status g =
     \<lparr>st_metadata_limit_bytes = cg_metadata_limit g,
      st_data_limit_bytes = cg_data_limit g,
      st_small_file_limit_bytes = cg_small_file_limit g,
      st_reserved_metadata_bytes = cg_metadata_reserved g,
      st_reserved_data_bytes = cg_data_reserved g,
      st_reserved_small_file_bytes = cg_small_file_reserved g,
      st_active_metadata_bytes = cg_active_metadata g,
      st_active_data_bytes = cg_active_data g,
      st_active_small_file_bytes = cg_active_small_file g,
      st_frozen_generations = length (cg_frozen g)\<rparr>"





definition take_active :: "commit_capacity_governor \<Rightarrow> commit_capacity_governor" where
  "take_active g = g\<lparr>cg_active_metadata := 0, cg_active_data := 0, cg_active_small_file := 0\<rparr>"




section \<open>Calls as steps\<close>











section \<open>Lemmas: counters\<close>
















section \<open>Lemmas: the ledger\<close>














lemma take_active_simps [simp]:
  "cg_metadata_reserved (take_active g) = cg_metadata_reserved g"
  "cg_data_reserved (take_active g) = cg_data_reserved g"
  "cg_small_file_reserved (take_active g) = cg_small_file_reserved g"
  "cg_active_metadata (take_active g) = 0"
  "cg_active_data (take_active g) = 0"
  "cg_active_small_file (take_active g) = 0"
  "cg_frozen (take_active g) = cg_frozen g"
  "cg_uncheckpointed (take_active g) = cg_uncheckpointed g"
  "cg_observation_epoch (take_active g) = cg_observation_epoch g"
  by (simp_all add: take_active_def)









section \<open>Properties\<close>





end
