(* ===== verification/Small_File_Policy.thy ===== *)
theory Small_File_Policy
  imports Prelude "HOL-Library.Sublist" "HOL-Library.List_Lexorder"
begin

text \<open>
  The small-file extension policy, \<open>crates/fastdup-posix/src/small_file_policy.rs\<close>: validation and
  canonical form of a list of file name extensions, its compilation to a trie over the reversed
  extensions with a dense table of 16-bit transitions, and the matcher that walks the table along the
  reversed name. Strings are their UTF-8 bytes. \<open>None\<close> is a panic: an index out of range or a failed
  \<open>expect\<close>; the indices into the trie under construction are in range by \<open>walk_less\<close>.

  Shown: compilation never panics, and the matcher accepts a name exactly when one of the extensions
  is a suffix of it up to ASCII case.
\<close>

abbreviation MAX_SMALL_FILE_EXTENSIONS :: nat where "MAX_SMALL_FILE_EXTENSIONS \<equiv> 64"
abbreviation MAX_SMALL_FILE_EXTENSION_BYTES :: nat where "MAX_SMALL_FILE_EXTENSION_BYTES \<equiv> 32"
abbreviation MAX_SMALL_FILE_POLICY_REVISION_BYTES :: nat where "MAX_SMALL_FILE_POLICY_REVISION_BYTES \<equiv> 128"

definition NO_TRANSITION :: u16 where "NO_TRANSITION = 65535"

definition DEFAULT_SMALL_FILE_EXTENSIONS :: "bytes list" where
  "DEFAULT_SMALL_FILE_EXTENSIONS = [ascii ''.json'', ascii ''.xml'']"

datatype small_file_policy_error =
    EmptyRevision
  | RevisionTooLong
  | TooManyExtensions
  | InvalidExtension bytes

record reverse_suffix_matcher =
  rm_transitions :: "u16 list"
  rm_terminal :: "bool list"
  rm_maximum_length :: nat

record small_file_extension_policy =
  sp_revision :: bytes
  sp_extensions :: "bytes list"
  sp_matcher :: reverse_suffix_matcher

record small_file_policy_snapshot =
  snapshot_revision :: bytes
  snapshot_extensions :: "bytes list"

text \<open>The trie under construction: the edges of every node and whether it ends an extension.\<close>

record suffix_trie =
  tr_edges :: "(u8, nat) btree list"
  tr_terminal :: "bool list"

definition to_ascii_lowercase :: "u8 \<Rightarrow> u8" where
  "to_ascii_lowercase b = (if 65 \<le> b \<and> b \<le> 90 then b + 32 else b)"

definition is_ascii_alphanumeric :: "u8 \<Rightarrow> bool" where
  "is_ascii_alphanumeric b \<longleftrightarrow> (48 \<le> b \<and> b \<le> 57) \<or> (65 \<le> b \<and> b \<le> 90) \<or> (97 \<le> b \<and> b \<le> 122)"

definition is_ascii :: "u8 \<Rightarrow> bool" where
  "is_ascii b \<longleftrightarrow> b < 128"

definition valid_extension :: "bytes \<Rightarrow> bool" where
  "valid_extension extension \<longleftrightarrow>
     2 \<le> length extension \<and> length extension \<le> MAX_SMALL_FILE_EXTENSION_BYTES \<and>
     extension ! 0 = 46 \<and>
     list_all (\<lambda>b. is_ascii_alphanumeric b \<or> b = 46 \<or> b = 95 \<or> b = 43 \<or> b = 45) (drop 1 extension)"

definition trie_step :: "suffix_trie \<times> nat \<Rightarrow> u8 \<Rightarrow> suffix_trie \<times> nat" where
  "trie_step = (\<lambda>(t, node) b.
     case bt_get (tr_edges t ! node) b of
       Some target \<Rightarrow> (t, target)
     | None \<Rightarrow>
         (let target = length (tr_edges t);
              edges = tr_edges t @ [[]];
              terminal = tr_terminal t @ [False];
              edges = edges[node := bt_insert b target (edges ! node)]
          in (\<lparr>tr_edges = edges, tr_terminal = terminal\<rparr>, target)))"

definition trie_insert :: "suffix_trie \<Rightarrow> bytes \<Rightarrow> suffix_trie" where
  "trie_insert t extension =
     (let (t, node) = foldl trie_step (t, 0) (rev extension)
      in t\<lparr>tr_terminal := (tr_terminal t)[node := True]\<rparr>)"

definition build_trie :: "bytes list \<Rightarrow> suffix_trie" where
  "build_trie extensions = foldl trie_insert \<lparr>tr_edges = [[]], tr_terminal = [False]\<rparr> extensions"

fun fill_row :: "nat \<Rightarrow> (u8, nat) btree \<Rightarrow> u16 list \<Rightarrow> u16 list option" where
  "fill_row node [] transitions = Some transitions"
| "fill_row node ((b, target) # edges) transitions =
     (if target < 2 ^ 16 \<and> node * 128 + unat b < length transitions
      then fill_row node edges (transitions[node * 128 + unat b := of_nat target])
      else None)"

fun fill_rows :: "nat \<Rightarrow> (u8, nat) btree list \<Rightarrow> u16 list \<Rightarrow> u16 list option" where
  "fill_rows node [] transitions = Some transitions"
| "fill_rows node (edges # rows) transitions =
     Option.bind (fill_row node edges transitions) (fill_rows (node + 1) rows)"

definition ReverseSuffixMatcher_compile :: "bytes list \<Rightarrow> reverse_suffix_matcher option" where
  "ReverseSuffixMatcher_compile extensions =
     (let t = build_trie extensions;
          maximum_length = foldl (\<lambda>m extension. max m (length extension)) 0 extensions
      in Option.bind (fill_rows 0 (tr_edges t) (replicate (length (tr_edges t) * 128) NO_TRANSITION))
        (\<lambda>transitions. Some \<lparr>rm_transitions = transitions, rm_terminal = tr_terminal t,
           rm_maximum_length = maximum_length\<rparr>))"

fun match_from :: "reverse_suffix_matcher \<Rightarrow> nat \<Rightarrow> bytes \<Rightarrow> bool option" where
  "match_from m node [] = Some False"
| "match_from m node (b # rest) =
     (if \<not> is_ascii b then Some False
      else let i = node * 128 + unat (to_ascii_lowercase b) in
        if i < length (rm_transitions m)
        then let target = rm_transitions m ! i in
          if target = NO_TRANSITION then Some False
          else let node = unat target in
            if node < length (rm_terminal m)
            then if rm_terminal m ! node then Some True else match_from m node rest
            else None
        else None)"

definition ReverseSuffixMatcher_matches :: "reverse_suffix_matcher \<Rightarrow> bytes \<Rightarrow> bool option" where
  "ReverseSuffixMatcher_matches m name =
     (if rm_maximum_length m = 0 then Some False
      else match_from m 0 (take (rm_maximum_length m) (rev name)))"

fun canonical_extensions :: "bytes list \<Rightarrow> small_file_policy_error + bytes list" where
  "canonical_extensions [] = Inr []"
| "canonical_extensions (extension # extensions) =
     (if \<not> valid_extension extension then Inl (InvalidExtension extension)
      else and_then (canonical_extensions extensions) (\<lambda>canonical.
        Inr (map to_ascii_lowercase extension # canonical)))"

definition SmallFileExtensionPolicy_compile ::
  "bytes \<Rightarrow> bytes list \<Rightarrow> (small_file_policy_error + small_file_extension_policy) option" where
  "SmallFileExtensionPolicy_compile revision extensions =
     (if revision = [] then Some (Inl EmptyRevision)
      else if length revision > MAX_SMALL_FILE_POLICY_REVISION_BYTES then Some (Inl RevisionTooLong)
      else if length extensions > MAX_SMALL_FILE_EXTENSIONS then Some (Inl TooManyExtensions)
      else case canonical_extensions extensions of
        Inl e \<Rightarrow> Some (Inl e)
      | Inr canonical \<Rightarrow>
          (let canonical = remdups_adj (sort canonical) in
           Option.bind (ReverseSuffixMatcher_compile canonical) (\<lambda>matcher.
             Some (Inr \<lparr>sp_revision = revision, sp_extensions = canonical, sp_matcher = matcher\<rparr>))))"

definition SmallFileExtensionPolicy_default :: "small_file_extension_policy option" where
  "SmallFileExtensionPolicy_default =
     Option.bind (SmallFileExtensionPolicy_compile (ascii ''default-v1'') DEFAULT_SMALL_FILE_EXTENSIONS)
       (\<lambda>r. case r of Inl _ \<Rightarrow> None | Inr policy \<Rightarrow> Some policy)"

definition matches_name :: "small_file_extension_policy \<Rightarrow> bytes \<Rightarrow> bool option" where
  "matches_name policy name = ReverseSuffixMatcher_matches (sp_matcher policy) name"

definition snapshot :: "small_file_extension_policy \<Rightarrow> small_file_policy_snapshot" where
  "snapshot policy = \<lparr>snapshot_revision = sp_revision policy, snapshot_extensions = sp_extensions policy\<rparr>"

definition validate_small_file_extensions ::
  "bytes list \<Rightarrow> (small_file_policy_error + bytes list) option" where
  "validate_small_file_extensions extensions =
     map_option (\<lambda>r. case r of Inl e \<Rightarrow> Inl e | Inr policy \<Rightarrow> Inr (sp_extensions policy))
       (SmallFileExtensionPolicy_compile (ascii ''validation'') extensions)"

text \<open>The node reached from the root along a byte string, the abstraction of a trie.\<close>

definition walk :: "(u8, nat) btree list \<Rightarrow> bytes \<Rightarrow> nat option" where
  "walk edges bs = foldl (\<lambda>n b. Option.bind n (\<lambda>n. bt_get (edges ! n) b)) (Some 0) bs"

definition language :: "suffix_trie \<Rightarrow> bytes set" where
  "language t = {bs. \<exists>n. walk (tr_edges t) bs = Some n \<and> tr_terminal t ! n}"

definition trie_inv :: "suffix_trie \<Rightarrow> bool" where
  "trie_inv t \<longleftrightarrow> length (tr_terminal t) = length (tr_edges t) \<and> tr_edges t \<noteq> [] \<and>
     (\<forall>edges\<in>set (tr_edges t). bt_sorted edges \<and>
        (\<forall>(b, target)\<in>set edges. b < 128 \<and> target < length (tr_edges t))) \<and>
     (\<forall>p q n. walk (tr_edges t) p = Some n \<longrightarrow> walk (tr_edges t) q = Some n \<longrightarrow> p = q)"

text \<open>A matcher whose table has the edges of a trie.\<close>

definition table_of :: "reverse_suffix_matcher \<Rightarrow> suffix_trie \<Rightarrow> bool" where
  "table_of m t \<longleftrightarrow> rm_terminal m = tr_terminal t \<and> length (rm_transitions m) = length (tr_edges t) * 128 \<and>
     length (tr_edges t) \<le> 65535 \<and>
     (\<forall>n<length (tr_edges t). \<forall>b<128. rm_transitions m ! (n * 128 + unat b) =
        (case bt_get (tr_edges t ! n) b of Some k \<Rightarrow> of_nat k | None \<Rightarrow> NO_TRANSITION))"

section \<open>Lemmas: the trie\<close>

lemma walk_Nil [simp]: "walk edges [] = Some 0"
  by (simp add: walk_def)

lemma walk_snoc: "walk edges (bs @ [b]) = Option.bind (walk edges bs) (\<lambda>n. bt_get (edges ! n) b)"
  by (simp add: walk_def)

lemma bt_get_in_set: "bt_get m k = Some v \<Longrightarrow> (k, v) \<in> set m"
  by (auto simp: bt_get_def dest: map_of_SomeD)

lemma trie_inv_edge:
  assumes "trie_inv t" "n < length (tr_edges t)" "bt_get (tr_edges t ! n) b = Some m"
  shows "m < length (tr_edges t)" "b < 128"
proof -
  have "bt_sorted (tr_edges t ! n) \<and>
      (\<forall>(b, target)\<in>set (tr_edges t ! n). b < 128 \<and> target < length (tr_edges t))"
    using assms(1) nth_mem [OF assms(2)] unfolding trie_inv_def by blast
  then have "b < 128 \<and> m < length (tr_edges t)"
    using bt_get_in_set [OF assms(3)] by auto
  then show "m < length (tr_edges t)" "b < 128" by simp_all
qed

lemma walk_less: "trie_inv t \<Longrightarrow> walk (tr_edges t) bs = Some n \<Longrightarrow> n < length (tr_edges t)"
proof (induction bs arbitrary: n rule: rev_induct)
  case Nil
  then show ?case by (simp add: trie_inv_def)
next
  case (snoc b bs)
  from snoc.prems(2) obtain m where m: "walk (tr_edges t) bs = Some m" "bt_get (tr_edges t ! m) b = Some n"
    by (auto simp: walk_snoc bind_eq_Some_conv)
  from trie_inv_edge(1) [OF snoc.prems(1) snoc.IH [OF snoc.prems(1) m(1)] m(2)] show ?case .
qed

lemma trie_inv_walk_inj:
  assumes "trie_inv t" "walk (tr_edges t) p = Some n" "walk (tr_edges t) q = Some n"
  shows "p = q"
proof -
  have "\<forall>p q n. walk (tr_edges t) p = Some n \<longrightarrow> walk (tr_edges t) q = Some n \<longrightarrow> p = q"
    using assms(1) unfolding trie_inv_def by (elim conjE)
  with assms(2,3) show ?thesis by (elim allE impE)
qed

text \<open>Adding a node extends the walks by exactly one string.\<close>

lemma walk_extend:
  assumes inv: "trie_inv t" and p: "walk (tr_edges t) p = Some node" and fresh: "bt_get (tr_edges t ! node) b = None"
  defines "edges \<equiv> (tr_edges t @ [[]])[node := bt_insert b (length (tr_edges t)) (tr_edges t ! node)]"
  shows "walk edges bs = (if bs = p @ [b] then Some (length (tr_edges t)) else walk (tr_edges t) bs)"
proof (induction bs rule: rev_induct)
  case Nil
  then show ?case by simp
next
  case (snoc c bs)
  note less = walk_less [OF inv]
  have sorted: "bt_sorted (tr_edges t ! node)"
    using inv nth_mem [OF less [OF p]] by (auto simp: trie_inv_def)
  have old: "edges ! n = (if n = node then bt_insert b (length (tr_edges t)) (tr_edges t ! node) else tr_edges t ! n)"
    if "n < length (tr_edges t)" for n
    using that less [OF p] by (simp add: edges_def nth_append nth_list_update)
  have new: "edges ! length (tr_edges t) = []"
    using less [OF p] by (simp add: edges_def)
  have none: "walk (tr_edges t) (p @ [b]) = None" using p fresh by (simp add: walk_snoc)
  show ?case
  proof (cases "bs = p @ [b]")
    case True
    then have "walk edges (bs @ [c]) = None" "walk (tr_edges t) (bs @ [c]) = None"
      unfolding walk_snoc using snoc.IH none new by simp_all
    with True show ?thesis by simp
  next
    case False
    then have IH: "walk edges bs = walk (tr_edges t) bs" using snoc.IH by simp
    show ?thesis
    proof (cases "walk (tr_edges t) bs")
      case None
      then show ?thesis using IH p by (auto simp: walk_snoc)
    next
      case (Some n)
      have eq: "n = node \<longleftrightarrow> bs = p" using trie_inv_walk_inj [OF inv _ p, of bs] Some p by auto
      have "walk edges (bs @ [c]) = bt_get (edges ! n) c" "walk (tr_edges t) (bs @ [c]) = bt_get (tr_edges t ! n) c"
        using IH Some by (simp_all add: walk_snoc)
      then show ?thesis
        using old [OF less [OF Some]] sorted eq by (cases "n = node") simp_all
    qed
  qed
qed

lemma trie_extend_inv:
  assumes inv: "trie_inv t" and p: "walk (tr_edges t) p = Some node" and fresh: "bt_get (tr_edges t ! node) b = None"
    and b: "b < 128"
  defines "edges \<equiv> (tr_edges t @ [[]])[node := bt_insert b (length (tr_edges t)) (tr_edges t ! node)]"
  shows "trie_inv \<lparr>tr_edges = edges, tr_terminal = tr_terminal t @ [False]\<rparr>"
    and "language \<lparr>tr_edges = edges, tr_terminal = tr_terminal t @ [False]\<rparr> = language t"
proof -
  note walk = walk_extend [OF inv p fresh, folded edges_def]
  note less = walk_less [OF inv]
  let ?n = "length (tr_edges t)"
  have len: "length (tr_terminal t) = ?n" using inv by (simp add: trie_inv_def)
  have none: "walk (tr_edges t) (p @ [b]) = None" using p fresh by (simp add: walk_snoc)
  have rows: "bt_sorted es \<and> (\<forall>(c, target)\<in>set es. c < 128 \<and> target < Suc ?n)" if "es \<in> set edges" for es
  proof -
    have old: "bt_sorted es \<and> (\<forall>(c, target)\<in>set es. c < 128 \<and> target < Suc ?n)" if "es \<in> set (tr_edges t)" for es
      using inv that unfolding trie_inv_def by fastforce
    have "es \<in> set (tr_edges t) \<or> es = [] \<or> es = bt_insert b ?n (tr_edges t ! node)"
      using that set_update_subset_insert [of "tr_edges t @ [[]]" node] unfolding edges_def by fastforce
    then show ?thesis
      using old old [OF nth_mem [OF less [OF p]]] b
      by (auto simp: bt_sorted_insert bt_sorted_def [of "[]"] dest!: bt_insert_mem)
  qed
  have "p' = q" if "walk edges p' = Some n" "walk edges q = Some n" for p' q n
    using that less trie_inv_walk_inj [OF inv] by (fastforce simp: walk split: if_splits)
  with rows len show "trie_inv \<lparr>tr_edges = edges, tr_terminal = tr_terminal t @ [False]\<rparr>"
    unfolding trie_inv_def by (auto simp: edges_def)
  show "language \<lparr>tr_edges = edges, tr_terminal = tr_terminal t @ [False]\<rparr> = language t"
    using less none by (auto simp: language_def walk nth_append len split: if_splits)
qed

lemma trie_step_correct:
  assumes inv: "trie_inv t" and p: "walk (tr_edges t) p = Some node" and b: "b < 128"
    and step: "trie_step (t, node) b = (t', node')"
  shows "trie_inv t' \<and> walk (tr_edges t') (p @ [b]) = Some node' \<and> language t' = language t \<and>
         length (tr_edges t') \<le> Suc (length (tr_edges t))"
proof (cases "bt_get (tr_edges t ! node) b")
  case None
  let ?edges = "(tr_edges t @ [[]])[node := bt_insert b (length (tr_edges t)) (tr_edges t ! node)]"
  have "t' = \<lparr>tr_edges = ?edges, tr_terminal = tr_terminal t @ [False]\<rparr>" "node' = length (tr_edges t)"
    using step None walk_less [OF inv p] by (auto simp: trie_step_def Let_def nth_append)
  then show ?thesis
    using trie_extend_inv [OF inv p None b] walk_extend [OF inv p None, of "p @ [b]"] by simp
next
  case (Some target)
  then show ?thesis using step inv p by (simp add: trie_step_def walk_snoc)
qed

lemma trie_steps_correct:
  "trie_inv t \<Longrightarrow> walk (tr_edges t) p = Some node \<Longrightarrow> list_all (\<lambda>b. b < 128) bs \<Longrightarrow>
   foldl trie_step (t, node) bs = (t', node') \<Longrightarrow>
     trie_inv t' \<and> walk (tr_edges t') (p @ bs) = Some node' \<and> language t' = language t \<and>
     length (tr_edges t') \<le> length (tr_edges t) + length bs"
proof (induction bs arbitrary: t p node)
  case Nil
  then show ?case by simp
next
  case (Cons b bs)
  obtain u m where u: "trie_step (t, node) b = (u, m)" by (cases "trie_step (t, node) b")
  have b: "b < 128" and bs: "list_all (\<lambda>b. b < 128) bs" using Cons.prems(3) by simp_all
  note step = trie_step_correct [OF Cons.prems(1,2) b u]
  have "foldl trie_step (u, m) bs = (t', node')" using Cons.prems(4) u by simp
  from Cons.IH [OF _ _ bs this, of "p @ [b]"] step show ?case by simp
qed

lemma trie_insert_correct:
  assumes "trie_inv t" "list_all (\<lambda>b. b < 128) e"
  shows "trie_inv (trie_insert t e) \<and> language (trie_insert t e) = insert (rev e) (language t) \<and>
         length (tr_edges (trie_insert t e)) \<le> length (tr_edges t) + length e"
proof -
  obtain u m where u: "foldl trie_step (t, 0) (rev e) = (u, m)" by (cases "foldl trie_step (t, 0) (rev e)")
  have "list_all (\<lambda>b. b < 128) (rev e)" using assms(2) by (simp add: list_all_iff)
  note steps = trie_steps_correct [OF assms(1) walk_Nil this u, simplified]
  have ins: "trie_insert t e = u\<lparr>tr_terminal := (tr_terminal u)[m := True]\<rparr>"
    by (simp add: trie_insert_def u)
  have len: "length (tr_terminal u) = length (tr_edges u)" using steps by (simp add: trie_inv_def)
  have m: "m < length (tr_edges u)" using walk_less steps by blast
  have inj: "n = m \<longleftrightarrow> bs = rev e" if "walk (tr_edges u) bs = Some n" for bs n
    using that steps trie_inv_walk_inj [of u bs m "rev e"] by auto
  have "language (trie_insert t e) = insert (rev e) (language u)"
    using steps m inj unfolding language_def ins by (auto simp: nth_list_update len split: if_splits)
  then show ?thesis using steps by (simp add: ins trie_inv_def)
qed

lemma foldl_trie_insert_correct:
  "trie_inv t \<Longrightarrow> \<forall>e\<in>set es. list_all (\<lambda>b. b < 128) e \<Longrightarrow>
     trie_inv (foldl trie_insert t es) \<and> language (foldl trie_insert t es) = rev ` set es \<union> language t \<and>
     length (tr_edges (foldl trie_insert t es)) \<le> length (tr_edges t) + sum_list (map length es)"
proof (induction es arbitrary: t)
  case Nil
  then show ?case by simp
next
  case (Cons e es)
  have "list_all (\<lambda>b. b < 128) e" using Cons.prems(2) by simp
  note ins = trie_insert_correct [OF Cons.prems(1) this]
  from Cons.IH [of "trie_insert t e"] Cons.prems(2) ins show ?case by auto
qed

lemma walk_root: "walk [[]] bs = (if bs = [] then Some 0 else None)"
proof (cases bs rule: rev_cases)
  case (snoc cs c)
  have "walk [[]] cs = None \<or> walk [[]] cs = Some 0"
    by (induction cs rule: rev_induct) (auto simp: walk_snoc)
  then show ?thesis by (auto simp: snoc walk_snoc)
qed simp

lemma build_trie_correct:
  assumes "\<forall>e\<in>set es. list_all (\<lambda>b. b < 128) e"
  shows "trie_inv (build_trie es)" "language (build_trie es) = rev ` set es"
    "length (tr_edges (build_trie es)) \<le> Suc (sum_list (map length es))"
proof -
  let ?root = "\<lparr>tr_edges = [[]], tr_terminal = [False]\<rparr>"
  have "trie_inv ?root" by (auto simp: trie_inv_def walk_root split: if_splits)
  note build = foldl_trie_insert_correct [OF this assms]
  have "language ?root = {}" by (auto simp: language_def walk_root split: if_splits)
  with build show "trie_inv (build_trie es)" "language (build_trie es) = rev ` set es"
    "length (tr_edges (build_trie es)) \<le> Suc (sum_list (map length es))"
    by (simp_all add: build_trie_def)
qed

section \<open>Lemmas: the table\<close>

lemma fill_row_correct:
  assumes "bt_sorted es" "\<forall>(b, target)\<in>set es. b < 128 \<and> target < 65535" "(node + 1) * 128 \<le> length t"
  shows "\<exists>t'. fill_row node es t = Some t' \<and> length t' = length t \<and>
    (\<forall>i<length t. i div 128 \<noteq> node \<longrightarrow> t' ! i = t ! i) \<and>
    (\<forall>b<128. t' ! (node * 128 + unat (b :: u8)) =
       (case bt_get es b of Some m \<Rightarrow> of_nat m | None \<Rightarrow> t ! (node * 128 + unat b)))"
  using assms
proof (induction es arbitrary: t)
  case Nil
  then show ?case by simp
next
  case (Cons e es)
  obtain b target where e: "e = (b, target)" by (cases e)
  have b: "unat b < 128" "target < 65535" using Cons.prems(2) e by (auto simp: word_less_nat_alt)
  let ?i = "node * 128 + unat b"
  let ?t = "t[?i := of_nat target]"
  have i: "?i < length t" "?i div 128 = node" using b Cons.prems(3) by simp_all
  have fresh: "bt_get es b = None"
    using Cons.prems(1) e by (force simp: bt_sorted_def bt_get_def map_of_eq_None_iff)
  obtain t' where t': "fill_row node es ?t = Some t'" "length t' = length t"
      "\<forall>i<length t. i div 128 \<noteq> node \<longrightarrow> t' ! i = ?t ! i"
      "\<forall>c<128. t' ! (node * 128 + unat (c :: u8)) =
         (case bt_get es c of Some m \<Rightarrow> of_nat m | None \<Rightarrow> ?t ! (node * 128 + unat c))"
    using Cons.IH [of ?t] Cons.prems by (auto simp: bt_sorted_def)
  have "fill_row node (e # es) t = Some t'" using t'(1) e b i by simp
  moreover have "t' ! (node * 128 + unat c) =
      (case bt_get (e # es) c of Some m \<Rightarrow> of_nat m | None \<Rightarrow> t ! (node * 128 + unat c))" if "c < 128" for c :: u8
  proof -
    have "c \<noteq> b \<Longrightarrow> ?t ! (node * 128 + unat c) = t ! (node * 128 + unat c)"
      by (simp add: word_unat_eq_iff)
    then show ?thesis
      using t'(4) that fresh i(1) by (cases "c = b") (auto simp: e bt_get_def split: option.splits)
  qed
  moreover have "t' ! j = t ! j" if "j < length t" "j div 128 \<noteq> node" for j
    using t'(3) that i by (metis nth_list_update_neq)
  ultimately show ?case using t'(2) by blast
qed

lemma fill_rows_correct:
  assumes "\<forall>es\<in>set rows. bt_sorted es \<and> (\<forall>(b, target)\<in>set es. b < 128 \<and> target < 65535)"
    "(node + length rows) * 128 \<le> length t"
  shows "\<exists>t'. fill_rows node rows t = Some t' \<and> length t' = length t \<and>
    (\<forall>i<length t. i div 128 < node \<longrightarrow> t' ! i = t ! i) \<and>
    (\<forall>n<length rows. \<forall>b<128. t' ! ((node + n) * 128 + unat (b :: u8)) =
       (case bt_get (rows ! n) b of Some m \<Rightarrow> of_nat m | None \<Rightarrow> t ! ((node + n) * 128 + unat b)))"
  using assms
proof (induction rows arbitrary: node t)
  case Nil
  then show ?case by simp
next
  case (Cons es rows)
  obtain u where u: "fill_row node es t = Some u" "length u = length t"
      "\<forall>i<length t. i div 128 \<noteq> node \<longrightarrow> u ! i = t ! i"
      "\<forall>b<128. u ! (node * 128 + unat (b :: u8)) =
         (case bt_get es b of Some m \<Rightarrow> of_nat m | None \<Rightarrow> t ! (node * 128 + unat b))"
    using fill_row_correct [of es node t] Cons.prems by auto
  obtain t' where t': "fill_rows (node + 1) rows u = Some t'" "length t' = length u"
      "\<forall>i<length u. i div 128 < node + 1 \<longrightarrow> t' ! i = u ! i"
      "\<forall>n<length rows. \<forall>b<128. t' ! ((node + 1 + n) * 128 + unat (b :: u8)) =
         (case bt_get (rows ! n) b of Some m \<Rightarrow> of_nat m | None \<Rightarrow> u ! ((node + 1 + n) * 128 + unat b))"
    using Cons.IH [of "node + 1" u] Cons.prems u(2) by auto
  have idx: "(k * 128 + unat b) div 128 = k" "k * 128 + unat b < (k + 1) * 128" if "b < 128" for k and b :: u8
    using that by (simp_all add: word_less_nat_alt)
  have "t' ! ((node + n) * 128 + unat b) =
      (case bt_get ((es # rows) ! n) b of Some m \<Rightarrow> of_nat m | None \<Rightarrow> t ! ((node + n) * 128 + unat b))"
    if n: "n < length (es # rows)" and b: "b < 128" for n and b :: u8
  proof (cases n)
    case 0
    have "node * 128 + unat b < length u" using idx(2) [OF b, of node] Cons.prems(2) u(2) by simp
    then show ?thesis using 0 t'(3) u(4) idx(1) [OF b, of node] b by (simp split: option.split)
  next
    case (Suc k)
    have "(node + n) * 128 + unat b < length t"
      using idx(2) [OF b, of "node + n"] n Cons.prems(2) by simp
    then have "u ! ((node + n) * 128 + unat b) = t ! ((node + n) * 128 + unat b)"
      using u(3) idx(1) [OF b, of "node + n"] Suc by simp
    then show ?thesis using t'(4) n b Suc by (simp add: add.commute add.left_commute split: option.split)
  qed
  moreover have "t' ! i = t ! i" if "i < length t" "i div 128 < node" for i
    using that t'(3) u(2,3) by simp
  ultimately show ?case using u t' by auto
qed

section \<open>Lemmas: the matcher\<close>

lemma to_ascii_lowercase_less [simp]: "to_ascii_lowercase b < 128 \<longleftrightarrow> b < 128"
  by (auto simp: to_ascii_lowercase_def word_less_nat_alt word_le_nat_alt unat_word_ariths)

lemma walk_append_None: "walk edges p = None \<Longrightarrow> walk edges (p @ q) = None"
  by (induction q rule: rev_induct) (simp_all add: walk_snoc flip: append_assoc)

lemma match_from_iff:
  assumes "trie_inv t" "table_of m t"
  shows "walk (tr_edges t) p = Some node \<Longrightarrow> match_from m node bs =
    Some (\<exists>q. q \<noteq> [] \<and> prefix q bs \<and> list_all is_ascii q \<and> p @ map to_ascii_lowercase q \<in> language t)"
proof (induction bs arbitrary: p node)
  case Nil
  then show ?case by simp
next
  case (Cons b bs)
  let ?b = "to_ascii_lowercase b" and ?n = "length (tr_edges t)"
  let ?found = "\<lambda>p bs. \<exists>q. q \<noteq> [] \<and> prefix q bs \<and> list_all is_ascii q \<and> p @ map to_ascii_lowercase q \<in> language t"
  have split: "?found p (b # bs) \<longleftrightarrow> is_ascii b \<and> (p @ [?b] \<in> language t \<or> ?found (p @ [?b]) bs)"
  proof
    assume "?found p (b # bs)"
    then obtain q where q: "q \<noteq> []" "prefix q (b # bs)" "list_all is_ascii q" "p @ map to_ascii_lowercase q \<in> language t" by blast
    then obtain r where "q = b # r" "prefix r bs" by (cases q) auto
    with q show "is_ascii b \<and> (p @ [?b] \<in> language t \<or> ?found (p @ [?b]) bs)"
      by (cases "r = []") auto
  next
    assume R: "is_ascii b \<and> (p @ [?b] \<in> language t \<or> ?found (p @ [?b]) bs)"
    then consider "p @ [?b] \<in> language t" | q where "q \<noteq> []" "prefix q bs" "list_all is_ascii q"
        "(p @ [?b]) @ map to_ascii_lowercase q \<in> language t" by blast
    then show "?found p (b # bs)"
    proof cases
      case 1
      with R show ?thesis by (intro exI [of _ "[b]"]) simp
    next
      case 2
      with R show ?thesis by (intro exI [of _ "b # q"]) simp
    qed
  qed
  show ?case
  proof (cases "is_ascii b")
    case False
    then show ?thesis using split by simp
  next
    case True
    then have b: "?b < 128" by (simp add: is_ascii_def)
    then have b2: "unat ?b < 128" unfolding word_less_nat_alt by simp
    have node: "node < ?n" using walk_less [OF assms(1) Cons.prems] .
    then have idx: "node * 128 + unat ?b < length (rm_transitions m)" and terminal: "length (rm_terminal m) = ?n"
      using b2 assms by (simp_all add: table_of_def trie_inv_def)
    have entry: "rm_transitions m ! (node * 128 + unat ?b) =
        (case bt_get (tr_edges t ! node) ?b of Some k \<Rightarrow> of_nat k | None \<Rightarrow> NO_TRANSITION)"
      using assms(2) node b by (simp add: table_of_def)
    show ?thesis
    proof (cases "bt_get (tr_edges t ! node) ?b")
      case None
      then have "walk (tr_edges t) (p @ [?b]) = None" using Cons.prems by (simp add: walk_snoc)
      from walk_append_None [OF this] have "(p @ [?b]) @ q \<notin> language t" for q
        by (simp add: language_def)
      then have "\<not> ?found p (b # bs)" using split by (metis append_Nil2)
      then show ?thesis using True idx entry None by simp
    next
      case (Some k)
      have k: "k < ?n" using trie_inv_edge(1) [OF assms(1) node Some] .
      then have "k < 65535" using assms(2) by (simp add: table_of_def)
      then have kw: "unat (of_nat k :: u16) = k" "(of_nat k :: u16) \<noteq> NO_TRANSITION"
        by (auto simp: unat_of_nat NO_TRANSITION_def word_unat_eq_iff)
      have walk: "walk (tr_edges t) (p @ [?b]) = Some k" using Cons.prems Some by (simp add: walk_snoc)
      then have "p @ [?b] \<in> language t \<longleftrightarrow> rm_terminal m ! k"
        using assms(2) by (simp add: language_def table_of_def)
      then show ?thesis
        using True idx entry Some kw k terminal split Cons.IH [OF walk] by (simp add: Let_def)
    qed
  qed
qed

lemma maximum_length_start: "k \<le> foldl (\<lambda>m e. max m (length e)) k es"
proof (induction es arbitrary: k)
  case (Cons e es)
  from max.cobounded1 Cons.IH [of "max k (length e)"] show ?case
    unfolding foldl.simps by (rule order_trans)
qed simp

lemma maximum_length: "e \<in> set es \<Longrightarrow> length e \<le> foldl (\<lambda>m e. max m (length e)) k es"
proof (induction es arbitrary: k)
  case (Cons f es)
  then show ?case using maximum_length_start [of "max k (length f)" es] by auto
qed simp

lemma compile_table:
  assumes "\<forall>e\<in>set es. list_all (\<lambda>b. b < 128) e" "sum_list (map length es) < 65535"
  shows "\<exists>m. ReverseSuffixMatcher_compile es = Some m \<and> table_of m (build_trie es) \<and>
    rm_maximum_length m = foldl (\<lambda>m e. max m (length e)) 0 es"
proof -
  let ?t = "build_trie es"
  note build = build_trie_correct [OF assms(1)]
  have len: "length (tr_edges ?t) \<le> 65535" using build(3) assms(2) by simp
  have "\<forall>edges\<in>set (tr_edges ?t). bt_sorted edges \<and> (\<forall>(b, target)\<in>set edges. b < 128 \<and> target < 65535)"
    using build(1) len unfolding trie_inv_def by fastforce
  from fill_rows_correct [OF this, of 0 "replicate (length (tr_edges ?t) * 128) NO_TRANSITION",
      unfolded add_0 length_replicate, OF order_refl]
  obtain tr where tr: "fill_rows 0 (tr_edges ?t) (replicate (length (tr_edges ?t) * 128) NO_TRANSITION) = Some tr"
      "length tr = length (tr_edges ?t) * 128"
      "\<forall>n<length (tr_edges ?t). \<forall>b<128. tr ! (n * 128 + unat (b :: u8)) =
         (case bt_get (tr_edges ?t ! n) b of Some m \<Rightarrow> of_nat m
          | None \<Rightarrow> replicate (length (tr_edges ?t) * 128) NO_TRANSITION ! (n * 128 + unat b))"
    by blast
  have "n * 128 + unat b < length (tr_edges ?t) * 128" if "n < length (tr_edges ?t)" "b < 128" for n and b :: u8
  proof -
    have "unat b < 128" using that(2) unfolding word_less_nat_alt by simp
    with that(1) show ?thesis by simp
  qed
  with tr(3) have "\<forall>n<length (tr_edges ?t). \<forall>b<128. tr ! (n * 128 + unat (b :: u8)) =
      (case bt_get (tr_edges ?t ! n) b of Some m \<Rightarrow> of_nat m | None \<Rightarrow> NO_TRANSITION)"
    by (simp split: option.split)
  with tr(1,2) len show ?thesis
    by (simp add: ReverseSuffixMatcher_compile_def Let_def table_of_def)
qed

text \<open>Reversed prefixes that the matcher looks for are the suffixes of the name.\<close>

lemma found_iff_suffix:
  assumes "\<forall>e\<in>C. e \<noteq> [] \<and> length e \<le> M \<and> list_all (\<lambda>b. b < 128) e"
  shows "(\<exists>q. q \<noteq> [] \<and> prefix q (take M (rev name)) \<and> list_all is_ascii q \<and> map to_ascii_lowercase q \<in> rev ` C)
    \<longleftrightarrow> (\<exists>e\<in>C. suffix e (map to_ascii_lowercase name))" (is "?L \<longleftrightarrow> ?R")
proof
  assume ?L
  then obtain q e where q: "prefix q (take M (rev name))" and e: "e \<in> C" "map to_ascii_lowercase q = rev e" by auto
  have "prefix q (rev name)" using q take_is_prefix prefix_order.trans by blast
  then have "prefix (map to_ascii_lowercase q) (map to_ascii_lowercase (rev name))" by (rule map_mono_prefix)
  then have "suffix e (map to_ascii_lowercase name)" using e(2) by (simp add: suffix_to_prefix rev_map)
  with e(1) show ?R by blast
next
  assume ?R
  then obtain e where e: "e \<in> C" "prefix (rev e) (map to_ascii_lowercase (rev name))"
    by (auto simp: suffix_to_prefix rev_map)
  let ?q = "take (length e) (rev name)"
  have q: "map to_ascii_lowercase ?q = rev e" using e(2) by (auto simp: prefix_def take_map [symmetric])
  have "prefix ?q (take M (rev name))"
    using assms e(1) take_is_prefix [of "length e" "take M (rev name)"] by (simp add: min_def)
  moreover have "list_all (\<lambda>b. b < 128) (map to_ascii_lowercase ?q)"
    using assms e(1) unfolding q by (simp add: list_all_iff)
  then have "list_all is_ascii ?q" by (simp add: list_all_iff is_ascii_def)
  moreover have "?q \<noteq> []" using q assms e(1) by fastforce
  ultimately show ?L using q e(1) by blast
qed

lemma matcher_correct:
  assumes "\<forall>e\<in>set es. e \<noteq> [] \<and> list_all (\<lambda>b. b < 128) e" "sum_list (map length es) < 65535"
  shows "\<exists>m. ReverseSuffixMatcher_compile es = Some m \<and>
    (\<forall>name. ReverseSuffixMatcher_matches m name = Some (\<exists>e\<in>set es. suffix e (map to_ascii_lowercase name)))"
proof -
  have ascii: "\<forall>e\<in>set es. list_all (\<lambda>b. b < 128) e" using assms(1) by blast
  obtain m where m: "ReverseSuffixMatcher_compile es = Some m" "table_of m (build_trie es)"
      "rm_maximum_length m = foldl (\<lambda>m e. max m (length e)) 0 es"
    using compile_table [OF ascii assms(2)] by blast
  have len: "\<forall>e\<in>set es. e \<noteq> [] \<and> length e \<le> rm_maximum_length m \<and> list_all (\<lambda>b. b < 128) e"
    using assms(1) maximum_length unfolding m(3) by blast
  have "ReverseSuffixMatcher_matches m name = Some (\<exists>e\<in>set es. suffix e (map to_ascii_lowercase name))" for name
  proof (cases "rm_maximum_length m = 0")
    case True
    with len have "es = []" by (cases es) auto
    with True show ?thesis by (simp add: ReverseSuffixMatcher_matches_def)
  next
    case False
    then show ?thesis
      using match_from_iff [OF build_trie_correct(1) [OF ascii] m(2) walk_Nil, of "take (rm_maximum_length m) (rev name)"]
        build_trie_correct(2) [OF ascii] found_iff_suffix [OF len, of name]
      by (simp add: ReverseSuffixMatcher_matches_def)
  qed
  with m(1) show ?thesis by blast
qed

section \<open>Lemmas: policies\<close>

lemma valid_extension_bytes:
  assumes "valid_extension e"
  shows "e \<noteq> []" "length e \<le> 32" "list_all (\<lambda>b. b < 128) e"
proof -
  show "e \<noteq> []" "length e \<le> 32" using assms by (auto simp: valid_extension_def)
  obtain x xs where e: "e = x # xs" using \<open>e \<noteq> []\<close> by (cases e) auto
  have *: "b < 128" if "is_ascii_alphanumeric b \<or> b = 46 \<or> b = 95 \<or> b = 43 \<or> b = 45" for b :: u8
    using that by (auto simp: is_ascii_alphanumeric_def word_less_nat_alt word_le_nat_alt)
  then show "list_all (\<lambda>b. b < 128) e"
    using assms by (auto simp: valid_extension_def e list_all_iff)
qed

lemma canonical_extensions_iff:
  "canonical_extensions es = Inr cs \<longleftrightarrow> list_all valid_extension es \<and> cs = map (map to_ascii_lowercase) es"
  by (induction es arbitrary: cs) auto

lemma canonical_matcher:
  assumes "list_all valid_extension es" "length es \<le> 64"
  defines "cs \<equiv> remdups_adj (sort (map (map to_ascii_lowercase) es))"
  shows "\<exists>m. ReverseSuffixMatcher_compile cs = Some m \<and> (\<forall>name. ReverseSuffixMatcher_matches m name =
    Some (\<exists>e\<in>set es. suffix (map to_ascii_lowercase e) (map to_ascii_lowercase name)))"
proof -
  have set: "set cs = map to_ascii_lowercase ` set es" by (simp add: cs_def)
  have "sum_list (map length cs) \<le> sum_list (map (\<lambda>_. 32) cs)"
    using assms(1) valid_extension_bytes(2) by (intro sum_list_mono) (auto simp: set list_all_iff)
  also have "\<dots> \<le> 2048"
    using assms(2) remdups_adj_length [of "sort (map (map to_ascii_lowercase) es)"]
    by (simp add: sum_list_triv cs_def)
  finally have "sum_list (map length cs) < 65535" by simp
  moreover have "\<forall>e\<in>set cs. e \<noteq> [] \<and> list_all (\<lambda>b. b < 128) e"
    using assms(1) valid_extension_bytes unfolding set by (fastforce simp: list_all_iff)
  ultimately show ?thesis using matcher_correct [of cs] by (simp add: set)
qed

lemma strict_sorted_remdups_adj: "sorted xs \<Longrightarrow> sorted_wrt (<) (remdups_adj xs)" for xs :: "'a::linorder list"
  by (induction xs rule: remdups_adj.induct) auto

lemma compile_valid:
  assumes "revision \<noteq> []" "length revision \<le> 128" "length es \<le> 64" "list_all valid_extension es"
  shows "\<exists>m. SmallFileExtensionPolicy_compile revision es = Some (Inr \<lparr>sp_revision = revision,
      sp_extensions = remdups_adj (sort (map (map to_ascii_lowercase) es)), sp_matcher = m\<rparr>) \<and>
    (\<forall>name. ReverseSuffixMatcher_matches m name =
       Some (\<exists>e\<in>set es. suffix (map to_ascii_lowercase e) (map to_ascii_lowercase name)))"
proof -
  have "canonical_extensions es = Inr (map (map to_ascii_lowercase) es)"
    using assms(4) by (simp add: canonical_extensions_iff)
  with canonical_matcher [OF assms(4,3)] assms show ?thesis
    by (auto simp: SmallFileExtensionPolicy_compile_def Let_def)
qed

lemma compile_Inr_valid:
  assumes "SmallFileExtensionPolicy_compile revision es = Some (Inr policy)"
  shows "revision \<noteq> []" "length revision \<le> 128" "length es \<le> 64" "list_all valid_extension es"
  using assms by (auto simp: SmallFileExtensionPolicy_compile_def Let_def canonical_extensions_iff
      split: if_splits sum.splits)

lemma default_policy_defined: "\<exists>policy. SmallFileExtensionPolicy_default = Some policy"
proof -
  have "list_all valid_extension DEFAULT_SMALL_FILE_EXTENSIONS" by code_simp
  then show ?thesis
    using compile_valid [of "ascii ''default-v1''" DEFAULT_SMALL_FILE_EXTENSIONS]
    by (auto simp: SmallFileExtensionPolicy_default_def DEFAULT_SMALL_FILE_EXTENSIONS_def ascii_def)
qed

section \<open>Properties\<close>

text \<open>
  C5: The matcher of a compiled policy never panics and accepts a name exactly when one of the given
  extensions is a suffix of the name, up to ASCII case.
\<close>

theorem small_file_match_iff:
  assumes "SmallFileExtensionPolicy_compile revision extensions = Some (Inr policy)"
  shows "matches_name policy name =
    Some (\<exists>e\<in>set extensions. suffix (map to_ascii_lowercase e) (map to_ascii_lowercase name))"
  using compile_valid [OF compile_Inr_valid [OF assms]] assms by (auto simp: matches_name_def)

theorem small_file_match_iff_witness:
  "\<exists>policy. SmallFileExtensionPolicy_compile (ascii ''r1'') [ascii ''.JSON''] = Some (Inr policy) \<and>
     matches_name policy (ascii ''a.Json'') = Some True \<and> matches_name policy (ascii ''a.xml'') = Some False"
proof -
  have "list_all valid_extension [ascii ''.JSON'']" by code_simp
  then obtain policy where policy: "SmallFileExtensionPolicy_compile (ascii ''r1'') [ascii ''.JSON''] = Some (Inr policy)"
    using compile_valid [of "ascii ''r1''" "[ascii ''.JSON'']"] by (auto simp: ascii_def)
  have "suffix (map to_ascii_lowercase (ascii ''.JSON'')) (map to_ascii_lowercase (ascii ''a.Json''))"
    "\<not> suffix (map to_ascii_lowercase (ascii ''.JSON'')) (map to_ascii_lowercase (ascii ''a.xml''))"
    by code_simp+
  with small_file_match_iff [OF policy] policy show ?thesis by simp
qed

text \<open>
  C40: Compiling a policy never panics: it succeeds exactly when the revision has 1 to 128 bytes,
  there are at most 64 extensions and all are valid. The policy then holds the extensions in lower
  case, in ascending order and without duplicates.
\<close>

theorem small_file_compile_total:
  "\<exists>r. SmallFileExtensionPolicy_compile revision extensions = Some r \<and>
     isl r = (\<not> (0 < length revision \<and> length revision \<le> 128 \<and> length extensions \<le> 64 \<and>
                 list_all valid_extension extensions)) \<and>
     (case r of Inl _ \<Rightarrow> True
      | Inr policy \<Rightarrow> sp_revision policy = revision \<and> sorted_wrt (<) (sp_extensions policy) \<and>
          set (sp_extensions policy) = map to_ascii_lowercase ` set extensions)"
proof (cases "revision \<noteq> [] \<and> length revision \<le> 128 \<and> length extensions \<le> 64 \<and> list_all valid_extension extensions")
  case True
  then show ?thesis
    using compile_valid [of revision extensions] strict_sorted_remdups_adj by force
next
  case False
  then have "\<exists>e. SmallFileExtensionPolicy_compile revision extensions = Some (Inl e)"
    by (cases "canonical_extensions extensions")
      (simp_all add: SmallFileExtensionPolicy_compile_def canonical_extensions_iff)
  with False show ?thesis by auto
qed

end
