(* ===== verification/Spec2Isabelle.thy ===== *)
theory Spec2Isabelle
  imports Commit_Record High_Water Pool_Identity Metadata_Object Activation_Record Memory_Run
    Generation_Log_History Activation_Log Generation_Allocator_History Container_Names
    Seqcdc Manifest_Leaf Manifest_Inner Logical_Quota Commit_Capacity Small_File_Policy
begin

text \<open>
  Verification of the fastdup storage appliance.

  fastdup is a deduplicating file store written in Rust (\<open>src/crates/\<close>). A POSIX front end
  (\<open>fastdup-posix\<close>) admits writes against quotas and policies; the store (\<open>fastdup-store\<close>) cuts file
  content into chunks, keeps them in containers, and publishes each version of the namespace through
  an append-only log in two slots; the formats of everything durable are in \<open>fastdup-format\<close>. All
  storage goes through the trait \<open>StorageIo\<close>, for which \<open>fastdup-testkit\<close> has an in-memory adapter with
  live and durable contents, injected faults and crashes.

  \<^bold>\<open>How code becomes definitions.\<close> Machine integers are words, with checked and saturating
  operations as in the source; \<open>usize\<close> is \<^typ>\<open>nat\<close> with the bound of 64 bits written out. A
  \<open>Result\<close> is a sum type with the error on the left, chained by \<open>and_then\<close>. A byte slice is a list of
  8-bit words, a \<open>BTreeMap\<close> a sorted association list, a struct a record. Code over storage is a state
  and error monad over a record of the operations of \<open>StorageIo\<close>. A panic, where it could occur, is
  \<open>None\<close>. Hash functions of other packages (CRC-32C, BLAKE3) are parameters, in the record \<open>digest_lib\<close>,
  with the laws of the locale \<open>digest_laws\<close>: a checksum can be continued over a second slice, and a
  BLAKE3 digest has 32 bytes. The locale is interpreted on concrete digests, which the witnesses use.

  \<^bold>\<open>Theories, and what they model.\<close>

  \<^item> \<open>Prelude\<close>, \<open>Digests\<close>: results, checked arithmetic, little-endian fields, ordered maps; digests.
  \<^item> \<open>Commit_Record\<close> (\<open>commit.rs\<close>), \<open>High_Water\<close> (\<open>container_generation_high_water.rs\<close>),
    \<open>Pool_Identity\<close> (\<open>pool_identity.rs\<close>), \<open>Activation_Record\<close> (\<open>exact_index_activation.rs\<close>),
    \<open>Metadata_Object\<close> (\<open>metadata.rs\<close>), all of \<open>fastdup-format\<close>: the durable records. Decoding accepts
    exactly the encodings of valid records, so every byte is checked and no two byte strings stand for
    the same record.
  \<^item> \<open>Entry_Table\<close>, \<open>Manifest_Leaf\<close> (\<open>manifest.rs\<close>), \<open>Manifest_Inner\<close> (\<open>manifest_inner.rs\<close>): the nodes
    of a file's Manifest. The locale \<open>entry_table\<close> is the interface of a table of fixed-size entries and
    is interpreted for both nodes. Validation accepts exactly the partitions of the file range, decoding
    inverts encoding, every decoded leaf is well formed, allocation totals are bounded by the file.
  \<^item> \<open>Storage_Io\<close> (the trait of \<open>fastdup-store/src/lib.rs\<close>), \<open>Memory_Storage\<close>, \<open>Memory_Run\<close>
    (\<open>fastdup-testkit/src/lib.rs\<close>): the storage interface, Hoare triples with a postcondition for
    success and one for errors, the locale \<open>storage_laws\<close> of what a client may rely on at every
    operation, and its interpretation on the in-memory adapter for power failures and killed processes.
  \<^item> \<open>Record_Chain\<close>, \<open>Paired_Log\<close>: chains of hashed records, and the locale \<open>paired_log\<close> of a log in
    two slots with its histories of appends, faults and restarts. \<open>Generation_Log_Segment\<close>,
    \<open>Generation_Log\<close>, \<open>Generation_Log_History\<close> (\<open>generation_log.rs\<close>) and \<open>Activation_Log\<close>
    (\<open>exact_activation_log.rs\<close>) interpret it: an append that fails at any operation leaves the old or
    the new chain, no history loses an acknowledged record, recovery and repair reach a state from which
    appending works again, and without faults an append refines the abstract extension of the chain.
  \<^item> \<open>Generation_Allocator\<close>, \<open>Generation_Allocator_History\<close> (\<open>container_generation_allocator.rs\<close>):
    no history of reservations, faults and restarts hands out a generation twice, the audited high
    water covers all of them; and a killed extension can leave slots that are refused when the allocator
    is opened again. \<open>Container_Names\<close> (\<open>lib.rs\<close>): file names of published containers parse exactly to
    the identities that print them.
  \<^item> \<open>Seqcdc_Masks\<close>, \<open>Seqcdc\<close> (\<open>seqcdc.rs\<close>): the boundary scanner. The scalar loop terminates within
    its bounds; the AVX2, AVX-512 and segmented scanners find the same boundary. The loops are
    \<open>partial_function (option)\<close>, so not returning is \<open>None\<close>, and that they return is proved. The locale
    \<open>lane_classifier\<close> is the contract of a vector step and is interpreted for both widths.
  \<^item> \<open>Logical_Quota\<close> (\<open>fastdup-posix/src/logical_quota.rs\<close>): quotas with their lock-free counter as a
    step relation; no interleaving exceeds a limit or makes a release panic.
  \<^item> \<open>Commit_Capacity\<close> (\<open>fastdup-appliance/src/commit_capacity.rs\<close>): admission against the capacity of
    the tiers; the reserved bytes are exactly those of the claims in flight, whatever the order of
    commits and observations, and no assertion fails.
  \<^item> \<open>Small_File_Policy\<close> (\<open>small_file_policy.rs\<close>): the table-driven suffix matcher is equivalent to
    the comparison of suffixes, and compiling a policy is total.

  \<^bold>\<open>Bounds and fuel.\<close> No definition has fuel. Loops over lists and slots are structural recursions,
  the segment decoders have termination proofs by the remaining bytes. Histories are arbitrary lists of
  operations; a fault is an arbitrary operation number and a crash keeps or loses unsynced writes as
  the adapter does.

  \<^bold>\<open>Not modelled.\<close> Allocation failures of the Rust allocator, mutexes and read-write locks (each
  guarded operation is one step), display and logging code, and telemetry. Of \<open>fastdup-format\<close>: the
  namespace, container, exact and similarity index, run set, mark and candidate catalog and checkpoint
  formats. Of \<open>fastdup-store\<close>: the repositories of the exact and similarity indexes, reduction and its
  codecs, manifest tree and readers, caches and budgets, maintenance, and the adapter over real files,
  whose calls end in the operating system. Of \<open>fastdup-posix\<close>: the live namespace, versioned files and
  the FUSE adapter, which depends on the vendored \<open>fuse3\<close>. The rest of \<open>fastdup-appliance\<close>, and
  \<open>fastdup-control\<close>, \<open>fastdup-io-uring\<close> and the benchmarks assemble these parts, talk to the
  operating system or measure, and the directories \<open>web\<close>, \<open>samba\<close> and \<open>packaging\<close> have no Rust code.
\<close>

end
